(* ===== verification/Prelude.thy ===== *)
theory Prelude
  imports Main "HOL-Library.Word" "HOL-Library.List_Lexorder"
begin

unbundle bit_operations_syntax

text \<open>
  Shared vocabulary of the development.

  \<^item> Machine integers are words (\<open>u8\<close>, \<open>u16\<close>, \<open>u32\<close>, \<open>u64\<close>); the repository is
    built with \<^verbatim>\<open>overflow-checks = false\<close>, so wrap-around is the arithmetic of the code.
    A signed \<open>i64\<close> is the same 64 bits read by \<open>sint\<close>.
  \<^item> A byte string is a list of \<open>u8\<close>; its order is the lexicographic order that Rust
    derives for \<^verbatim>\<open>Vec<u8>\<close>, the one of \<open>List_Lexorder\<close>.
  \<^item> \<open>result\<close> is the outcome of a Rust call: a value, an error value, or a panic.
  \<^item> \<open>be_bytes\<close> and \<open>be_nat\<close> are the big-endian layout of a number, with its
    round trip and its order.
\<close>

subsection \<open>Collections of facts\<close>

named_theorems result_simps \<open>case analysis of outcomes\<close>
named_theorems codec_simps \<open>evaluation and round trips of the codecs\<close>

subsection \<open>Machine integers and byte strings\<close>

type_synonym u8 = "8 word"
type_synonym u16 = "16 word"
type_synonym u32 = "32 word"
type_synonym u64 = "64 word"
type_synonym i64 = "64 word"
type_synonym bytes = "u8 list"

text \<open>Instants and durations count nanoseconds.\<close>

type_synonym instant = nat
type_synonym duration = nat

definition saturating_add :: "u64 \<Rightarrow> u64 \<Rightarrow> u64" where
  "saturating_add a b = (if a + b < a then - 1 else a + b)"

subsection \<open>Outcomes of Rust calls\<close>

datatype ('a, 'e) result = Ok 'a | Err 'e | Panic

type_synonym 'a panics = "('a, unit) result"

primrec and_then :: "('a, 'e) result \<Rightarrow> ('a \<Rightarrow> ('b, 'e) result) \<Rightarrow> ('b, 'e) result" where
  "and_then (Ok x) f = f x"
| "and_then (Err e) f = Err e"
| "and_then Panic f = Panic"

primrec map_err :: "('e \<Rightarrow> 'f) \<Rightarrow> ('a, 'e) result \<Rightarrow> ('a, 'f) result" where
  "map_err g (Ok x) = Ok x"
| "map_err g (Err e) = Err (g e)"
| "map_err g Panic = Panic"

primrec map_ok :: "('a \<Rightarrow> 'b) \<Rightarrow> ('a, 'e) result \<Rightarrow> ('b, 'e) result" where
  "map_ok g (Ok x) = Ok (g x)"
| "map_ok g (Err e) = Err e"
| "map_ok g Panic = Panic"

primrec ok_or :: "'e \<Rightarrow> 'a option \<Rightarrow> ('a, 'e) result" where
  "ok_or e None = Err e"
| "ok_or e (Some x) = Ok x"

primrec unwrap :: "'a option \<Rightarrow> ('a, 'e) result" where
  "unwrap None = Panic"
| "unwrap (Some x) = Ok x"

text \<open>\<^verbatim>\<open>assert!(b)\<close> before a continuation.\<close>

definition assert_then :: "bool \<Rightarrow> ('a, 'e) result \<Rightarrow> ('a, 'e) result" where
  "assert_then b r = (if b then r else Panic)"

text \<open>\<^verbatim>\<open>Result::unwrap\<close>: an error becomes a panic.\<close>

primrec unwrap_result :: "('a, 'e) result \<Rightarrow> ('a, 'f) result" where
  "unwrap_result (Ok x) = Ok x"
| "unwrap_result (Err e) = Panic"
| "unwrap_result Panic = Panic"

lemma and_then_eq_Ok [result_simps]:
  "and_then r f = Ok y \<longleftrightarrow> (\<exists>x. r = Ok x \<and> f x = Ok y)"
  by (cases r) auto

lemma and_then_eq_Err [result_simps]:
  "and_then r f = Err e \<longleftrightarrow> r = Err e \<or> (\<exists>x. r = Ok x \<and> f x = Err e)"
  by (cases r) auto

lemma and_then_eq_Panic [result_simps]:
  "and_then r f = Panic \<longleftrightarrow> r = Panic \<or> (\<exists>x. r = Ok x \<and> f x = Panic)"
  by (cases r) auto

lemma map_err_eq_Ok [result_simps]: "map_err g r = Ok y \<longleftrightarrow> r = Ok y"
  by (cases r) auto

lemma map_err_eq_Panic [result_simps]: "map_err g r = Panic \<longleftrightarrow> r = Panic"
  by (cases r) auto

lemma map_ok_eq_Ok [result_simps]: "map_ok g r = Ok y \<longleftrightarrow> (\<exists>x. r = Ok x \<and> y = g x)"
  by (cases r) auto

lemma map_ok_eq_Panic [result_simps]: "map_ok g r = Panic \<longleftrightarrow> r = Panic"
  by (cases r) auto

lemma unwrap_eq_Ok [result_simps]: "unwrap x = Ok y \<longleftrightarrow> x = Some y"
  by (cases x) auto

lemma option_eqI: "(\<And>v. x = Some v \<longleftrightarrow> y = Some v) \<Longrightarrow> x = y"
  by (cases x; cases y) auto

lemma assert_then_True [simp]: "assert_then True r = r"
  by (simp add: assert_then_def)

lemma assert_then_eq_Ok [result_simps]: "assert_then b r = Ok x \<longleftrightarrow> b \<and> r = Ok x"
  by (simp add: assert_then_def)

subsection \<open>Lexicographic order of byte strings\<close>

lemma list_less_append_same [simp]:
  fixes xs ys zs :: "'a::linorder list"
  shows "xs @ ys < xs @ zs \<longleftrightarrow> ys < zs"
  by (induction xs) auto

lemma list_le_append_same [simp]:
  fixes xs ys zs :: "'a::linorder list"
  shows "xs @ ys \<le> xs @ zs \<longleftrightarrow> ys \<le> zs"
  by (induction xs) auto

lemma list_less_append_eq_len:
  fixes xs ys us vs :: "'a::linorder list"
  shows "length xs = length ys \<Longrightarrow>
    xs @ us < ys @ vs \<longleftrightarrow> xs < ys \<or> xs = ys \<and> us < vs"
  by (induction xs ys rule: list_induct2) auto

lemma list_le_append_eq_len:
  fixes xs ys us vs :: "'a::linorder list"
  shows "length xs = length ys \<Longrightarrow>
    xs @ us \<le> ys @ vs \<longleftrightarrow> xs < ys \<or> xs = ys \<and> us \<le> vs"
  by (induction xs ys rule: list_induct2) auto

lemma list_less_append_prefix:
  fixes xs ys :: "'a::linorder list"
  shows "ys \<noteq> [] \<Longrightarrow> xs < xs @ ys"
  by (induction xs) (auto simp: neq_Nil_conv)

subsection \<open>Big-endian layout\<close>

fun be_bytes :: "nat \<Rightarrow> nat \<Rightarrow> bytes" where
  "be_bytes 0 x = []"
| "be_bytes (Suc n) x = be_bytes n (x div 256) @ [of_nat x]"

definition be_nat :: "bytes \<Rightarrow> nat" where
  "be_nat bs = foldl (\<lambda>acc b. acc * 256 + unat b) 0 bs"

lemma length_be_bytes [simp]: "length (be_bytes n x) = n"
  by (induction n arbitrary: x) auto

lemma be_nat_snoc [simp]: "be_nat (bs @ [b]) = be_nat bs * 256 + unat b"
  by (simp add: be_nat_def)

lemma be_nat_Nil [simp]: "be_nat [] = 0"
  by (simp add: be_nat_def)

lemma unat_of_nat_u8: "unat (of_nat x :: u8) = x mod 256"
  by (simp add: unat_of_nat)

lemma be_nat_be_bytes: "be_nat (be_bytes n x) = x mod 256 ^ n"
proof (induction n arbitrary: x)
  case (Suc n)
  have "x mod 256 ^ Suc n = 256 * (x div 256 mod 256 ^ n) + x mod 256"
    by (simp add: mod_mult2_eq)
  then show ?case
    using Suc.IH by (simp add: unat_of_nat_u8)
qed simp

lemma be_nat_less: "be_nat bs < 256 ^ length bs"
proof (induction bs rule: rev_induct)
  case (snoc b bs)
  have "unat b < 256" using unsigned_less [of b] by simp
  with snoc show ?case by simp
qed simp

lemma be_bytes_be_nat: "length bs = n \<Longrightarrow> be_bytes n (be_nat bs) = bs"
proof (induction bs arbitrary: n rule: rev_induct)
  case (snoc b bs)
  have b: "unat b < 256" using unsigned_less [of b] by simp
  have "(of_nat (be_nat bs * 256 + unat b) :: u8) = b"
  proof (rule word_unat_eq_iff [THEN iffD2])
    show "unat (of_nat (be_nat bs * 256 + unat b) :: u8) = unat b"
      using b by (simp only: unat_of_nat_u8) simp
  qed
  moreover have "(be_nat bs * 256 + unat b) div 256 = be_nat bs"
    using b by simp
  ultimately show ?case
    using snoc by (cases n) auto
qed simp

lemma less_div_mod_iff:
  assumes "0 < (m::nat)"
  shows "x < y \<longleftrightarrow> x div m < y div m \<or> x div m = y div m \<and> x mod m < y mod m"
proof -
  have less: "u < v" if "u div m < v div m" for u v
    using that div_le_mono [of v u m] by linarith
  have eq: "u < v \<longleftrightarrow> u mod m < v mod m" if "u div m = v div m" for u v
    using that by (metis div_mult_mod_eq nat_add_left_cancel_less)
  show ?thesis
    using less [of x y] less [of y x] eq by (meson less_asym linorder_neqE_nat)
qed

lemma be_bytes_less_iff:
  "x < 256 ^ n \<Longrightarrow> y < 256 ^ n \<Longrightarrow> be_bytes n x < be_bytes n y \<longleftrightarrow> x < y"
proof (induction n arbitrary: x y)
  case (Suc n)
  have d: "x div 256 < 256 ^ n" "y div 256 < 256 ^ n"
    using Suc.prems by (auto simp: div_less_iff_less_mult mult.commute)
  have eq: "be_bytes n (x div 256) = be_bytes n (y div 256) \<longleftrightarrow> x div 256 = y div 256"
    by (metis be_nat_be_bytes d mod_less)
  have last: "(of_nat x :: u8) < of_nat y \<longleftrightarrow> x mod 256 < y mod 256"
    by (simp add: word_less_nat_alt unat_of_nat_u8)
  have "x < y \<longleftrightarrow> x div 256 < y div 256 \<or> x div 256 = y div 256 \<and> x mod 256 < y mod 256"
    by (rule less_div_mod_iff) simp
  then show ?case
    using Suc.IH [OF d] eq last by (simp add: list_less_append_eq_len)
qed simp

text \<open>\<^verbatim>\<open>to_be_bytes\<close> and \<^verbatim>\<open>from_be_bytes\<close> of the unsigned integer types.\<close>

definition to_be_bytes :: "'a::len word \<Rightarrow> bytes" where
  "to_be_bytes w = be_bytes (LENGTH('a) div 8) (unat w)"

definition from_be_bytes :: "bytes \<Rightarrow> 'a::len word" where
  "from_be_bytes bs = of_nat (be_nat bs)"

lemma length_to_be_bytes [simp]: "length (to_be_bytes (w :: 'a::len word)) = LENGTH('a) div 8"
  by (simp add: to_be_bytes_def)

lemma pow256: "8 dvd n \<Longrightarrow> (256::nat) ^ (n div 8) = 2 ^ n"
  using power_mult [of "2::nat" 8 "n div 8"] by simp

lemma from_to_be_bytes:
  "8 dvd LENGTH('a) \<Longrightarrow> from_be_bytes (to_be_bytes (w :: 'a::len word)) = w"
  using unsigned_less [of w] by (simp add: from_be_bytes_def to_be_bytes_def be_nat_be_bytes pow256)

lemma to_from_be_bytes:
  assumes "8 dvd LENGTH('a)" and "length bs = LENGTH('a) div 8"
  shows "to_be_bytes (from_be_bytes bs :: 'a::len word) = bs"
proof -
  have "be_nat bs < 2 ^ LENGTH('a)"
    using be_nat_less [of bs] assms by (simp add: pow256)
  then have "unat (from_be_bytes bs :: 'a word) = be_nat bs"
    by (simp add: from_be_bytes_def unat_of_nat)
  then show ?thesis
    using assms by (simp add: to_be_bytes_def be_bytes_be_nat)
qed

lemma to_be_bytes_less_iff:
  "8 dvd LENGTH('a) \<Longrightarrow> to_be_bytes (v :: 'a::len word) < to_be_bytes w \<longleftrightarrow> v < w"
  using unsigned_less [of v] unsigned_less [of w]
  by (simp add: to_be_bytes_def be_bytes_less_iff pow256 word_less_nat_alt)

lemmas be64_simps [codec_simps] =
  from_to_be_bytes [where 'a = 64, simplified] to_from_be_bytes [where 'a = 64, simplified]

lemma list_less_append_nonprefix:
  fixes xs ys :: "'a::linorder list"
  shows "xs < ys \<Longrightarrow> \<nexists>t. ys = xs @ t \<Longrightarrow> xs @ r < ys @ s"
proof (induction xs arbitrary: ys)
  case (Cons x xs)
  then show ?case by (cases ys) auto
qed simp

subsection \<open>The contract of an encoding\<close>

text \<open>
  What the clients of an encoder rely on: the decoder reads back the value and stops at its end.
  Injectivity and prefix-freeness follow, so that encodings can be concatenated. An
  order-preserving (memory-comparable) encoding adds that the byte order of the encodings is the
  order of the values, whatever bytes follow.
\<close>

locale codec =
  fixes encode :: "'a \<Rightarrow> bytes" and decode :: "bytes \<Rightarrow> ('a \<times> bytes, 'e) result"
  assumes decode_encode: "decode (encode v @ rest) = Ok (v, rest)"
begin

lemma prefix_free: "encode v @ r = encode w @ s \<longleftrightarrow> v = w \<and> r = s"
  by (metis decode_encode result.inject(1) prod.inject)

lemma encode_inj: "encode v = encode w \<longleftrightarrow> v = w"
  using prefix_free [of v "[]" w "[]"] by simp

lemma decode_whole: "decode (encode v) = Ok (v, [])"
  using decode_encode [of v "[]"] by simp

end

locale ordered_codec = codec encode decode
  for encode :: "'a \<Rightarrow> bytes" and decode :: "bytes \<Rightarrow> ('a \<times> bytes, 'e) result" +
  fixes lt :: "'a \<Rightarrow> 'a \<Rightarrow> bool"
  assumes encode_less_iff: "encode v < encode w \<longleftrightarrow> lt v w"
begin

lemma encode_append_less: "lt v w \<Longrightarrow> encode v @ r < encode w @ s"
proof (rule list_less_append_nonprefix)
  assume "lt v w"
  then show l: "encode v < encode w" by (simp add: encode_less_iff)
  show "\<nexists>t. encode w = encode v @ t"
    using prefix_free [of w "[]" v] l by auto
qed

lemma encode_append_less_iff: "encode v @ r < encode w @ s \<longleftrightarrow> lt v w \<or> v = w \<and> r < s"
proof -
  consider "lt v w" | "v = w" | "lt w v"
    using encode_less_iff [of v w] encode_less_iff [of w v] encode_inj [of v w] by (meson neqE)
  then show ?thesis
  proof cases
    case 1
    then show ?thesis using encode_append_less [of v w r s] by simp
  next
    case 2
    then show ?thesis using encode_less_iff [of v w] by auto
  next
    case 3
    then have "\<not> encode v @ r < encode w @ s" "\<not> lt v w" "v \<noteq> w"
      using encode_append_less [OF 3, of s r] encode_less_iff [of v w] encode_less_iff [of w v]
      by (auto dest: less_asym)
    then show ?thesis by simp
  qed
qed

end

end
