(* ===== verification/Codec_Number.thy ===== *)
theory Codec_Number
  imports Prelude
begin

text \<open>
  The number codec of \<^verbatim>\<open>components/tikv_util/src/codec/number.rs\<close> and the variable-length
  decoder of \<^verbatim>\<open>components/codec/src/number.rs\<close>.

  An encoder \<open>encode_x v\<close> is the byte string that the Rust method appends to its writer (a
  \<^verbatim>\<open>Vec<u8>\<close>, whose writes do not fail). A decoder takes the slice and returns the value with
  the rest of the slice, which is how the Rust code advances its \<^verbatim>\<open>&mut &[u8]\<close> argument.
  An unchecked read (\<^verbatim>\<open>get_unchecked\<close>) outside the slice is the outcome \<open>Panic\<close>, so that
  memory safety is the statement that the outcome never is \<open>Panic\<close>. A 64-bit float is its bit
  pattern.
\<close>

subsection \<open>Definitions\<close>

datatype io_error_kind = UnexpectedEof | InvalidData

datatype codec_error =
    CodecIo io_error_kind
  | KeyLength
  | KeyPadding
  | KeyNotFound
  | ValueLength
  | ValueMeta

definition unexpected_eof :: codec_error where
  "unexpected_eof = CodecIo UnexpectedEof"

definition SIGN_MARK :: u64 where
  "SIGN_MARK = 0x8000000000000000"

definition MAX_VAR_I64_LEN :: nat where "MAX_VAR_I64_LEN = 10"
definition MAX_VAR_U64_LEN :: nat where "MAX_VAR_U64_LEN = 10"
definition U64_SIZE :: nat where "U64_SIZE = 8"

definition order_encode_i64 :: "i64 \<Rightarrow> u64" where
  "order_encode_i64 v = v XOR SIGN_MARK"

definition order_decode_i64 :: "u64 \<Rightarrow> i64" where
  "order_decode_i64 u = u XOR SIGN_MARK"

definition f64_is_sign_positive :: "u64 \<Rightarrow> bool" where
  "f64_is_sign_positive bits \<longleftrightarrow> \<not> bit bits 63"

definition order_encode_f64 :: "u64 \<Rightarrow> u64" where
  "order_encode_f64 v = (if f64_is_sign_positive v then v OR SIGN_MARK else NOT v)"

definition order_decode_f64 :: "u64 \<Rightarrow> u64" where
  "order_decode_f64 u = (if u AND SIGN_MARK > 0 then u AND NOT SIGN_MARK else NOT u)"

definition encode_u64 :: "u64 \<Rightarrow> bytes" where
  "encode_u64 v = to_be_bytes v"

definition encode_u64_desc :: "u64 \<Rightarrow> bytes" where
  "encode_u64_desc v = to_be_bytes (NOT v)"

definition encode_i64 :: "i64 \<Rightarrow> bytes" where
  "encode_i64 v = encode_u64 (order_encode_i64 v)"

definition encode_i64_desc :: "i64 \<Rightarrow> bytes" where
  "encode_i64_desc v = encode_u64_desc (order_encode_i64 v)"

definition encode_u32 :: "u32 \<Rightarrow> bytes" where
  "encode_u32 v = to_be_bytes v"

definition encode_u16 :: "u16 \<Rightarrow> bytes" where
  "encode_u16 v = to_be_bytes v"

function encode_var_u64 :: "u64 \<Rightarrow> bytes" where
  "encode_var_u64 v =
     (if v \<ge> 0x80 then (ucast v OR 0x80) # encode_var_u64 (drop_bit 7 v) else [ucast v])"
  by pat_completeness auto

termination
proof (relation "measure unat", goal_cases)
  case (2 v)
  then have "0 < unat v"
    by (simp add: word_le_nat_alt)
  then show ?case
    by (simp add: drop_bit_eq_div unat_div)
qed simp

declare encode_var_u64.simps [simp del]

definition encode_var_i64 :: "i64 \<Rightarrow> bytes" where
  "encode_var_i64 v =
     (let vx = push_bit 1 v in encode_var_u64 (if v <s 0 then NOT vx else vx))"

definition encode_f64 :: "u64 \<Rightarrow> bytes" where
  "encode_f64 f = encode_u64 (order_encode_f64 f)"

definition encode_f64_desc :: "u64 \<Rightarrow> bytes" where
  "encode_f64_desc f = encode_u64_desc (order_encode_f64 f)"

definition encode_u16_le :: "u16 \<Rightarrow> bytes" where
  "encode_u16_le v = rev (to_be_bytes v)"

definition encode_f32_le :: "u32 \<Rightarrow> bytes" where
  "encode_f32_le v = rev (to_be_bytes v)"

definition encode_u32_le :: "u32 \<Rightarrow> bytes" where
  "encode_u32_le v = rev (to_be_bytes v)"

definition encode_i32_le :: "u32 \<Rightarrow> bytes" where
  "encode_i32_le v = rev (to_be_bytes v)"

definition encode_f64_le :: "u64 \<Rightarrow> bytes" where
  "encode_f64_le v = rev (to_be_bytes v)"

definition encode_i64_le :: "i64 \<Rightarrow> bytes" where
  "encode_i64_le v = rev (to_be_bytes v)"

definition encode_u64_le :: "u64 \<Rightarrow> bytes" where
  "encode_u64_le v = rev (to_be_bytes v)"

definition read_num_bytes ::
    "nat \<Rightarrow> bytes \<Rightarrow> (bytes \<Rightarrow> 'a) \<Rightarrow> ('a \<times> bytes, codec_error) result" where
  "read_num_bytes n data f =
     (if length data \<ge> n then Ok (f (take n data), drop n data)
      else Err unexpected_eof)"

definition decode_u64 :: "bytes \<Rightarrow> (u64 \<times> bytes, codec_error) result" where
  "decode_u64 data = read_num_bytes 8 data from_be_bytes"

definition decode_u64_desc :: "bytes \<Rightarrow> (u64 \<times> bytes, codec_error) result" where
  "decode_u64_desc data = and_then (decode_u64 data) (\<lambda>(v, rest). Ok (NOT v, rest))"

definition decode_i64 :: "bytes \<Rightarrow> (i64 \<times> bytes, codec_error) result" where
  "decode_i64 data = map_ok (\<lambda>(v, rest). (order_decode_i64 v, rest)) (decode_u64 data)"

definition decode_i64_desc :: "bytes \<Rightarrow> (i64 \<times> bytes, codec_error) result" where
  "decode_i64_desc data = map_ok (\<lambda>(v, rest). (order_decode_i64 v, rest)) (decode_u64_desc data)"

definition decode_u32 :: "bytes \<Rightarrow> (u32 \<times> bytes, codec_error) result" where
  "decode_u32 data = read_num_bytes 4 data from_be_bytes"

definition decode_u16 :: "bytes \<Rightarrow> (u16 \<times> bytes, codec_error) result" where
  "decode_u16 data = read_num_bytes 2 data from_be_bytes"

text \<open>
  One pass of the decoding loops over the indices \<open>is\<close>: \<open>Inl\<close> is a return from the
  function, \<open>Inr\<close> the accumulated value at the end of the loop.
\<close>

fun var_u64_loop ::
    "bytes \<Rightarrow> nat list \<Rightarrow> u64 \<Rightarrow> (u64 \<times> bytes, codec_error) result + u64" where
  "var_u64_loop data [] res = Inr res"
| "var_u64_loop data (i # is) res =
     (if i < length data then
        let b = data ! i;
            res' = res OR push_bit (i * 7) (ucast b AND 0x7f)
        in if b < 0x80 then Inl (Ok (res', drop (i + 1) data))
           else var_u64_loop data is res'
      else Inl Panic)"

definition decode_var_u64 :: "bytes \<Rightarrow> (u64 \<times> bytes, codec_error) result" where
  "decode_var_u64 data =
     (let scan_all =
        (case var_u64_loop data [0..<length data] 0 of
           Inl r \<Rightarrow> r
         | Inr _ \<Rightarrow> Err unexpected_eof)
      in
      if data \<noteq> [] then
        if data ! 0 < 0x80 then Ok (ucast (data ! 0) AND 0x7f, drop 1 data)
        else if length data \<ge> 10 \<or> last data < 0x80 then
          (case var_u64_loop data [0..<9] 0 of
             Inl r \<Rightarrow> r
           | Inr res \<Rightarrow>
               if 9 < length data then
                 let b = data ! 9 in
                 if b \<le> 1 then Ok (res OR push_bit (9 * 7) (ucast b AND 0x7f), drop 10 data)
                 else Err (CodecIo InvalidData)
               else Panic)
        else scan_all
      else scan_all)"

definition decode_var_i64 :: "bytes \<Rightarrow> (i64 \<times> bytes, codec_error) result" where
  "decode_var_i64 data =
     and_then (decode_var_u64 data) (\<lambda>(v, rest).
       let vx = drop_bit 1 v in
       if v AND 1 = 0 then Ok (vx, rest) else Ok (NOT vx, rest))"

definition decode_f64 :: "bytes \<Rightarrow> (u64 \<times> bytes, codec_error) result" where
  "decode_f64 data = map_ok (\<lambda>(v, rest). (order_decode_f64 v, rest)) (decode_u64 data)"

definition decode_f64_desc :: "bytes \<Rightarrow> (u64 \<times> bytes, codec_error) result" where
  "decode_f64_desc data = map_ok (\<lambda>(v, rest). (order_decode_f64 v, rest)) (decode_u64_desc data)"

definition decode_u16_le :: "bytes \<Rightarrow> (u16 \<times> bytes, codec_error) result" where
  "decode_u16_le data = read_num_bytes 2 data (\<lambda>b. from_be_bytes (rev b))"

definition decode_u32_le :: "bytes \<Rightarrow> (u32 \<times> bytes, codec_error) result" where
  "decode_u32_le data = read_num_bytes 4 data (\<lambda>b. from_be_bytes (rev b))"

definition decode_i32_le :: "bytes \<Rightarrow> (u32 \<times> bytes, codec_error) result" where
  "decode_i32_le data = read_num_bytes 4 data (\<lambda>b. from_be_bytes (rev b))"

definition decode_f64_le :: "bytes \<Rightarrow> (u64 \<times> bytes, codec_error) result" where
  "decode_f64_le data = read_num_bytes 8 data (\<lambda>b. from_be_bytes (rev b))"

definition decode_f32_le :: "bytes \<Rightarrow> (u32 \<times> bytes, codec_error) result" where
  "decode_f32_le data = read_num_bytes 4 data (\<lambda>bs. from_be_bytes (rev bs))"

definition decode_u64_le :: "bytes \<Rightarrow> (u64 \<times> bytes, codec_error) result" where
  "decode_u64_le data = read_num_bytes 8 data (\<lambda>b. from_be_bytes (rev b))"

definition decode_i64_le :: "bytes \<Rightarrow> (i64 \<times> bytes, codec_error) result" where
  "decode_i64_le data = and_then (decode_u64_le data) (\<lambda>(v, rest). Ok (v, rest))"

definition read_u8 :: "bytes \<Rightarrow> (u8 \<times> bytes, codec_error) result" where
  "read_u8 data = (if data \<noteq> [] then Ok (data ! 0, drop 1 data) else Err unexpected_eof)"

text \<open>
  The order of floats on their bit patterns: negative before positive, by magnitude within a sign.
\<close>

definition f64_less :: "u64 \<Rightarrow> u64 \<Rightarrow> bool" where
  "f64_less v w \<longleftrightarrow>
    (if f64_is_sign_positive v then f64_is_sign_positive w \<and> v < w
     else f64_is_sign_positive w \<or> w < v)"

subsection \<open>The sign bit\<close>


lemma sless_zero_bit: "v <s 0 \<longleftrightarrow> bit (v::64 word) 63"
  using bit_last_iff [of v] by (simp add: word_sless_alt)

lemma SIGN_MARK_push: "SIGN_MARK = push_bit 63 1"
  by (simp add: SIGN_MARK_def)

lemma bit_SIGN_MARK [simp]: "bit SIGN_MARK n \<longleftrightarrow> n = 63"
  unfolding SIGN_MARK_push by (auto simp: bit_simps simp del: push_bit_of_1)

lemma xor_SIGN_MARK: "v XOR SIGN_MARK = v + SIGN_MARK"
proof (cases "bit v 63")
  case False
  then have "v + SIGN_MARK = v OR SIGN_MARK"
    by (intro disjunctive_add) auto
  moreover have "v XOR SIGN_MARK = v OR SIGN_MARK"
    using False by (intro bit_word_eqI) (auto simp: bit_simps)
  ultimately show ?thesis by simp
next
  case True
  have "(v XOR SIGN_MARK) + SIGN_MARK = (v XOR SIGN_MARK) OR SIGN_MARK"
    using True by (intro disjunctive_add) (auto simp: bit_simps)
  also have "\<dots> = v"
    using True by (intro bit_word_eqI) (auto simp: bit_simps)
  finally have "v + SIGN_MARK = (v XOR SIGN_MARK) + (SIGN_MARK + SIGN_MARK)"
    by (metis add.assoc)
  moreover have "SIGN_MARK + SIGN_MARK = 0"
    by (simp add: SIGN_MARK_def)
  ultimately show ?thesis by simp
qed

lemma sint_xor_SIGN_MARK: "sint v = uint (v XOR SIGN_MARK) - 2 ^ 63"
  unfolding xor_SIGN_MARK
  by (simp add: sint_uint signed_take_bit_eq_take_bit_shift uint_word_ariths take_bit_eq_mod SIGN_MARK_def)


subsection \<open>Fixed-width numbers\<close>

lemma decode_num_append:
  assumes "8 dvd LENGTH('a)" and "length (to_be_bytes (v::'a::len word)) = n"
  shows "read_num_bytes n (to_be_bytes v @ rest) from_be_bytes = Ok (v, rest)"
  unfolding read_num_bytes_def assms(2) [symmetric] by (simp add: from_to_be_bytes [OF assms(1)])

lemma decode_encode_u64: "decode_u64 (encode_u64 v @ rest) = Ok (v, rest)"
  by (simp add: decode_u64_def encode_u64_def decode_num_append)
lemma decode_encode_u32: "decode_u32 (encode_u32 v @ rest) = Ok (v, rest)"
  by (simp add: decode_u32_def encode_u32_def decode_num_append)
lemma decode_encode_u16: "decode_u16 (encode_u16 v @ rest) = Ok (v, rest)"
  by (simp add: decode_u16_def encode_u16_def decode_num_append)
lemma encode_u64_desc_NOT: "encode_u64_desc v = encode_u64 (NOT v)"
  by (simp add: encode_u64_desc_def encode_u64_def)
lemma decode_encode_u64_desc: "decode_u64_desc (encode_u64_desc v @ rest) = Ok (v, rest)"
  by (simp add: decode_u64_desc_def encode_u64_desc_NOT decode_encode_u64)
lemma order_decode_encode_i64 [simp]: "order_decode_i64 (order_encode_i64 v) = v"
  by (simp add: order_decode_i64_def order_encode_i64_def xor.assoc)
lemma decode_encode_i64: "decode_i64 (encode_i64 v @ rest) = Ok (v, rest)"
  by (simp add: decode_i64_def encode_i64_def decode_encode_u64)
lemma decode_encode_i64_desc: "decode_i64_desc (encode_i64_desc v @ rest) = Ok (v, rest)"
  by (simp add: decode_i64_desc_def encode_i64_desc_def decode_encode_u64_desc)
lemma encode_u64_less_iff: "encode_u64 v < encode_u64 w \<longleftrightarrow> v < w"
  by (simp add: encode_u64_def to_be_bytes_less_iff)
lemma uint_NOT: "uint (NOT x) = 2 ^ 64 - 1 - uint (x :: u64)"
  using uint_minus_simple_iff [of "-1" x] by (simp add: not_eq_complement unsigned_minus_1_eq_mask mask_eq_exp_minus_1 minus_diff_commute)


lemma NOT_less_iff: "NOT v < NOT w \<longleftrightarrow> w < (v::u64)"
  by (simp add: word_less_def uint_NOT)
lemma encode_u64_desc_less_iff: "encode_u64_desc v < encode_u64_desc w \<longleftrightarrow> w < v"
  by (simp add: encode_u64_desc_NOT encode_u64_less_iff NOT_less_iff)

lemma order_encode_i64_less_iff: "order_encode_i64 v < order_encode_i64 w \<longleftrightarrow> v <s w"
  by (simp add: order_encode_i64_def word_sless_alt sint_xor_SIGN_MARK word_less_def)
lemma encode_i64_less_iff: "encode_i64 v < encode_i64 w \<longleftrightarrow> v <s w"
  by (simp add: encode_i64_def encode_u64_less_iff order_encode_i64_less_iff)
lemma encode_i64_desc_less_iff: "encode_i64_desc v < encode_i64_desc w \<longleftrightarrow> w <s v"
  by (simp add: encode_i64_desc_def encode_u64_desc_less_iff order_encode_i64_less_iff)


lemma order_decode_encode_f64: "order_decode_f64 (order_encode_f64 v) = v"
proof -
  have pos: "u AND SIGN_MARK > 0 \<longleftrightarrow> bit u 63" for u :: u64
  proof -
    have "u AND SIGN_MARK = (if bit u 63 then SIGN_MARK else 0)"
      by (intro bit_word_eqI) (auto simp: bit_simps)
    then show ?thesis by (simp add: SIGN_MARK_def)
  qed
  show ?thesis
    unfolding order_decode_f64_def order_encode_f64_def f64_is_sign_positive_def pos
    by (auto simp: bit_simps intro!: bit_word_eqI)
qed

lemma uint_xor_SIGN_MARK:
  "uint (v XOR SIGN_MARK) = (if uint v < 2 ^ 63 then uint v + 2 ^ 63 else uint v - 2 ^ 63)"
proof -
  have "uint (v XOR SIGN_MARK) = (uint v + 2 ^ 63) mod 2 ^ 64"
    unfolding xor_SIGN_MARK by (simp add: uint_word_ariths SIGN_MARK_def)
  moreover have "(uint v + 2 ^ 63) mod 2 ^ 64 = uint v - 2 ^ 63" if "\<not> uint v < 2 ^ 63"
  proof -
    have "uint v + 2 ^ 63 = (uint v - 2 ^ 63) + 2 ^ 64" by simp
    then have "(uint v + 2 ^ 63) mod 2 ^ 64 = (uint v - 2 ^ 63) mod 2 ^ 64"
      by (metis mod_add_self2)
    also have "\<dots> = uint v - 2 ^ 63"
      using that unsigned_less [of v, where ?'a = int] by (intro mod_pos_pos_trivial) auto
    finally show ?thesis .
  qed
  ultimately show ?thesis by auto
qed

lemma f64_sign_uint: "f64_is_sign_positive v \<longleftrightarrow> uint v < 2 ^ 63"
proof -
  have "f64_is_sign_positive v \<longleftrightarrow> \<not> sint v < 0"
    using sless_zero_bit [of v] by (simp add: f64_is_sign_positive_def word_sless_alt)
  also have "\<dots> \<longleftrightarrow> uint v < 2 ^ 63"
    using unsigned_less [of v, where ?'a = int]
    by (auto simp: sint_xor_SIGN_MARK uint_xor_SIGN_MARK)
  finally show ?thesis .
qed

lemma order_encode_f64_uint:
  "uint (order_encode_f64 v) = (if uint v < 2 ^ 63 then uint v + 2 ^ 63 else 2 ^ 64 - 1 - uint v)"
proof -
  have "v OR SIGN_MARK = v XOR SIGN_MARK" if "\<not> bit v 63"
    using that by (intro bit_word_eqI) (auto simp: bit_simps)
  then show ?thesis
    using f64_sign_uint [of v]
    by (auto simp: order_encode_f64_def f64_is_sign_positive_def uint_xor_SIGN_MARK uint_NOT)
qed

lemma order_encode_f64_less_iff: "order_encode_f64 v < order_encode_f64 w \<longleftrightarrow> f64_less v w"
proof -
  define a b where "a = uint v" and "b = uint w"
  then have "0 \<le> a" "a < 2 ^ 64" "0 \<le> b" "b < 2 ^ 64"
    using unsigned_less [of v, where ?'a = int] unsigned_less [of w, where ?'a = int] by simp_all
  then show ?thesis
    unfolding word_less_def f64_less_def order_encode_f64_uint f64_sign_uint a_def [symmetric] b_def [symmetric]
    by auto
qed


lemma decode_encode_f64: "decode_f64 (encode_f64 v @ rest) = Ok (v, rest)"
  by (simp add: decode_f64_def encode_f64_def decode_encode_u64 order_decode_encode_f64)

lemma decode_encode_f64_desc: "decode_f64_desc (encode_f64_desc v @ rest) = Ok (v, rest)"
  by (simp add: decode_f64_desc_def encode_f64_desc_def decode_encode_u64_desc
      order_decode_encode_f64)

lemma encode_f64_less_iff: "encode_f64 v < encode_f64 w \<longleftrightarrow> f64_less v w"
  by (simp add: encode_f64_def encode_u64_less_iff order_encode_f64_less_iff)

subsection \<open>Variable-length numbers\<close>

lemma var_first_byte: "\<not> (ucast (v::u64) OR 0x80 :: u8) < 0x80"
  by (simp add: not_less le_word_or1)
lemma mask7: "(0x7f::u64) = mask 7"
  by (simp add: mask_eq_decr_exp)

lemma bit_128: "bit (0x80::'a::len word) n \<longleftrightarrow> n = 7 \<and> 7 < LENGTH('a)"
proof -
  have "(0x80::'a word) = push_bit 7 1" by simp
  then show ?thesis by (auto simp only: bit_push_bit_iff bit_1_iff) (auto simp: bit_simps)
qed

lemma var_last_byte_less: "v < (0x80::u64) \<Longrightarrow> (ucast v :: u8) < 0x80"
  by (simp add: word_less_nat_alt unsigned_ucast_eq take_bit_nat_eq_self)

lemma var_first_byte_mask: "ucast (ucast (v::u64) OR 0x80 :: u8) AND (0x7f :: u64) = take_bit 7 v"
  unfolding mask7
proof (rule bit_word_eqI)
  fix n assume "n < LENGTH(64)"
  then show "bit (ucast (ucast v OR 0x80 :: u8) AND mask 7 :: u64) n = bit (take_bit 7 v) n"
    using bit_128 [of n, where ?'a = 8] bit_128 [of n, where ?'a = 64] by (auto simp: bit_simps)
qed

lemma var_last_byte: "v < (0x80::u64) \<Longrightarrow> ucast (ucast v :: u8) AND 0x7f = v"
  unfolding mask7
  by (simp add: word_less_nat_alt word_unat_eq_iff take_bit_eq_mask [symmetric] unsigned_ucast_eq unsigned_take_bit_eq take_bit_nat_eq_self)
lemma var_join: "push_bit m (take_bit 7 v) OR push_bit (m + 7) (drop_bit 7 v) = push_bit m (v::u64)"
proof -
  have "take_bit 7 v OR push_bit 7 (drop_bit 7 v) = v"
  proof (rule bit_word_eqI)
    fix n show "bit (take_bit 7 v OR push_bit 7 (drop_bit 7 v)) n = bit v n" if "n < LENGTH(64)"
      using that by (cases "n < 7") (auto simp: bit_simps)
  qed
  then show ?thesis
    by (metis push_bit_or push_bit_push_bit add.commute)
qed

lemma encode_var_u64_ge: "v \<ge> 0x80 \<Longrightarrow> encode_var_u64 v = (ucast v OR 0x80) # encode_var_u64 (drop_bit 7 v)"
  by (subst encode_var_u64.simps) simp
lemma encode_var_u64_less: "v < 0x80 \<Longrightarrow> encode_var_u64 v = [ucast v]"
  by (subst encode_var_u64.simps) auto

lemma length_encode_var_u64:
  "unat v < 2 ^ (7 * Suc n) \<Longrightarrow> length (encode_var_u64 v) \<le> Suc n"
proof (induction n arbitrary: v)
  case 0
  then have "v < 0x80" by (simp add: word_less_nat_alt)
  then show ?case by (simp add: encode_var_u64_less)
next
  case (Suc n)
  show ?case
  proof (cases "v < 0x80")
    case True then show ?thesis by (simp add: encode_var_u64_less)
  next
    case False
    have "unat (drop_bit 7 v) < 2 ^ (7 * Suc n)"
      using Suc.prems by (simp add: drop_bit_eq_div unat_div div_less_iff_less_mult power_add)
    then have "length (encode_var_u64 (drop_bit 7 v)) \<le> Suc n" by (rule Suc.IH)
    with False show ?thesis by (simp add: encode_var_u64_ge)
  qed
qed

lemma length_encode_var_u64_le: "length (encode_var_u64 v) \<le> MAX_VAR_U64_LEN"
proof -
  have "unat v < 2 ^ 64" using unsigned_less [of v, where ?'a = nat] by simp
  also have "\<dots> < 2 ^ (7 * Suc 9)" by simp
  finally have "length (encode_var_u64 v) \<le> Suc 9" by (rule length_encode_var_u64)
  then show ?thesis by (simp add: MAX_VAR_U64_LEN_def)
qed

lemma var_u64_loop_encoded:
  "drop i data = encode_var_u64 v @ rest \<Longrightarrow> i + length (encode_var_u64 v) \<le> n \<Longrightarrow>
   var_u64_loop data [i..<n] res = Inl (Ok (res OR push_bit (i * 7) v, rest))"
proof (induction v arbitrary: i res rule: encode_var_u64.induct)
  case (1 v)
  have i: "i < length data" using 1(2) by (metis append_is_Nil_conv drop_all encode_var_u64.simps list.distinct(1) not_less)
  have n: "i < n" using 1(3) by (cases "v < 0x80") (auto simp: encode_var_u64_less encode_var_u64_ge)
  have upt: "[i..<n] = i # [Suc i..<n]" using n by (simp add: upt_conv_Cons)
  have b: "data ! i = hd (encode_var_u64 v)"
    using 1(2) i by (metis append_is_Nil_conv drop_eq_Nil hd_append2 hd_drop_conv_nth linorder_not_le encode_var_u64.simps list.distinct(1))
  have rest: "drop (Suc i) data = tl (encode_var_u64 v) @ rest"
    using 1(2) by (metis drop_Suc tl_append2 tl_drop encode_var_u64.simps list.distinct(1))
  show ?case
  proof (cases "v < 0x80")
    case True
    then show ?thesis
      using i b rest var_last_byte_less [OF True] var_last_byte [OF True]
      by (simp add: upt encode_var_u64_less Let_def del: push_bit_and)
  next
    case False
    then have ge: "v \<ge> 0x80" by simp
    have "var_u64_loop data [Suc i..<n] (res OR push_bit (i * 7) (take_bit 7 v)) =
      Inl (Ok ((res OR push_bit (i * 7) (take_bit 7 v)) OR push_bit (Suc i * 7) (drop_bit 7 v), rest))"
      using 1(3) rest ge by (intro 1(1)) (auto simp: encode_var_u64_ge)
    also have "(res OR push_bit (i * 7) (take_bit 7 v)) OR push_bit (Suc i * 7) (drop_bit 7 v) = res OR push_bit (i * 7) v"
      using var_join [of "i * 7" v] by (simp add: or.assoc add.commute)
    finally show ?thesis
      using i b var_first_byte [of v] var_first_byte_mask [of v] ge
      by (simp add: upt Let_def encode_var_u64_ge del: push_bit_and)
  qed
qed


lemma encode_var_u64_not_Nil [simp]: "encode_var_u64 v \<noteq> []"
  by (subst encode_var_u64.simps) simp

lemma var_take_join:
  "take_bit 7 v OR push_bit 7 (take_bit m (drop_bit 7 v)) = take_bit (7 + m) (v::u64)"
proof (rule bit_word_eqI)
  fix n show "bit (take_bit 7 v OR push_bit 7 (take_bit m (drop_bit 7 v))) n = bit (take_bit (7 + m) v) n"
    if "n < LENGTH(64)"
    using that by (cases "n < 7") (auto simp: bit_simps)
qed

lemma var_u64_loop_long:
  "drop i data = encode_var_u64 v @ rest \<Longrightarrow> k < length (encode_var_u64 v) \<Longrightarrow>
   var_u64_loop data [i..<i + k] res = Inr (res OR push_bit (i * 7) (take_bit (7 * k) v)) \<and>
   drop (i + k) data = encode_var_u64 (drop_bit (7 * k) v) @ rest \<and>
   length (encode_var_u64 (drop_bit (7 * k) v)) + k = length (encode_var_u64 v)"
proof (induction k arbitrary: i v res)
  case 0
  then show ?case by simp
next
  case (Suc k)
  have ge: "v \<ge> 0x80" using Suc.prems(2) by (cases "v < 0x80") (auto simp: encode_var_u64_less)
  have i: "i < length data" using Suc.prems(1) by (cases "i < length data") auto
  have b: "data ! i = ucast v OR 0x80"
    using Suc.prems(1) i ge by (metis Cons_eq_appendI Cons_nth_drop_Suc encode_var_u64_ge list.inject)
  have rest: "drop (Suc i) data = encode_var_u64 (drop_bit 7 v) @ rest"
    using Suc.prems(1) i ge by (metis Cons_eq_appendI Cons_nth_drop_Suc encode_var_u64_ge list.inject)
  have k: "k < length (encode_var_u64 (drop_bit 7 v))"
    using Suc.prems(2) ge by (simp add: encode_var_u64_ge)
  let ?res = "res OR push_bit (i * 7) (take_bit 7 v)"
  have upt: "[i..<i + Suc k] = i # [Suc i..<Suc i + k]" by (simp add: upt_conv_Cons)
  have join: "?res OR push_bit (Suc i * 7) (take_bit (7 * k) (drop_bit 7 v)) =
     res OR push_bit (i * 7) (take_bit (7 * Suc k) v)"
    using arg_cong [OF var_take_join [of v "7 * k"], of "push_bit (i * 7)"]
    by (simp add: or.assoc add.commute)
  have "var_u64_loop data [i..<i + Suc k] res = var_u64_loop data [Suc i..<Suc i + k] ?res"
    using i b var_first_byte [of v] var_first_byte_mask [of v]
    unfolding upt by (simp add: Let_def del: push_bit_and upt_Suc)
  with Suc.IH [OF rest k, of ?res] join ge show ?case
    by (simp add: encode_var_u64_ge add.commute)
qed

lemma var_top_byte: "drop_bit 63 (v::u64) \<le> 1"
  by (simp add: word_le_nat_alt drop_bit_eq_div unat_div)
    (use unsigned_less [of v, where ?'a = nat] in simp)

lemma var_u64_split: "take_bit 63 v OR push_bit 63 (drop_bit 63 v) = (v::u64)"
proof (rule bit_word_eqI)
  fix n show "bit (take_bit 63 v OR push_bit 63 (drop_bit 63 v)) n = bit v n" if "n < LENGTH(64)"
    using that by (cases "n = 63") (auto simp: bit_simps)
qed

lemma var_u64_loop_never_ends:
  "var_u64_loop data is res = Inr r \<Longrightarrow> i \<in> set is \<Longrightarrow> i < length data \<and> data ! i \<ge> 0x80"
  by (induction data "is" res rule: var_u64_loop.induct) (auto simp: Let_def split: if_splits)

lemma var_u64_loop_panic:
  "var_u64_loop data [i..<i + k] res = Inl Panic \<Longrightarrow>
   length data < i + k \<and> (\<forall>j. i \<le> j \<and> j < length data \<longrightarrow> data ! j \<ge> 0x80)"
proof (induction k arbitrary: i res)
  case (Suc k)
  have upt: "[i..<i + Suc k] = i # [Suc i..<Suc i + k]" by (simp add: upt_conv_Cons)
  show ?case
  proof (cases "i < length data")
    case True
    with Suc.prems have "\<not> data ! i < 0x80"
      and "var_u64_loop data [Suc i..<Suc i + k] (res OR push_bit (i * 7) (ucast (data ! i) AND 0x7f)) = Inl Panic"
      unfolding upt by (auto simp: Let_def simp del: upt_Suc push_bit_and split: if_splits)
    with Suc.IH [OF this(2)] show ?thesis by (metis add_Suc_shift le_eq_less_or_eq less_eq_Suc_le linorder_not_le)
  next
    case False
    then show ?thesis by auto
  qed
qed simp


lemma decode_encode_var_u64: "decode_var_u64 (encode_var_u64 v @ rest) = Ok (v, rest)"
proof -
  let ?e = "encode_var_u64 v" and ?d = "encode_var_u64 v @ rest"
  have len: "length ?e \<le> 10"
    using length_encode_var_u64_le [of v] by (simp add: MAX_VAR_U64_LEN_def)
  have all: "var_u64_loop ?d [0..<length ?d] 0 = Inl (Ok (v, rest))"
    using var_u64_loop_encoded [of 0 ?d v rest "length ?d" 0] by simp
  consider (small) "v < 0x80" | (mid) "v \<ge> 0x80" "length ?e \<le> 9" | (big) "v \<ge> 0x80" "length ?e = 10"
    using len by force
  then show ?thesis
  proof cases
    case small
    then show ?thesis
      using var_last_byte [OF small] var_last_byte_less [OF small]
      by (simp add: decode_var_u64_def encode_var_u64_less)
  next
    case mid
    have "\<not> ?d ! 0 < 0x80"
      using var_first_byte [of v] mid(1) by (simp add: encode_var_u64_ge)
    moreover have "var_u64_loop ?d [0..<9] 0 = Inl (Ok (v, rest))"
      using var_u64_loop_encoded [of 0 ?d v rest 9 0] mid(2) by simp
    ultimately show ?thesis
      using all by (simp add: decode_var_u64_def Let_def)
  next
    case big
    have "\<not> ?d ! 0 < 0x80"
      using var_first_byte [of v] big(1) by (simp add: encode_var_u64_ge)
    moreover have "var_u64_loop ?d [0..<9] 0 = Inr (take_bit 63 v)"
      and d9: "drop 9 ?d = encode_var_u64 (drop_bit 63 v) @ rest"
      using var_u64_loop_long [of 0 ?d v rest 9 0] big(2) by simp_all
    moreover have top: "drop_bit 63 v < 0x80"
      using var_top_byte [of v] by (rule le_less_trans) simp
    moreover have "?d ! 9 = ucast (drop_bit 63 v)" and "drop 10 ?d = rest"
      using d9 big(2) encode_var_u64_less [OF top] Cons_nth_drop_Suc [of 9 ?d] by simp_all
    moreover have "(ucast (drop_bit 63 v) :: u8) \<le> 1"
      using var_top_byte [of v] by (simp add: word_le_nat_alt unsigned_ucast_eq take_bit_nat_eq_self)
    ultimately show ?thesis
      using big(2) var_u64_split [of v] var_last_byte [OF top]
      by (simp add: decode_var_u64_def Let_def del: push_bit_and)
  qed
qed

lemma decode_var_u64_safe: "decode_var_u64 data \<noteq> Panic"
proof
  assume panic: "decode_var_u64 data = Panic"
  have all: "var_u64_loop data [0..<length data] 0 \<noteq> Inl Panic"
    using var_u64_loop_panic [of data 0 "length data" 0] by auto
  have nine: "data = [] \<or> var_u64_loop data [0..<9] 0 \<noteq> Inl Panic" if "length data \<ge> 10 \<or> last data < 0x80"
    using var_u64_loop_panic [of data 0 9 0] that
    by (cases data rule: rev_cases) (auto simp: nth_append not_less dest!: spec [of _ "length data - 1"])
  have ten: "9 < length data" if "var_u64_loop data [0..<9] 0 = Inr r" "length data \<ge> 10 \<or> last data < 0x80" "data \<noteq> []" for r
  proof (rule ccontr)
    assume "\<not> 9 < length data"
    then have "length data - 1 \<in> set [0..<9]"
      using that(3) by (cases data) auto
    then show False
      using var_u64_loop_never_ends [OF that(1), of "length data - 1"] that(2,3) \<open>\<not> 9 < length data\<close>
      by (auto simp: last_conv_nth not_less)
  qed
  show False
    using panic all nine ten
    by (auto simp: decode_var_u64_def Let_def simp del: push_bit_and split: sum.splits if_splits)
qed

lemma zigzag_pos: "\<not> v <s 0 \<Longrightarrow> push_bit 1 v AND 1 = 0 \<and> drop_bit 1 (push_bit 1 v) = (v::i64)"
  unfolding sless_zero_bit
proof (intro conjI bit_word_eqI)
  fix n assume "\<not> bit v 63" "n < LENGTH(64)"
  show "bit (push_bit 1 v AND 1) n = bit 0 n"
    by (auto simp only: bit_and_iff bit_push_bit_iff bit_1_iff) auto
  show "bit (drop_bit 1 (push_bit 1 v)) n = bit v n"
    using \<open>\<not> bit v 63\<close> \<open>n < LENGTH(64)\<close> by (cases "n = 63") (auto simp: bit_simps simp del: One_nat_def push_bit_Suc)
qed

lemma zigzag_neg: "v <s 0 \<Longrightarrow> NOT (push_bit 1 v) AND 1 \<noteq> 0 \<and> NOT (drop_bit 1 (NOT (push_bit 1 v))) = (v::i64)"
  unfolding sless_zero_bit
proof (intro conjI bit_word_eqI)
  have "bit (NOT (push_bit 1 v) AND 1) 0"
    by (auto simp only: bit_and_iff bit_not_iff bit_push_bit_iff bit_1_iff) auto
  then show "NOT (push_bit 1 v) AND 1 \<noteq> 0" by auto
  fix n assume "bit v 63" "n < LENGTH(64)"
  then show "bit (NOT (drop_bit 1 (NOT (push_bit 1 v)))) n = bit v n"
    by (cases "n = 63") (auto simp: bit_simps simp del: One_nat_def push_bit_Suc)
qed

lemma decode_encode_var_i64: "decode_var_i64 (encode_var_i64 v @ rest) = Ok (v, rest)"
  using zigzag_pos [of v] zigzag_neg [of v]
  by (simp add: decode_var_i64_def encode_var_i64_def Let_def decode_encode_var_u64 result_simps)

text \<open>
  The two paths of the decoder collapse: at least ten bytes, or a scan to the end of the slice.
\<close>

lemma var_u64_loop_append:
  "var_u64_loop data (is @ js) res =
     (case var_u64_loop data is res of Inl r \<Rightarrow> Inl r | Inr res' \<Rightarrow> var_u64_loop data js res')"
  by (induction data "is" res rule: var_u64_loop.induct) (auto simp: Let_def)

lemma var_u64_loop_short:
  "data \<noteq> [] \<Longrightarrow> data ! 0 < 0x80 \<Longrightarrow> 0 < n \<Longrightarrow>
   var_u64_loop data [0..<n] 0 = Inl (Ok (ucast (data ! 0) AND 0x7f, drop 1 data))"
  by (simp add: upt_conv_Cons Let_def del: push_bit_and)

lemma var_u64_loop_ended:
  assumes "data \<noteq> []" "last data < 0x80" "length data \<le> n"
  shows "var_u64_loop data [0..<n] 0 = var_u64_loop data [0..<length data] 0"
proof -
  have "[0..<n] = [0..<length data] @ [length data..<n]"
    using assms(3) by (metis le_add_diff_inverse upt_add_eq_append zero_le)
  moreover have "var_u64_loop data [0..<length data] 0 \<noteq> Inr r" for r
    using var_u64_loop_never_ends [of data "[0..<length data]" 0 r "length data - 1"] assms(1,2)
    by (auto simp: last_conv_nth)
  ultimately show ?thesis
    by (simp add: var_u64_loop_append split: sum.split)
qed

lemma decode_var_u64_alt:
  "decode_var_u64 data =
     (if length data \<ge> 10 then
        case var_u64_loop data [0..<9] 0 of
          Inl r \<Rightarrow> r
        | Inr res \<Rightarrow> if data ! 9 \<le> 1 then Ok (res OR push_bit 63 (ucast (data ! 9) AND 0x7f), drop 10 data)
                   else Err (CodecIo InvalidData)
      else case var_u64_loop data [0..<length data] 0 of Inl r \<Rightarrow> r | Inr _ \<Rightarrow> Err unexpected_eof)"
proof (cases "data \<noteq> [] \<and> data ! 0 < 0x80")
  case True
  then show ?thesis
    using var_u64_loop_short [of data 9] var_u64_loop_short [of data "length data"]
    by (simp add: decode_var_u64_def Let_def)
next
  case False
  show ?thesis
  proof (cases "data = [] \<or> length data \<ge> 10 \<or> \<not> last data < 0x80")
    case True
    with False show ?thesis by (auto simp: decode_var_u64_def Let_def simp del: push_bit_and split: sum.split)
  next
    case short: False
    then have "var_u64_loop data [0..<9] 0 = var_u64_loop data [0..<length data] 0"
      and "var_u64_loop data [0..<length data] 0 \<noteq> Inr r" for r
      using var_u64_loop_ended [of data 9]
        var_u64_loop_never_ends [of data "[0..<length data]" 0 r "length data - 1"]
      by (auto simp: last_conv_nth)
    with False short show ?thesis
      by (auto simp: decode_var_u64_def Let_def simp del: push_bit_and split: sum.split)
  qed
qed

lemma length_encode_var_i64_le: "length (encode_var_i64 v) \<le> MAX_VAR_I64_LEN"
  using length_encode_var_u64_le
  by (simp add: encode_var_i64_def Let_def MAX_VAR_I64_LEN_def MAX_VAR_U64_LEN_def)

lemma var_u64_loop_rest:
  "var_u64_loop data is res = Inl (Ok (v, rest)) \<Longrightarrow>
   \<exists>i \<in> set is. i < length data \<and> rest = drop (Suc i) data"
  by (induction data "is" res rule: var_u64_loop.induct) (auto simp: Let_def split: if_splits)

lemma decode_var_u64_rest:
  assumes "decode_var_u64 data = Ok (v, rest)"
  shows "\<exists>n. 1 \<le> n \<and> n \<le> MAX_VAR_U64_LEN \<and> n \<le> length data \<and> rest = drop n data"
proof -
  consider (whole) "length data \<ge> 10" "rest = drop 10 data"
    | (part) m where "m \<le> 9" "var_u64_loop data [0..<m] 0 = Inl (Ok (v, rest))"
    using assms that(2) [of "length data"] that(2) [of 9]
    by (cases "length data \<ge> 10")
      (auto simp: decode_var_u64_alt split: if_splits sum.splits)
  then show ?thesis
  proof cases
    case whole
    then show ?thesis by (auto simp: MAX_VAR_U64_LEN_def)
  next
    case (part m)
    then obtain i where "i < m" "i < length data" "rest = drop (Suc i) data"
      using var_u64_loop_rest by fastforce
    then show ?thesis
      using part(1) by (intro exI [of _ "Suc i"]) (auto simp: MAX_VAR_U64_LEN_def)
  qed
qed

subsection \<open>The number encodings meet the contract\<close>

interpretation u64_codec: ordered_codec encode_u64 decode_u64 "(<)"
  by unfold_locales (simp_all add: decode_encode_u64 encode_u64_less_iff)

interpretation u64_desc_codec: ordered_codec encode_u64_desc decode_u64_desc "(>)"
  by unfold_locales (simp_all add: decode_encode_u64_desc encode_u64_desc_less_iff)

interpretation i64_codec: ordered_codec encode_i64 decode_i64 "(<s)"
  by unfold_locales (simp_all add: decode_encode_i64 encode_i64_less_iff)

interpretation i64_desc_codec: ordered_codec encode_i64_desc decode_i64_desc "\<lambda>v w. w <s v"
  by unfold_locales (simp_all add: decode_encode_i64_desc encode_i64_desc_less_iff)

interpretation f64_codec: ordered_codec encode_f64 decode_f64 f64_less
  by unfold_locales (simp_all add: decode_encode_f64 encode_f64_less_iff)

interpretation u32_codec: codec encode_u32 decode_u32
  by unfold_locales (rule decode_encode_u32)

interpretation u16_codec: codec encode_u16 decode_u16
  by unfold_locales (rule decode_encode_u16)

interpretation var_u64_codec: codec encode_var_u64 decode_var_u64
  by unfold_locales (rule decode_encode_var_u64)

interpretation var_i64_codec: codec encode_var_i64 decode_var_i64
  by unfold_locales (rule decode_encode_var_i64)

subsection \<open>Properties\<close>

text \<open>
  C28: variable-length integers round trip. Decoding what \<^verbatim>\<open>encode_var_u64\<close> wrote, whatever
  follows it, gives the value and the bytes that follow, and the same for the zig-zag
  \<^verbatim>\<open>encode_var_i64\<close>; an encoding has at most \<^verbatim>\<open>MAX_VAR_U64_LEN\<close> bytes.
\<close>

theorem var_int_roundtrip:
  "decode_var_u64 (encode_var_u64 v @ rest) = Ok (v, rest) \<and>
   decode_var_i64 (encode_var_i64 i @ rest) = Ok (i, rest) \<and>
   length (encode_var_u64 v) \<le> MAX_VAR_U64_LEN \<and> length (encode_var_i64 i) \<le> MAX_VAR_I64_LEN"
  using decode_encode_var_u64 decode_encode_var_i64 length_encode_var_u64_le
    length_encode_var_i64_le by blast

text \<open>
  C29: the unchecked reads of \<^verbatim>\<open>decode_var_u64\<close> stay inside the slice. On every input the
  decoder returns an error, or a value and the slice advanced by one to ten of its bytes.
\<close>

theorem decode_var_u64_memory_safe:
  "case decode_var_u64 data of
     Ok (v, rest) \<Rightarrow> \<exists>n. 1 \<le> n \<and> n \<le> MAX_VAR_U64_LEN \<and> n \<le> length data \<and> rest = drop n data
   | Err e \<Rightarrow> True
   | Panic \<Rightarrow> False"
  using decode_var_u64_safe [of data] decode_var_u64_rest [of data]
  by (auto split: result.split)

end
