(* ===== verification/Codec_Crate.thy ===== *)
theory Codec_Crate
  imports Codec_Number
begin

text \<open>
  The variable-length integers of the \<^verbatim>\<open>codec\<close> crate
  (\<^verbatim>\<open>components/codec/src/number.rs\<close>), a second implementation of the format of
  \<^verbatim>\<open>tikv_util\<close> that writes into a caller's buffer and reads through raw pointers. A read or
  write outside the buffer is \<open>Panic\<close>. The write record decodes its timestamps with this crate
  and encodes them with \<^verbatim>\<open>tikv_util\<close>, so the agreement of the two is part of the record's
  round trip.
\<close>

subsection \<open>Definitions\<close>

definition MAX_VARINT64_LENGTH :: nat where "MAX_VARINT64_LENGTH = 10"

text \<open>The bytes that the loop of \<^verbatim>\<open>encode_var_u64\<close> stores.\<close>

function nc_var_u64_bytes :: "u64 \<Rightarrow> bytes" where
  "nc_var_u64_bytes v =
     (if v \<ge> 0x80 then (0x80 OR ucast (v AND 0x7f)) # nc_var_u64_bytes (drop_bit 7 v)
      else [ucast v])"
  by pat_completeness auto

termination
proof (relation "measure unat", goal_cases)
  case (2 v)
  then have "0 < unat v" by (simp add: word_le_nat_alt)
  then show ?case by (simp add: drop_bit_eq_div unat_div)
qed simp

declare nc_var_u64_bytes.simps [simp del]

text \<open>The buffer after the call and the number of bytes written.\<close>

definition nc_encode_var_u64 :: "bytes \<Rightarrow> u64 \<Rightarrow> (bytes \<times> nat, codec_error) result" where
  "nc_encode_var_u64 buf v =
     assert_then (length buf \<ge> MAX_VARINT64_LENGTH)
       (let out = nc_var_u64_bytes v in
        if length out \<le> length buf then Ok (out @ drop (length out) buf, length out) else Panic)"

definition nc_encode_var_i64 :: "bytes \<Rightarrow> i64 \<Rightarrow> (bytes \<times> nat, codec_error) result" where
  "nc_encode_var_i64 buf v =
     (let uv = push_bit 1 v;
          uv = (if v <s 0 then NOT uv else uv)
      in nc_encode_var_u64 buf uv)"

text \<open>
  The unrolled loop of the fast path over \<open>i = 1..=9\<close>, with \<open>ptr\<close> as the index \<open>i - 1\<close>:
  \<open>Inl\<close> is a return, \<open>Inr\<close> the value and the shift at the end of the loop.
\<close>

fun nc_fast_path :: "bytes \<Rightarrow> nat list \<Rightarrow> u64 \<Rightarrow> nat \<Rightarrow> (u64 \<times> nat, codec_error) result + u64 \<times> nat" where
  "nc_fast_path buf [] val shift = Inr (val, shift)"
| "nc_fast_path buf (i # is) val shift =
     (if i - 1 < length buf then
        let b = ucast (buf ! (i - 1)) :: u64;
            val' = val OR push_bit shift (b AND 0x7f)
        in if b < 0x80 then Inl (Ok (val', i)) else nc_fast_path buf is val' (shift + 7)
      else Inl Panic)"

text \<open>
  The loop of the slow path: \<open>rest\<close> is the buffer from \<open>ptr\<close> to \<open>ptr_end\<close> and \<open>n\<close> the
  offset of \<open>ptr\<close>.
\<close>

fun nc_slow_path :: "bytes \<Rightarrow> nat \<Rightarrow> u64 \<Rightarrow> nat \<Rightarrow> (u64 \<times> nat, codec_error) result" where
  "nc_slow_path [] n val shift = Err unexpected_eof"
| "nc_slow_path (b # rest) n val shift =
     (if b \<ge> 0x80 then
        nc_slow_path rest (n + 1) (val OR push_bit shift (ucast (b AND 0x7f))) (shift + 7)
      else Ok (val OR push_bit shift (ucast b), n + 1))"

definition nc_try_decode_var_u64 :: "bytes \<Rightarrow> (u64 \<times> nat, codec_error) result" where
  "nc_try_decode_var_u64 buf =
     (if length buf \<ge> MAX_VARINT64_LENGTH then
        case nc_fast_path buf [1..<10] 0 0 of
          Inl r \<Rightarrow> r
        | Inr (val, shift) \<Rightarrow>
            if 9 < length buf then Ok (val OR push_bit shift (ucast (buf ! 9) AND 0x01), 10)
            else Panic
      else nc_slow_path buf 0 0 0)"

definition nc_try_decode_var_i64 :: "bytes \<Rightarrow> (i64 \<times> nat, codec_error) result" where
  "nc_try_decode_var_i64 buf =
     and_then (nc_try_decode_var_u64 buf) (\<lambda>(uv, decoded_bytes).
       let v = drop_bit 1 uv in
       if uv AND 1 = 0 then Ok (v, decoded_bytes) else Ok (NOT v, decoded_bytes))"

text \<open>
  The reader's methods on a slice: \<^verbatim>\<open>advance\<close> of \<^verbatim>\<open>components/codec/src/buffer.rs\<close>
  drops the bytes read.
\<close>

definition nc_read_u8 :: "bytes \<Rightarrow> (u8 \<times> bytes, codec_error) result" where
  "nc_read_u8 data =
     (if length data < 1 then Err unexpected_eof else Ok (data ! 0, drop 1 data))"

definition nc_read_var_u64 :: "bytes \<Rightarrow> (u64 \<times> bytes, codec_error) result" where
  "nc_read_var_u64 data =
     and_then (nc_try_decode_var_u64 data) (\<lambda>(v, decoded_bytes).
       Ok (v, drop decoded_bytes data))"

definition nc_read_var_i64 :: "bytes \<Rightarrow> (i64 \<times> bytes, codec_error) result" where
  "nc_read_var_i64 data =
     and_then (nc_try_decode_var_i64 data) (\<lambda>(v, decoded_bytes).
       Ok (v, drop decoded_bytes data))"

subsection \<open>The two implementations agree\<close>

lemma nc_var_byte: "(0x80 OR ucast (v AND 0x7f :: u64) :: u8) = ucast v OR 0x80"
proof (rule bit_word_eqI)
  fix n assume "n < LENGTH(8)"
  then show "bit (0x80 OR ucast (v AND 0x7f) :: u8) n = bit (ucast v OR 0x80 :: u8) n"
    using bit_128 [of n, where ?'a = 8] unfolding mask7 by (auto simp: bit_simps)
qed

lemma nc_var_u64_bytes_eq: "nc_var_u64_bytes v = encode_var_u64 v"
  by (induction v rule: nc_var_u64_bytes.induct)
    (simp add: nc_var_u64_bytes.simps encode_var_u64.simps nc_var_byte)

lemma nc_byte_less: "(ucast (b::u8) :: u64) < 0x80 \<longleftrightarrow> b < 0x80"
  using unsigned_less [of b, where ?'a = nat]
  by (simp add: word_less_nat_alt unsigned_ucast_eq take_bit_nat_eq_self)
lemma nc_byte_mask: "(ucast (b AND 0x7f :: u8) :: u64) = ucast b AND 0x7f"
  by (simp add: unsigned_and_eq)
lemma nc_byte_small: "b < 0x80 \<Longrightarrow> (ucast (b :: u8) :: u64) AND 0x7f = ucast b"
  using unsigned_less [of b, where ?'a = nat] unfolding mask7
  by (simp add: word_less_nat_alt word_unat_eq_iff take_bit_eq_mask [symmetric] unsigned_ucast_eq
      unsigned_take_bit_eq take_bit_nat_eq_self)

lemma nc_fast_path_loop:
  "map_sum (map_ok (\<lambda>(v, m). (v, drop m buf))) fst (nc_fast_path buf [i + 1..<i + k + 1] val (i * 7)) =
     var_u64_loop buf [i..<i + k] val"
proof (induction k arbitrary: i val)
  case 0
  then show ?case by simp
next
  case (Suc k)
  have "[i + 1..<i + Suc k + 1] = (i + 1) # [Suc i + 1..<Suc i + k + 1]" "[i..<i + Suc k] = i # [Suc i..<Suc i + k]"
    by (simp_all add: upt_conv_Cons)
  then show ?case
    using Suc.IH [of "Suc i"] by (simp add: Let_def nc_byte_less add.commute del: push_bit_and upt_Suc)
qed

lemma nc_fast_path_shift:
  "nc_fast_path buf is val sh = Inr (v, sh') \<Longrightarrow> sh' = sh + 7 * length is"
  by (induction buf "is" val sh arbitrary: rule: nc_fast_path.induct) (auto simp: Let_def split: if_splits)

lemma nc_slow_path_loop:
  "n \<le> length buf \<Longrightarrow>
   map_ok (\<lambda>(v, m). (v, drop m buf)) (nc_slow_path (drop n buf) n val (n * 7)) =
     (case var_u64_loop buf [n..<length buf] val of Inl r \<Rightarrow> r | Inr _ \<Rightarrow> Err unexpected_eof)"
proof (induction "length buf - n" arbitrary: n val)
  case 0
  then show ?case by simp
next
  case (Suc k)
  then have n: "n < length buf" by simp
  then have "drop n buf = buf ! n # drop (Suc n) buf" "[n..<length buf] = n # [Suc n..<length buf]"
    by (simp_all add: Cons_nth_drop_Suc upt_conv_Cons)
  then show ?case
    using Suc.hyps(1) [of "Suc n"] Suc.hyps(2) n nc_byte_small [of "buf ! n"]
    by (auto simp: Let_def nc_byte_mask add.commute simp del: push_bit_and)
qed

lemma var_u64_loop_not_Err: "var_u64_loop data is res \<noteq> Inl (Err e)"
  by (induction data "is" res rule: var_u64_loop.induct) (auto simp: Let_def)

lemma nc_read_var_u64_alt:
  "nc_read_var_u64 data = map_ok (\<lambda>(v, m). (v, drop m data)) (nc_try_decode_var_u64 data)"
  by (cases "nc_try_decode_var_u64 data") (auto simp: nc_read_var_u64_def)

lemma word_le_1: "b \<le> 1 \<longleftrightarrow> b = 0 \<or> b = (1 :: u8)"
  by (simp add: word_le_nat_alt word_unat_eq_iff) arith

lemma nc_read_var_u64_agrees:
  "nc_read_var_u64 data =
     (if decode_var_u64 data = Err (CodecIo InvalidData) then
        map_ok (\<lambda>v. (v OR push_bit 63 (ucast (data ! 9) AND 0x01), drop 10 data))
          (case var_u64_loop data [0..<9] 0 of Inl _ \<Rightarrow> Panic | Inr v \<Rightarrow> Ok v)
      else decode_var_u64 data)"
proof (cases "length data \<ge> 10")
  case True
  have fast: "map_sum (map_ok (\<lambda>(v, m). (v, drop m data))) fst (nc_fast_path data [1..<10] 0 0) =
      var_u64_loop data [0..<9] 0"
    using nc_fast_path_loop [of data 0 9 0] by simp
  show ?thesis
  proof (cases "nc_fast_path data [1..<10] 0 0")
    case (Inl r)
    then have "var_u64_loop data [0..<9] 0 = Inl (map_ok (\<lambda>(v, m). (v, drop m data)) r)"
      using fast by simp
    then show ?thesis
      using True Inl var_u64_loop_not_Err [of data "[0..<9]" 0]
      by (auto simp: nc_read_var_u64_alt nc_try_decode_var_u64_def decode_var_u64_alt MAX_VARINT64_LENGTH_def)
  next
    case (Inr p)
    then obtain v where p: "p = (v, 63)"
      using nc_fast_path_shift [of data "[1..<10]" 0 0] by (cases p) simp
    then have "var_u64_loop data [0..<9] 0 = Inr v"
      using fast Inr by simp
    then show ?thesis
      using True Inr p
      by (auto simp: nc_read_var_u64_alt nc_try_decode_var_u64_def decode_var_u64_alt MAX_VARINT64_LENGTH_def word_le_1)
  qed
next
  case False
  then show ?thesis
    using nc_slow_path_loop [of 0 data 0] var_u64_loop_not_Err [of data "[0..<length data]" 0]
    by (auto simp: nc_read_var_u64_alt nc_try_decode_var_u64_def decode_var_u64_alt MAX_VARINT64_LENGTH_def
        unexpected_eof_def split: sum.split)
qed

subsection \<open>Properties\<close>

text \<open>
  The encoder of the \<^verbatim>\<open>codec\<close> crate writes the bytes of the \<^verbatim>\<open>tikv_util\<close> encoder at
  the front of the buffer and keeps the rest of it; it panics exactly when the buffer has fewer
  than ten bytes, and never writes past the buffer.
\<close>

theorem nc_encode_var_u64_agrees:
  "nc_encode_var_u64 buf v =
     (if length buf < 10 then Panic
      else Ok (encode_var_u64 v @ drop (length (encode_var_u64 v)) buf, length (encode_var_u64 v)))"
  using length_encode_var_u64_le [of v]
  by (simp add: nc_encode_var_u64_def nc_var_u64_bytes_eq MAX_VARINT64_LENGTH_def
      MAX_VAR_U64_LEN_def assert_then_def Let_def)

text \<open>
  C30: the raw-pointer decoder of the \<^verbatim>\<open>codec\<close> crate agrees with \<^verbatim>\<open>decode_var_u64\<close> of
  \<^verbatim>\<open>tikv_util\<close> on every input, errors included, with one exception: a number whose tenth byte
  exceeds 1, which \<^verbatim>\<open>tikv_util\<close> rejects as an overflow and the \<^verbatim>\<open>codec\<close> crate truncates.
\<close>

theorem var_u64_decoders_agree:
  "nc_read_var_u64 data = decode_var_u64 data \<or>
   (decode_var_u64 data = Err (CodecIo InvalidData) \<and> length data \<ge> 10 \<and> data ! 9 > 1 \<and>
    (\<exists>v. nc_read_var_u64 data = Ok (v, drop 10 data)))"
proof (cases "decode_var_u64 data = Err (CodecIo InvalidData)")
  case True
  then obtain r where "length data \<ge> 10" "var_u64_loop data [0..<9] 0 = Inr r" "\<not> data ! 9 \<le> 1"
    using var_u64_loop_not_Err
    by (auto simp: decode_var_u64_alt unexpected_eof_def split: if_splits sum.splits)
  with True show ?thesis by (simp add: nc_read_var_u64_agrees)
qed (simp add: nc_read_var_u64_agrees)

end
