(* ===== verification/Codec_Bytes.thy ===== *)
theory Codec_Bytes
  imports Codec_Number
begin

text \<open>
  The byte-string codec of \<^verbatim>\<open>components/tikv_util/src/codec/bytes.rs\<close> and the helpers of
  \<^verbatim>\<open>codec/mod.rs\<close>. The memory-comparable encoding cuts a key into groups of eight bytes, each
  followed by a marker that counts its padding; it is what makes the engine's byte order the order
  of the user keys. Loops keep the offsets of the code; the in-place decoder is modelled with its
  overlapping moves on the buffer it mutates.
\<close>

subsection \<open>Definitions\<close>

definition ENC_GROUP_SIZE :: nat where "ENC_GROUP_SIZE = 8"
definition ENC_MARKER :: u8 where "ENC_MARKER = 0xff"
definition ENC_ASC_PADDING :: bytes where "ENC_ASC_PADDING = replicate ENC_GROUP_SIZE 0"
definition ENC_DESC_PADDING :: bytes where "ENC_DESC_PADDING = replicate ENC_GROUP_SIZE (NOT 0)"

definition max_encoded_bytes_size :: "nat \<Rightarrow> nat" where
  "max_encoded_bytes_size n = (n div ENC_GROUP_SIZE + 1) * (ENC_GROUP_SIZE + 1)"

definition adjust_bytes_order :: "bytes \<Rightarrow> bool \<Rightarrow> bytes" where
  "adjust_bytes_order bs desc = (if desc then map (\<lambda>b. NOT b) bs else bs)"

text \<open>The loop of the \<^verbatim>\<open>BytesEncoder::encode_bytes\<close> method from \<open>index\<close> on.\<close>

function encode_bytes_loop :: "bytes \<Rightarrow> bool \<Rightarrow> nat \<Rightarrow> bytes" where
  "encode_bytes_loop key desc index =
     (if index \<le> length key then
        let remain = length key - index;
            pad = (if remain > ENC_GROUP_SIZE then 0 else ENC_GROUP_SIZE - remain);
            group =
              (if remain > ENC_GROUP_SIZE then
                 adjust_bytes_order (take ENC_GROUP_SIZE (drop index key)) desc
               else
                 adjust_bytes_order (drop index key) desc @
                 (if desc then take pad ENC_DESC_PADDING else take pad ENC_ASC_PADDING))
        in group @ adjust_bytes_order [ENC_MARKER - of_nat pad] desc @
           encode_bytes_loop key desc (index + ENC_GROUP_SIZE)
      else [])"
  by pat_completeness auto

termination
  by (relation "measure (\<lambda>(key, desc, index). Suc (length key) - index)")
    (auto simp: ENC_GROUP_SIZE_def)

declare encode_bytes_loop.simps [simp del]

definition encode_order_bytes :: "bytes \<Rightarrow> bool \<Rightarrow> bytes" where
  "encode_order_bytes bs desc = encode_bytes_loop bs desc 0"

definition encode_bytes :: "bytes \<Rightarrow> bytes" where
  "encode_bytes bs = encode_order_bytes bs False"

definition encode_bytes_desc :: "bytes \<Rightarrow> bytes" where
  "encode_bytes_desc bs = encode_order_bytes bs True"

definition encode_compact_bytes :: "bytes \<Rightarrow> bytes" where
  "encode_compact_bytes data = encode_var_i64 (of_nat (length data)) @ data"

text \<open>The sum wraps at 64 bits, as \<^verbatim>\<open>usize\<close> does.\<close>

definition encoded_compact_len :: "bytes \<Rightarrow> u64" where
  "encoded_compact_len encoded =
     (case decode_var_i64 encoded of
        Ok (vn, rest) \<Rightarrow> vn + of_nat (length encoded - length rest)
      | Err e \<Rightarrow> of_nat (length encoded)
      | Panic \<Rightarrow> 0)"

text \<open>
  \<^verbatim>\<open>CompactBytesFromFileDecoder\<close> reads byte by byte; \<open>var_data\<close> is what it has pushed so far.
  Allocating a vector of a negative length, a \<^verbatim>\<open>usize\<close> above \<^verbatim>\<open>isize::MAX\<close>, panics.
\<close>

fun read_var_prefix :: "bytes \<Rightarrow> bytes \<Rightarrow> (bytes \<times> bytes, codec_error) result" where
  "read_var_prefix file var_data =
     (if length var_data < MAX_VAR_U64_LEN then
        (case file of
           [] \<Rightarrow> Err unexpected_eof
         | b # rest \<Rightarrow>
             if b < 0x80 then Ok (var_data @ [b], rest) else read_var_prefix rest (var_data @ [b]))
      else Ok (var_data, file))"

declare read_var_prefix.simps [simp del]

definition file_decode_compact_bytes :: "bytes \<Rightarrow> (bytes \<times> bytes, codec_error) result" where
  "file_decode_compact_bytes file =
     and_then (read_var_prefix file []) (\<lambda>(var_data, file).
     and_then (decode_var_i64 var_data) (\<lambda>(vn, _).
       if vn <s 0 then Panic
       else if unat vn \<le> length file then Ok (take (unat vn) file, drop (unat vn) file)
       else Err unexpected_eof))"

function encoded_bytes_len_loop :: "bytes \<Rightarrow> bool \<Rightarrow> nat \<Rightarrow> nat" where
  "encoded_bytes_len_loop encoded desc idx =
     (if length encoded < idx + 1 then length encoded
      else
        let marker = encoded ! idx in
        if desc \<and> marker \<noteq> 0 \<or> \<not> desc \<and> marker \<noteq> ENC_MARKER then idx + 1
        else encoded_bytes_len_loop encoded desc (idx + ENC_GROUP_SIZE + 1))"
  by pat_completeness auto

termination
  by (relation "measure (\<lambda>(encoded, desc, idx). Suc (length encoded) - idx)") auto

declare encoded_bytes_len_loop.simps [simp del]

definition encoded_bytes_len :: "bytes \<Rightarrow> bool \<Rightarrow> nat" where
  "encoded_bytes_len encoded desc = encoded_bytes_len_loop encoded desc ENC_GROUP_SIZE"

definition decode_compact_bytes :: "bytes \<Rightarrow> (bytes \<times> bytes, codec_error) result" where
  "decode_compact_bytes data =
     and_then (decode_var_i64 data) (\<lambda>(vn, data).
       if length data \<ge> unat vn then Ok (take (unat vn) data, drop (unat vn) data)
       else Err unexpected_eof)"

text \<open>The padding of a group that ends in \<open>marker\<close>.\<close>

definition pad_size_of :: "bool \<Rightarrow> u8 \<Rightarrow> nat" where
  "pad_size_of desc marker = (if desc then unat marker else unat (ENC_MARKER - marker))"

function decode_bytes_loop ::
    "bytes \<Rightarrow> bool \<Rightarrow> bytes \<Rightarrow> nat \<Rightarrow> (bytes \<times> bytes, codec_error) result" where
  "decode_bytes_loop data desc key offset =
     (let next_offset = offset + (ENC_GROUP_SIZE + 1) in
      if next_offset \<le> length data then
        let chunk = take (ENC_GROUP_SIZE + 1) (drop offset data);
            marker = last chunk;
            bytes = butlast chunk;
            pad_size = pad_size_of desc marker
        in
        if pad_size = 0 then decode_bytes_loop data desc (key @ bytes) next_offset
        else if pad_size > ENC_GROUP_SIZE then Err KeyPadding
        else
          let padding = drop (ENC_GROUP_SIZE - pad_size) bytes;
              key = key @ take (ENC_GROUP_SIZE - pad_size) bytes;
              pad_byte = (if desc then NOT 0 else 0)
          in
          if list_ex (\<lambda>x. x \<noteq> pad_byte) padding then Err KeyPadding
          else Ok (if desc then map (\<lambda>k. NOT k) key else key, drop next_offset data)
      else Err unexpected_eof)"
  by pat_completeness auto

termination
  by (relation "measure (\<lambda>(data, desc, key, offset). Suc (length data) - offset)")
    (auto simp: ENC_GROUP_SIZE_def)

declare decode_bytes_loop.simps [simp del]

definition decode_bytes :: "bytes \<Rightarrow> bool \<Rightarrow> (bytes \<times> bytes, codec_error) result" where
  "decode_bytes data desc = decode_bytes_loop data desc [] 0"

text \<open>
  The in-place decoder: the outcome and the buffer it leaves. \<open>copy_within\<close> is
  \<^verbatim>\<open>ptr::copy\<close> of \<open>n\<close> bytes, whose regions may overlap; a copy that would leave the buffer
  is \<open>Panic\<close>.
\<close>

definition copy_within :: "bytes \<Rightarrow> nat \<Rightarrow> nat \<Rightarrow> nat \<Rightarrow> bytes" where
  "copy_within data src dst n = take dst data @ take n (drop src data) @ drop (dst + n) data"

function decode_bytes_in_place_loop ::
    "bytes \<Rightarrow> bool \<Rightarrow> nat \<Rightarrow> nat \<Rightarrow> (unit, codec_error) result \<times> bytes" where
  "decode_bytes_in_place_loop data desc write_offset read_offset =
     (let marker_offset = read_offset + ENC_GROUP_SIZE in
      if marker_offset \<ge> length data then (Err unexpected_eof, data)
      else if write_offset + ENC_GROUP_SIZE > length data then (Panic, data)
      else
        let data = copy_within data read_offset write_offset ENC_GROUP_SIZE;
            write_offset = write_offset + ENC_GROUP_SIZE;
            read_offset = read_offset + (ENC_GROUP_SIZE + 1);
            marker = data ! marker_offset;
            pad_size = pad_size_of desc marker
        in
        if pad_size > 0 then
          if pad_size > ENC_GROUP_SIZE then (Err KeyPadding, data)
          else
            let padding_slice =
                  (if desc then take pad_size ENC_DESC_PADDING else take pad_size ENC_ASC_PADDING)
            in
            if take pad_size (drop (write_offset - pad_size) data) \<noteq> padding_slice
            then (Err KeyPadding, data)
            else
              let data = take (write_offset - pad_size) data
              in (Ok (), if desc then map (\<lambda>k. NOT k) data else data)
        else decode_bytes_in_place_loop data desc write_offset read_offset)"
  by pat_completeness auto

termination
  by (relation "measure (\<lambda>(data, desc, w, r). length data - r)")
    (auto simp: ENC_GROUP_SIZE_def copy_within_def)

declare decode_bytes_in_place_loop.simps [simp del]

definition decode_bytes_in_place :: "bytes \<Rightarrow> bool \<Rightarrow> (unit, codec_error) result \<times> bytes" where
  "decode_bytes_in_place data desc = decode_bytes_in_place_loop data desc 0 0"

text \<open>The slice iterators \<^verbatim>\<open>chunks_exact\<close> and \<^verbatim>\<open>rchunks_exact\<close> of the standard library.\<close>

function chunks_exact :: "nat \<Rightarrow> 'a list \<Rightarrow> 'a list list" where
  "chunks_exact n xs =
     (if n = 0 \<or> length xs < n then [] else take n xs # chunks_exact n (drop n xs))"
  by pat_completeness auto

termination
  by (relation "measure (\<lambda>(n, xs). length xs)") auto

declare chunks_exact.simps [simp del]

definition chunks_remainder :: "nat \<Rightarrow> 'a list \<Rightarrow> 'a list" where
  "chunks_remainder n xs = drop (length xs div n * n) xs"

definition rchunks_exact :: "nat \<Rightarrow> 'a list \<Rightarrow> 'a list list" where
  "rchunks_exact n xs = map rev (chunks_exact n (rev xs))"

definition rchunks_remainder :: "nat \<Rightarrow> 'a list \<Rightarrow> 'a list" where
  "rchunks_remainder n xs = rev (chunks_remainder n (rev xs))"

definition check_single_chunk :: "bool \<Rightarrow> bytes \<Rightarrow> bytes \<Rightarrow> bool" where
  "check_single_chunk desc encoded raw \<longleftrightarrow>
     (let len = length raw; pad = of_nat (ENC_GROUP_SIZE - len) :: u8 in
      if desc then
        encoded ! ENC_GROUP_SIZE = NOT (ENC_MARKER - pad) \<and>
        list_all (\<lambda>(enc, raw). enc = NOT raw) (zip (take len encoded) raw) \<and>
        list_all (\<lambda>v. v = ENC_MARKER) (drop len (take (length encoded - 1) encoded))
      else
        encoded ! ENC_GROUP_SIZE = ENC_MARKER - pad \<and>
        take len encoded = raw \<and>
        list_all (\<lambda>v. v = NOT ENC_MARKER) (drop len (take (length encoded - 1) encoded)))"

definition is_encoded_from :: "bytes \<Rightarrow> bytes \<Rightarrow> bool \<Rightarrow> bool" where
  "is_encoded_from encoded raw desc \<longleftrightarrow>
     (let rev_encoded_chunks = rchunks_exact (ENC_GROUP_SIZE + 1) encoded;
          raw_chunks = chunks_exact ENC_GROUP_SIZE raw
      in
      rchunks_remainder (ENC_GROUP_SIZE + 1) encoded = [] \<and>
      (case rev_encoded_chunks of
         [] \<Rightarrow> False
       | encoded_chunk # rev_encoded_chunks \<Rightarrow>
           check_single_chunk desc encoded_chunk (chunks_remainder ENC_GROUP_SIZE raw) \<and>
           length rev_encoded_chunks = length raw_chunks \<and>
           list_all (\<lambda>(encoded_chunk, raw_chunk). check_single_chunk desc encoded_chunk raw_chunk)
             (zip rev_encoded_chunks (rev raw_chunks))))"

definition read_slice :: "bytes \<Rightarrow> nat \<Rightarrow> (bytes \<times> bytes, codec_error) result" where
  "read_slice data n =
     (if length data \<ge> n then Ok (take n data, drop n data) else Err unexpected_eof)"

text \<open>The loop of \<^verbatim>\<open>next_prefix_of\<close>; \<open>i\<close> is the number of indices left.\<close>

fun next_prefix_loop :: "bytes \<Rightarrow> nat \<Rightarrow> bytes" where
  "next_prefix_loop p 0 = p"
| "next_prefix_loop p (Suc i) =
     (if p ! i = 0xff then next_prefix_loop (butlast p) i else p[i := p ! i + 1])"

definition next_prefix_of :: "bytes \<Rightarrow> bytes" where
  "next_prefix_of key = next_prefix_loop key (length key)"

text \<open>
  Two reference forms of the encoding: byte by byte, where \<open>n\<close> is the room left in the current
  group, and group by group.
\<close>

function mc_encode :: "nat \<Rightarrow> bytes \<Rightarrow> bytes" where
  "mc_encode 0 xs = 0xff # mc_encode 8 xs"
| "mc_encode (Suc n) [] = replicate (Suc n) 0 @ [0xff - of_nat (Suc n)]"
| "mc_encode (Suc n) (x # xs) = x # mc_encode n xs"
  by pat_completeness auto
termination
  by (relation "measure (\<lambda>(n, xs). 2 * length xs + (if n = 0 then 1 else 0))") auto

definition mc_group :: "bool \<Rightarrow> bytes \<Rightarrow> bytes" where
  "mc_group desc raw = adjust_bytes_order
     (raw @ replicate (8 - length raw) 0 @ [0xff - of_nat (8 - length raw)]) desc"

subsection \<open>The encoding\<close>

lemmas enc_consts = ENC_GROUP_SIZE_def ENC_MARKER_def ENC_ASC_PADDING_def ENC_DESC_PADDING_def

lemma mc_encode_group:
  "mc_encode n xs =
     (if length xs < n then xs @ replicate (n - length xs) 0 @ [0xff - of_nat (n - length xs)]
      else take n xs @ 0xff # mc_encode 8 (drop n xs))"
  by (induction n xs rule: mc_encode.induct) (auto simp del: of_nat_Suc)

lemma encode_bytes_loop_mc:
  "i \<le> length key \<Longrightarrow> encode_bytes_loop key False i = mc_encode 8 (drop i key)"
proof (induction key False i rule: encode_bytes_loop.induct)
  case (1 key i)
  show ?case
  proof (cases "length key - i \<ge> 8")
    case True
    then show ?thesis
      using 1 by (subst encode_bytes_loop.simps, subst mc_encode_group)
       (auto simp: enc_consts Let_def adjust_bytes_order_def add.commute)
  next
    case False
    then have "encode_bytes_loop key False (i + 8) = []"
      using 1(2) by (subst encode_bytes_loop.simps) auto
    then show ?thesis
      using 1 False by (subst encode_bytes_loop.simps, subst mc_encode_group)
       (auto simp: enc_consts Let_def adjust_bytes_order_def add.commute)
  qed
qed

lemma encode_order_bytes_asc: "encode_order_bytes key False = mc_encode 8 key"
  by (simp add: encode_order_bytes_def encode_bytes_loop_mc)

lemma encode_bytes_loop_desc:
  "encode_bytes_loop key True i = map (\<lambda>b. NOT b) (encode_bytes_loop key False i)"
proof (induction key True i rule: encode_bytes_loop.induct)
  case (1 key i)
  then show ?case
    by (subst (1 2) encode_bytes_loop.simps) (simp add: Let_def enc_consts adjust_bytes_order_def)
qed

lemma encode_order_bytes_desc: "encode_order_bytes key True = map (\<lambda>b. NOT b) (encode_order_bytes key False)"
  by (simp add: encode_order_bytes_def encode_bytes_loop_desc)

lemma marker_less: "m \<le> 8 \<Longrightarrow> n < m \<Longrightarrow> (0xff - of_nat m :: u8) < 0xff - of_nat n"
proof -
  assume a: "m \<le> 8" "n < m"
  have "unat (0xff - of_nat k :: u8) = 255 - k" if "k \<le> 8" for k
    using that by (subst unat_sub) (auto simp: word_le_nat_alt unat_of_nat)
  with a show ?thesis by (simp add: word_less_nat_alt)
qed

lemma mc_encode_pad_less:
  "n < m \<Longrightarrow> m \<le> 8 \<Longrightarrow> replicate n 0 @ (0xff - of_nat m) # r < mc_encode n xs"
proof (induction n xs arbitrary: rule: mc_encode.induct)
  case (1 xs)
  then show ?case using marker_less [of m 0] by simp
next
  case (2 n)
  then show ?case using marker_less [of m "Suc n"] by (simp del: of_nat_Suc replicate_Suc)
next
  case (3 n x xs)
  then show ?case by (cases "x = 0") (auto simp: word_gt_0)
qed

lemma mc_encode_mono: "n \<le> 8 \<Longrightarrow> xs < ys \<Longrightarrow> mc_encode n xs < mc_encode n ys"
proof (induction n xs arbitrary: ys rule: mc_encode.induct)
  case (2 n)
  then obtain y ys' where "ys = y # ys'" by (cases ys) auto
  then show ?case
    using 2 mc_encode_pad_less [of n "Suc n" "[]" ys'] by (cases "y = 0") (auto simp: word_gt_0)
next
  case (3 n x xs)
  then show ?case by (cases ys) auto
qed simp

lemma encode_bytes_less_iff: "encode_order_bytes k False < encode_order_bytes l False \<longleftrightarrow> k < l"
  unfolding encode_order_bytes_asc
  using mc_encode_mono [of 8 k l] mc_encode_mono [of 8 l k]
  by (cases k l rule: linorder_cases) auto


lemma NOT_u8_less_iff: "NOT v < NOT w \<longleftrightarrow> w < (v::u8)"
proof -
  have "uint (NOT x) = 255 - uint x" for x :: u8
    using uint_minus_simple_iff [of "-1" x] by (simp add: not_eq_complement unsigned_minus_1_eq_mask mask_eq_exp_minus_1 minus_diff_commute)
  then show ?thesis by (simp add: word_less_def)
qed

lemma map_NOT_less:
  "xs < ys \<Longrightarrow> \<nexists>t. ys = xs @ t \<Longrightarrow> map (\<lambda>b. NOT b) ys < map (\<lambda>b. NOT b) (xs :: bytes)"
proof (induction xs arbitrary: ys)
  case (Cons x xs)
  then show ?case by (cases ys) (auto simp: NOT_u8_less_iff)
qed simp

lemma map_NOT_NOT [simp]: "map ((\<lambda>b. NOT b) \<circ> (\<lambda>b. NOT b)) (xs :: bytes) = xs"
  by (simp add: comp_def)

lemma pad_size_of_marker: "m \<le> 8 \<Longrightarrow> pad_size_of False (0xff - of_nat m) = m"
  by (simp add: pad_size_of_def enc_consts unat_of_nat)

lemma pad_size_of_desc: "pad_size_of True m = pad_size_of False (NOT m)"
proof -
  have "(-1 :: u8) - NOT m = m" by (simp add: not_eq_complement)
  moreover have "(-1 :: u8) = 0xff" by simp
  ultimately show ?thesis unfolding pad_size_of_def enc_consts by simp
qed


lemma drop_9: "drop (off + 9) data = drop 9 (drop off data)"
  by (simp add: add.commute)

lemma decode_bytes_loop_encoded:
  "drop off data = mc_encode 8 k @ rest \<Longrightarrow>
   decode_bytes_loop data False key off = Ok (key @ k, rest)"
proof (induction "length k" arbitrary: k key off rule: less_induct)
  case less
  show ?case
  proof (cases "length k < 8")
    case True
    then have enc: "drop off data = k @ replicate (8 - length k) 0 @ (0xff - of_nat (8 - length k)) # rest"
      using less.prems by (subst (asm) mc_encode_group) simp
    then have "length (drop off data) \<ge> 9" using True by simp
    moreover have "take 9 (drop off data) = k @ replicate (8 - length k) 0 @ [0xff - of_nat (8 - length k)]"
      "drop (off + 9) data = rest"
      using True unfolding drop_9 enc by simp_all
    ultimately show ?thesis
      using True pad_size_of_marker [of "8 - length k"]
      by (subst decode_bytes_loop.simps) (auto simp: Let_def enc_consts list_ex_iff butlast_append)
  next
    case False
    then have enc: "drop off data = take 8 k @ 0xff # mc_encode 8 (drop 8 k) @ rest"
      using less.prems by (subst (asm) mc_encode_group) simp
    then have len: "length (drop off data) \<ge> 9" using False by simp
    have *: "take 9 (drop off data) = take 8 k @ [0xff]"
      "drop (off + 9) data = mc_encode 8 (drop 8 k) @ rest"
      using False unfolding drop_9 enc by simp_all
    then have "decode_bytes_loop data False (key @ take 8 k) (off + 9) = Ok ((key @ take 8 k) @ drop 8 k, rest)"
      using False by (intro less.hyps) auto
    with * len show ?thesis
      using pad_size_of_marker [of 0]
      by (subst decode_bytes_loop.simps) (simp add: Let_def enc_consts)
  qed
qed


lemma marker_of_pad_size: "pad_size_of False m = p \<Longrightarrow> m = 0xff - of_nat p"
  by (auto simp: pad_size_of_def enc_consts)

lemma mc_encode_padded:
  "length k < 8 \<Longrightarrow> mc_encode 8 k = k @ replicate (8 - length k) 0 @ [0xff - of_nat (8 - length k)]"
  by (subst mc_encode_group) simp

lemma mc_encode_full:
  "length g = 8 \<Longrightarrow> mc_encode 8 (g @ k) = g @ 0xff # mc_encode 8 k"
  by (subst mc_encode_group) simp


lemma decode_bytes_loop_short:
  "\<not> off + 9 \<le> length data \<Longrightarrow> decode_bytes_loop data desc key off = Err unexpected_eof"
  by (subst decode_bytes_loop.simps) (simp add: enc_consts)

lemma decode_bytes_loop_step:
  assumes "off + 9 \<le> length data" "take 9 (drop off data) = g @ [m]" "pad_size_of desc m = p"
  shows "decode_bytes_loop data desc key off =
     (if p = 0 then decode_bytes_loop data desc (key @ g) (off + 9)
      else if p > 8 \<or> (\<exists>x \<in> set (drop (8 - p) g). x \<noteq> (if desc then NOT 0 else 0)) then Err KeyPadding
      else Ok (if desc then map (\<lambda>k. NOT k) (key @ take (8 - p) g) else key @ take (8 - p) g,
               drop (off + 9) data))"
  using assms by (subst decode_bytes_loop.simps) (simp add: Let_def enc_consts list_ex_iff)

lemma split_chunk:
  assumes "off + 9 \<le> length data"
  obtains g m where "take 9 (drop off data) = g @ [m]" "length g = 8"
    "drop off data = g @ m # drop (off + 9) data"
proof -
  have len: "length (take 9 (drop off data)) = 9" using assms by simp
  then obtain g m where gm: "take 9 (drop off data) = g @ [m]"
    by (metis length_0_conv rev_exhaust zero_neq_numeral)
  then have "drop off data = g @ m # drop (off + 9) data"
    unfolding drop_9 by (metis append_Cons append_assoc append_Nil append_take_drop_id)
  with gm len that show ?thesis by simp
qed

lemma decode_bytes_loop_canonical:
  "decode_bytes_loop data False key off = Ok (k', rest) \<Longrightarrow>
   \<exists>k. k' = key @ k \<and> drop off data = mc_encode 8 k @ rest"
proof (induction "length data - off" arbitrary: key off rule: less_induct)
  case less
  have len: "off + 9 \<le> length data"
    using less.prems decode_bytes_loop_short [of off data False key] by force
  then obtain g m where c: "take 9 (drop off data) = g @ [m]" "length g = 8"
    and d: "drop off data = g @ m # drop (off + 9) data"
    by (rule split_chunk)
  define p where "p = pad_size_of False m"
  note step = decode_bytes_loop_step [OF len c(1) p_def [symmetric]]
  have dec: "length data - (off + 9) < length data - off" using len by simp
  have m: "m = 0xff - of_nat p" using marker_of_pad_size p_def by simp
  show ?case
  proof (cases "p = 0")
    case True
    then have "decode_bytes_loop data False (key @ g) (off + 9) = Ok (k', rest)"
      using less.prems step by simp
    then obtain k where "k' = (key @ g) @ k" "drop (off + 9) data = mc_encode 8 k @ rest"
      using less.hyps [OF dec, of "key @ g"] by auto
    then show ?thesis
      using d True c(2) m by (intro exI [of _ "g @ k"]) (simp add: mc_encode_full)
  next
    case False
    then have p: "p \<le> 8" "\<forall>x \<in> set (drop (8 - p) g). x = 0"
      "k' = key @ take (8 - p) g" "rest = drop (off + 9) data"
      using less.prems step by (auto split: if_splits)
    then have "drop (8 - p) g = replicate p 0"
      using c(2) by (intro replicate_eqI) auto
    then have "g = take (8 - p) g @ replicate p 0"
      by (metis append_take_drop_id)
    then have "drop off data = (take (8 - p) g @ replicate p 0) @ m # rest"
      using d p(4) by simp
    then show ?thesis
      using p(1,3) False c(2) m by (intro exI [of _ "take (8 - p) g"]) (simp add: mc_encode_padded)
  qed
qed

lemma decode_bytes_loop_desc:
  "decode_bytes_loop data True key off =
     map_ok (\<lambda>(k, r). (k, map (\<lambda>b. NOT b) r))
       (decode_bytes_loop (map (\<lambda>b. NOT b) data) False (map (\<lambda>b. NOT b) key) off)"
proof (induction "length data - off" arbitrary: key off rule: less_induct)
  case less
  show ?case
  proof (cases "off + 9 \<le> length data")
    case True
    then obtain g m where c: "take 9 (drop off data) = g @ [m]" "length g = 8"
      by (rule split_chunk)
    have c': "take 9 (drop off (map (\<lambda>b. NOT b) data)) = map (\<lambda>b. NOT b) g @ [NOT m]"
      using c(1) by (simp add: take_map drop_map)
    have pad: "(\<exists>x \<in> set (drop n (map (\<lambda>b. NOT b) g)). x \<noteq> 0) \<longleftrightarrow> (\<exists>x \<in> set (drop n g). x \<noteq> NOT 0)" for n
      by (auto simp: drop_map) (metis bit.double_compl bit.compl_zero)+
    show ?thesis
      using decode_bytes_loop_step [OF True c(1), of True _ key]
        decode_bytes_loop_step [OF _ c', of False _ "map (\<lambda>b. NOT b) key"]
        less.hyps [of "off + 9" "key @ g"] True pad
      by (simp add: pad_size_of_desc take_map drop_map)
  next
    case False
    then show ?thesis by (simp add: decode_bytes_loop_short)
  qed
qed


lemma map_NOT_eq: "map (\<lambda>b. NOT b) xs = ys \<longleftrightarrow> xs = map (\<lambda>b. NOT b) (ys :: bytes)"
  by (auto simp: comp_def)

lemma decode_bytes_iff:
  "decode_bytes data desc = Ok (k, rest) \<longleftrightarrow> data = encode_order_bytes k desc @ rest"
proof -
  have asc: "decode_bytes_loop d False [] 0 = Ok (k, r) \<longleftrightarrow> d = mc_encode 8 k @ r" for d r
    using decode_bytes_loop_encoded [of 0 d k r "[]"] decode_bytes_loop_canonical [of d "[]" 0 k r]
    by auto
  show ?thesis
  proof (cases desc)
    case True
    have "decode_bytes data True = Ok (k, rest) \<longleftrightarrow>
        (\<exists>r. map (\<lambda>b. NOT b) data = mc_encode 8 k @ r \<and> rest = map (\<lambda>b. NOT b) r)"
      by (auto simp: decode_bytes_def decode_bytes_loop_desc asc result_simps)
    also have "\<dots> \<longleftrightarrow> data = map (\<lambda>b. NOT b) (mc_encode 8 k) @ rest"
      by (auto simp: map_NOT_eq comp_def intro: exI [of _ "map (\<lambda>b. NOT b) rest"])
    finally show ?thesis
      using True by (simp add: encode_order_bytes_desc encode_order_bytes_asc)
  qed (simp add: decode_bytes_def asc encode_order_bytes_asc)
qed

lemma decode_bytes_not_Panic: "decode_bytes_loop data desc key off \<noteq> Panic"
  by (induction data desc key off rule: decode_bytes_loop.induct)
    (subst decode_bytes_loop.simps, auto simp: Let_def)

lemma length_mc_encode: "n \<le> 8 \<Longrightarrow> length (mc_encode n xs) = (if length xs < n then n + 1 else n + 1 + ((length xs - n) div 8 + 1) * 9)"
proof (induction n xs rule: mc_encode.induct)
  case (1 xs)
  then show ?case by (auto simp: div_if [of "length xs"])
qed auto

lemma length_encode_order_bytes: "length (encode_order_bytes bs desc) = max_encoded_bytes_size (length bs)"
proof -
  have "length (mc_encode 8 bs) = (length bs div 8 + 1) * 9"
    by (auto simp: length_mc_encode div_if [of "length bs"])
  then show ?thesis
    by (cases desc) (simp_all add: encode_order_bytes_desc encode_order_bytes_asc max_encoded_bytes_size_def enc_consts)
qed

lemma encoded_bytes_len_loop_encoded:
  "drop off data = mc_encode 8 k @ rest \<Longrightarrow>
   encoded_bytes_len_loop data False (off + 8) = off + length (mc_encode 8 k)"
proof (induction "length k" arbitrary: k off rule: less_induct)
  case less
  show ?case
  proof (cases "length k < 8")
    case True
    then have enc: "drop off data = k @ replicate (8 - length k) 0 @ (0xff - of_nat (8 - length k)) # rest"
      using less.prems by (simp add: mc_encode_padded)
    then have len: "length (drop off data) \<ge> 9" using True by simp
    have "data ! (off + 8) = drop off data ! 8"
      using len by simp
    then have "data ! (off + 8) = 0xff - of_nat (8 - length k)"
      unfolding enc using True by (simp add: nth_append)
    moreover have "(0xff - of_nat (8 - length k) :: u8) \<noteq> 0xff"
      using marker_less [of "8 - length k" 0] True by auto
    ultimately show ?thesis
      using True len by (subst encoded_bytes_len_loop.simps) (auto simp: enc_consts mc_encode_padded)
  next
    case False
    then have g: "mc_encode 8 k = take 8 k @ 0xff # mc_encode 8 (drop 8 k)"
      using mc_encode_full [of "take 8 k" "drop 8 k"] by simp
    then have enc: "drop off data = take 8 k @ 0xff # mc_encode 8 (drop 8 k) @ rest"
      using less.prems by simp
    then have len: "length (drop off data) \<ge> 9" using False by simp
    have "data ! (off + 8) = drop off data ! 8"
      using len by simp
    then have m: "data ! (off + 8) = 0xff"
      unfolding enc using False by (simp add: nth_append)
    have "drop (off + 9) data = mc_encode 8 (drop 8 k) @ rest"
      using False unfolding drop_9 enc by simp
    then have "encoded_bytes_len_loop data False (off + 9 + 8) = off + 9 + length (mc_encode 8 (drop 8 k))"
      using False by (intro less.hyps) auto
    then show ?thesis
      using m len False by (subst encoded_bytes_len_loop.simps) (auto simp: enc_consts g Let_def add.commute)
  qed
qed

lemma encoded_bytes_len_loop_desc:
  "encoded_bytes_len_loop data True i = encoded_bytes_len_loop (map (\<lambda>b. NOT b) data) False i"
proof (induction data True i rule: encoded_bytes_len_loop.induct)
  case (1 data i)
  have "NOT b = 0xff \<longleftrightarrow> b = 0" for b :: u8
  proof -
    have "(0xff :: u8) = NOT 0" by simp
    then show ?thesis by (metis bit.double_compl)
  qed
  then show ?case
    using 1 by (subst (1 2) encoded_bytes_len_loop.simps) (simp add: Let_def enc_consts)
qed


lemma decode_bytes_in_place_loop_step:
  assumes "r + 9 \<le> length d" "w \<le> r" "take 8 (drop r d) = g" "d ! (r + 8) = m" "pad_size_of desc m = p"
    "d' = take w d @ g @ drop (w + 8) d"
  shows "decode_bytes_in_place_loop d desc w r =
    (if p = 0 then decode_bytes_in_place_loop d' desc (w + 8) (r + 9)
     else if p > 8 \<or> drop (8 - p) g \<noteq> replicate p (if desc then NOT 0 else 0) then (Err KeyPadding, d')
     else (Ok (), if desc then map (\<lambda>k. NOT k) (take w d @ take (8 - p) g) else take w d @ take (8 - p) g))"
proof -
  have g: "length g = 8" using assms(1,3) by auto
  have copy: "copy_within d r w 8 = d'" using assms(3,6) by (simp add: copy_within_def)
  have m: "d' ! (r + 8) = m"
    using assms(1,2,4,6) g by (auto simp: nth_append add.commute)
  have tk: "take p (drop (w + 8 - p) d') = drop (8 - p) g" "take (w + 8 - p) d' = take w d @ take (8 - p) g"
    if "p \<le> 8" using assms(1,2,6) g that by simp_all
  have ok: "\<not> length d \<le> r + 8" "\<not> length d < w + 8" using assms(1,2) by auto
  show ?thesis
  proof (cases "p \<le> 8")
    case True
    then have "take p ENC_DESC_PADDING = replicate p (NOT 0)" "take p ENC_ASC_PADDING = replicate p 0"
      by (simp_all add: enc_consts min_def)
    then show ?thesis
      using assms(5) True tk [OF True] unfolding decode_bytes_in_place_loop.simps [of d desc w r]
      by (cases desc) (simp_all add: Let_def ENC_GROUP_SIZE_def copy m ok)
  next
    case False
    then show ?thesis
      using assms(5) unfolding decode_bytes_in_place_loop.simps [of d desc w r]
      by (simp add: Let_def ENC_GROUP_SIZE_def copy m ok)
  qed
qed

lemma decode_bytes_in_place_loop_eq:
  assumes "length d = length data" "w \<le> r" "drop r d = drop r data"
  shows "fst (decode_bytes_in_place_loop d desc w r) =
           map_ok (\<lambda>_. ()) (decode_bytes_loop data desc (take w d) r) \<and>
         (\<forall>k rest. decode_bytes_loop data desc (take w d) r = Ok (k, rest) \<longrightarrow>
           snd (decode_bytes_in_place_loop d desc w r) = k)"
  using assms
proof (induction "length data - r" arbitrary: d w r rule: less_induct)
  case less
  show ?case
  proof (cases "r + 9 \<le> length data")
    case True
    then obtain g m where c: "take 9 (drop r data) = g @ [m]" "length g = 8"
      and dd: "drop r data = g @ m # drop (r + 9) data"
      by (rule split_chunk)
    define p d' where "p = pad_size_of desc m" and "d' = take w d @ g @ drop (w + 8) d"
    have g: "take 8 (drop r d) = g" and m: "d ! (r + 8) = m"
      using less.prems(1,3) c(2) dd True by (simp, metis add_leD1 length_drop nth_append_length nth_drop)
    note step = decode_bytes_loop_step [OF True c(1) p_def [symmetric], of "take w d"]
    note step' = decode_bytes_in_place_loop_step [OF _ less.prems(2) g m p_def [symmetric] d'_def]
    have pad: "drop (8 - p) g = replicate p b \<longleftrightarrow> \<not> (\<exists>x \<in> set (drop (8 - p) g). x \<noteq> b)" if "p \<le> 8" for b
      using c(2) that by (auto intro!: replicate_eqI)
    have "drop (w + 8) d' = drop (w + 8) d"
      using True less.prems c(2) by (simp add: d'_def)
    moreover have "drop (r + 9) x = drop (r + 1 - w) (drop (w + 8) x)" for x :: bytes
      using less.prems(2) by (simp add: add.commute)
    ultimately have "drop (r + 9) d' = drop (r + 9) d" by metis
    then have "drop (r + 9) d' = drop (r + 9) data"
      using less.prems(3) unfolding drop_9 by simp
    moreover have "length d' = length data" "w + 8 \<le> r + 9" "take (w + 8) d' = take w d @ g"
      using True less.prems c(2) by (auto simp: d'_def)
    ultimately have inv: "length d' = length data" "w + 8 \<le> r + 9"
      "drop (r + 9) d' = drop (r + 9) data" "take (w + 8) d' = take w d @ g" by auto
    have len: "r + 9 \<le> length d" using True less.prems(1) by simp
    show ?thesis
    proof (cases "p = 0")
      case True
      have "length data - (r + 9) < length data - r" using len less.prems(1) by simp
      then show ?thesis
        using less.hyps [OF _ inv(1-3)] step step' [OF len] inv(4) True by simp
    next
      case False
      show ?thesis
      proof (cases "p \<le> 8")
        case True
        then show ?thesis using step step' [OF len] pad [OF True] False by simp
      next
        case big: False
        then show ?thesis using step step' [OF len] False by simp
      qed
    qed
  next
    case False
    then show ?thesis
      using less.prems by (subst (1 2) decode_bytes_in_place_loop.simps) (auto simp: decode_bytes_loop_short enc_consts)
  qed
qed

subsection \<open>Comparison without decoding\<close>

lemma chunks_exact_concat:
  "0 < n \<Longrightarrow> \<forall>x \<in> set xss. length x = n \<Longrightarrow> length r < n \<Longrightarrow>
   chunks_exact n (concat xss @ r) = xss"
proof (induction xss)
  case Nil
  then show ?case by (subst chunks_exact.simps) simp
next
  case (Cons x xss)
  then show ?case by (subst chunks_exact.simps) simp
qed

lemma chunks_exact_length: "x \<in> set (chunks_exact n xs) \<Longrightarrow> length x = n"
proof (induction n xs rule: chunks_exact.induct)
  case (1 n xs)
  from 1(2) show ?case
    by (subst (asm) chunks_exact.simps) (use 1(1) in \<open>auto split: if_splits\<close>)
qed

lemma concat_chunks_exact: "0 < n \<Longrightarrow> concat (chunks_exact n xs) @ chunks_remainder n xs = xs"
proof (induction n xs rule: chunks_exact.induct)
  case (1 n xs)
  show ?case
  proof (cases "length xs < n")
    case True
    then show ?thesis by (subst chunks_exact.simps) (simp add: chunks_remainder_def)
  next
    case False
    then have "chunks_remainder n xs = chunks_remainder n (drop n xs)"
      using 1(2) by (simp add: chunks_remainder_def le_div_geq add.commute)
    then show ?thesis
      using 1 False by (subst chunks_exact.simps) simp
  qed
qed

lemma length_chunks_remainder: "0 < n \<Longrightarrow> length (chunks_remainder n xs) = length xs mod n"
  by (simp add: chunks_remainder_def minus_div_mult_eq_mod)

lemma rchunks_exact_rev:
  assumes "0 < n" "n dvd length xs"
  shows "rchunks_exact n xs = rev (chunks_exact n xs)"
proof -
  have "chunks_remainder n xs = []"
    using length_chunks_remainder [OF assms(1), of xs] assms(2) by (simp add: dvd_eq_mod_eq_0)
  then have "rev xs = concat (map rev (rev (chunks_exact n xs))) @ []"
    using concat_chunks_exact [OF assms(1), of xs] by (metis append_Nil2 rev_concat rev_map)
  moreover have "chunks_exact n (concat (map rev (rev (chunks_exact n xs))) @ []) =
      map rev (rev (chunks_exact n xs))"
    using assms(1) chunks_exact_length by (intro chunks_exact_concat) auto
  ultimately show ?thesis by (simp add: rchunks_exact_def rev_map)
qed

lemma rchunks_remainder_Nil: "0 < n \<Longrightarrow> rchunks_remainder n xs = [] \<longleftrightarrow> n dvd length xs"
  using length_chunks_remainder [of n "rev xs"]
  by (auto simp: rchunks_remainder_def dvd_eq_mod_eq_0)

lemma encode_order_bytes_groups:
  "encode_order_bytes raw desc = concat (map (mc_group desc) (chunks_exact 8 raw @ [chunks_remainder 8 raw]))"
proof -
  have "mc_encode 8 raw = concat (map (mc_group False) (chunks_exact 8 raw @ [chunks_remainder 8 raw]))"
  proof (induction "8::nat" raw rule: chunks_exact.induct)
    case (1 xs)
    show ?case
    proof (cases "length xs < 8")
      case True
      then show ?thesis
        by (subst chunks_exact.simps) (simp add: chunks_remainder_def mc_group_def adjust_bytes_order_def mc_encode_padded)
    next
      case False
      then have "chunks_remainder 8 xs = chunks_remainder 8 (drop 8 xs)"
        by (simp add: chunks_remainder_def le_div_geq add.commute)
      moreover have "mc_encode 8 xs = take 8 xs @ 0xff # mc_encode 8 (drop 8 xs)"
        using False by (subst mc_encode_group) simp
      ultimately show ?thesis
        using 1 False by (subst chunks_exact.simps) (simp add: mc_group_def adjust_bytes_order_def)
    qed
  qed
  moreover have "mc_group True = (\<lambda>r. map (\<lambda>b. NOT b) (mc_group False r))"
    by (rule ext) (simp add: mc_group_def adjust_bytes_order_def)
  ultimately show ?thesis
    by (cases desc) (simp_all add: encode_order_bytes_asc encode_order_bytes_desc map_concat comp_def)
qed


lemma list_all_eq_replicate: "list_all (\<lambda>v. v = a) xs \<longleftrightarrow> xs = replicate (length xs) a"
  by (auto simp: list_all_iff replicate_eqI intro: replicate_eqI) (metis in_set_replicate)

lemma list_all_zip_map:
  "length xs = length ys \<Longrightarrow> list_all (\<lambda>(x, y). x = f y) (zip xs ys) \<longleftrightarrow> xs = map f ys"
  by (induction xs ys rule: list_induct2) auto

lemma chunk9:
  assumes "length c = 9" "length raw = l" "l \<le> 8" and that: "length pad = 8 - l"
  shows "c = raw @ pad @ [m] \<longleftrightarrow> take l c = raw \<and> drop l (take 8 c) = pad \<and> c ! 8 = m"
proof
  assume "c = raw @ pad @ [m]"
  then show "take l c = raw \<and> drop l (take 8 c) = pad \<and> c ! 8 = m"
    using assms that by (auto simp: nth_append)
next
  assume *: "take l c = raw \<and> drop l (take 8 c) = pad \<and> c ! 8 = m"
  have "c = take 8 c @ [c ! 8]"
    using take_Suc_conv_app_nth [of 8 c] assms(1) by simp
  also have "take 8 c = take l c @ drop l (take 8 c)"
    using assms(3) append_take_drop_id [of l "take 8 c"] by (simp add: min_def)
  finally show "c = raw @ pad @ [m]" using * by simp
qed

lemma check_single_chunk_iff:
  assumes "length c = 9" "length raw \<le> 8"
  shows "check_single_chunk desc c raw \<longleftrightarrow> c = mc_group desc raw"
proof (cases desc)
  case True
  have "mc_group True raw = map (\<lambda>b. NOT b) raw @ replicate (8 - length raw) 0xff @ [NOT (0xff - of_nat (8 - length raw))]"
    by (simp add: mc_group_def adjust_bytes_order_def)
  then show ?thesis
    using True assms chunk9 [of c "map (\<lambda>b. NOT b) raw" "length raw" "replicate (8 - length raw) 0xff"]
      list_all_zip_map [of "take (length raw) c" raw]
    by (auto simp: check_single_chunk_def Let_def enc_consts list_all_eq_replicate min_def)
next
  case False
  then show ?thesis
    using assms chunk9 [of c raw "length raw" "replicate (8 - length raw) 0"]
    by (auto simp: check_single_chunk_def Let_def enc_consts list_all_eq_replicate mc_group_def adjust_bytes_order_def)
qed

lemma length_mc_group: "length r \<le> 8 \<Longrightarrow> length (mc_group desc r) = 9"
  by (simp add: mc_group_def adjust_bytes_order_def)

lemma chunks_exact_nine:
  "chunks_exact 9 (encode_order_bytes raw desc) = map (mc_group desc) (chunks_exact 8 raw @ [chunks_remainder 8 raw])"
proof -
  have "\<forall>x \<in> set (map (mc_group desc) (chunks_exact 8 raw @ [chunks_remainder 8 raw])). length x = 9"
    using chunks_exact_length [of _ 8 raw] length_chunks_remainder [of 8 raw]
    by (auto intro!: length_mc_group)
  from chunks_exact_concat [OF _ this, of "[]"] show ?thesis
    by (simp add: encode_order_bytes_groups)
qed

lemma is_encoded_from_iff: "is_encoded_from enc raw desc \<longleftrightarrow> enc = encode_order_bytes raw desc"
proof (cases "9 dvd length enc")
  case False
  then have "enc \<noteq> encode_order_bytes raw desc"
    by (metis length_encode_order_bytes max_encoded_bytes_size_def dvd_triv_right enc_consts(1) numeral_eq_Suc pred_numeral_simps Suc_eq_plus1)
  with False show ?thesis
    by (simp add: is_encoded_from_def rchunks_remainder_Nil enc_consts)
next
  case True
  let ?rs = "chunks_exact 8 raw" and ?r = "chunks_remainder 8 raw" and ?cs = "chunks_exact 9 enc"
  have enc: "concat ?cs = enc"
    using concat_chunks_exact [of 9 enc] length_chunks_remainder [of 9 enc] True by (simp add: dvd_eq_mod_eq_0)
  have rem: "length ?r \<le> 8" using length_chunks_remainder [of 8 raw] by simp
  have zip: "list_all (\<lambda>(c, r). check_single_chunk desc c r) (zip (rev cs) (rev ?rs)) \<longleftrightarrow> cs = map (mc_group desc) ?rs"
    if "length cs = length ?rs" "set cs \<subseteq> set ?cs" for cs
  proof -
    have "list_all (\<lambda>(c, r). check_single_chunk desc c r) (zip (rev cs) (rev ?rs)) \<longleftrightarrow>
      list_all (\<lambda>(c, r). c = mc_group desc r) (zip (rev cs) (rev ?rs))"
    proof (intro list.pred_cong refl, goal_cases)
      case (1 p)
      then obtain c r where p: "p = (c, r)" "c \<in> set cs" "r \<in> set ?rs"
        by (metis set_rev set_zip_leftD set_zip_rightD surj_pair)
      then have "length c = 9" "length r = 8"
        using that(2) chunks_exact_length by blast+
      then show ?case using p(1) by (simp add: check_single_chunk_iff)
    qed
    also have "\<dots> \<longleftrightarrow> cs = map (mc_group desc) ?rs"
      using that(1) by (simp add: list_all_zip_map rev_map [symmetric])
    finally show ?thesis .
  qed
  have "is_encoded_from enc raw desc \<longleftrightarrow> ?cs = map (mc_group desc) (?rs @ [?r])"
  proof (cases ?cs rule: rev_cases)
    case Nil
    then show ?thesis using True by (simp add: is_encoded_from_def rchunks_exact_rev enc_consts)
  next
    case (snoc cs c)
    have "length c = 9" using snoc chunks_exact_length [of c 9 enc] by simp
    moreover have "set cs \<subseteq> set ?cs" using snoc by auto
    ultimately show ?thesis
      using True snoc zip [of cs] rem
      by (auto simp: is_encoded_from_def rchunks_exact_rev rchunks_remainder_Nil enc_consts check_single_chunk_iff Let_def)
  qed
  also have "\<dots> \<longleftrightarrow> enc = encode_order_bytes raw desc"
    using enc chunks_exact_nine [of raw desc] by (auto simp: encode_order_bytes_groups)
  finally show ?thesis .
qed

lemma next_prefix_loop_eq:
  "next_prefix_loop p (length p) = (case dropWhile (\<lambda>b. b = 0xff) (rev p) of [] \<Rightarrow> [] | b # bs \<Rightarrow> rev bs @ [b + 1])"
proof (induction p rule: rev_induct)
  case (snoc b p)
  then show ?case by (auto simp: nth_append)
qed simp

lemma decode_encode_compact:
  "length data < 2 ^ 63 \<Longrightarrow> decode_compact_bytes (encode_compact_bytes data @ rest) = Ok (data, rest)"
  by (simp add: decode_compact_bytes_def encode_compact_bytes_def decode_encode_var_i64 unat_of_nat)

lemma encoded_compact_len_encoded:
  "length data < 2 ^ 63 \<Longrightarrow> encoded_compact_len (encode_compact_bytes data @ rest) = of_nat (length (encode_compact_bytes data))"
  by (simp add: encoded_compact_len_def encode_compact_bytes_def decode_encode_var_i64 unat_of_nat add.commute)

lemma read_var_prefix_var_u64:
  "length acc + length (encode_var_u64 v) \<le> 10 \<Longrightarrow>
   read_var_prefix (encode_var_u64 v @ rest) acc = Ok (acc @ encode_var_u64 v, rest)"
proof (induction v arbitrary: acc rule: encode_var_u64.induct)
  case (1 v)
  show ?case
  proof (cases "v < 0x80")
    case True
    then show ?thesis
      using 1(2) var_last_byte_less [OF True]
      by (subst read_var_prefix.simps) (simp add: encode_var_u64_less MAX_VAR_U64_LEN_def)
  next
    case False
    then have ge: "v \<ge> 0x80" by simp
    then show ?thesis
      using 1(2) 1(1) [OF ge, of "acc @ [ucast v OR 0x80]"] var_first_byte [of v]
      by (subst read_var_prefix.simps) (simp add: encode_var_u64_ge MAX_VAR_U64_LEN_def)
  qed
qed


lemma of_nat_not_neg: "n < 2 ^ 63 \<Longrightarrow> \<not> (of_nat n :: i64) <s 0"
  using f64_sign_uint [of "of_nat n"] sless_zero_bit [of "of_nat n"]
  by (simp add: f64_is_sign_positive_def uint_nat unat_of_nat)

lemma file_decode_encode_compact:
  assumes "length data < 2 ^ 63"
  shows "file_decode_compact_bytes (encode_compact_bytes data @ rest) = Ok (data, rest)"
proof -
  let ?n = "of_nat (length data) :: i64"
  obtain u where u: "encode_var_i64 ?n = encode_var_u64 u"
    by (simp add: encode_var_i64_def Let_def)
  then have "read_var_prefix (encode_compact_bytes data @ rest) [] = Ok (encode_var_i64 ?n, data @ rest)"
    using read_var_prefix_var_u64 [of "[]" u "data @ rest"] length_encode_var_u64_le [of u]
    by (simp add: encode_compact_bytes_def MAX_VAR_U64_LEN_def)
  then show ?thesis
    using assms of_nat_not_neg [OF assms]
    by (simp add: file_decode_compact_bytes_def var_i64_codec.decode_whole unat_of_nat)
qed


lemma next_prefix_of_Cons:
  "next_prefix_of (b # k) =
     (if next_prefix_of k \<noteq> [] then b # next_prefix_of k else if b = 0xff then [] else [b + 1])"
proof -
  let ?ff = "\<lambda>b. b = (0xff :: u8)"
  have "dropWhile ?ff (rev k @ [b]) =
      (if dropWhile ?ff (rev k) = [] then dropWhile ?ff [b] else dropWhile ?ff (rev k) @ [b])"
    by (simp add: dropWhile_append dropWhile_eq_Nil_conv)
  then show ?thesis
    unfolding next_prefix_of_def next_prefix_loop_eq
    by (cases "dropWhile ?ff (rev k)") (simp_all del: dropWhile_eq_Nil_conv)
qed

lemma u8_less_Suc: "b \<noteq> 0xff \<Longrightarrow> c < b + 1 \<longleftrightarrow> c \<le> (b :: u8)"
proof -
  assume "b \<noteq> 0xff"
  then have "unat b + 1 < 256"
    using unsigned_less [of b, where ?'a = nat] by (simp add: word_unat_eq_iff)
  then show ?thesis by (simp add: word_less_nat_alt word_le_nat_alt unat_word_ariths less_Suc_eq_le)
qed

lemma next_prefix_range:
  "k \<le> x \<and> (next_prefix_of k = [] \<or> x < next_prefix_of k) \<longleftrightarrow> take (length k) x = k"
proof (induction k arbitrary: x)
  case Nil
  then show ?case by (simp add: next_prefix_of_def)
next
  case (Cons b k)
  show ?case
  proof (cases x)
    case Nil
    then show ?thesis by simp
  next
    case (Cons c xs)
    have ff: "c \<le> 0xff" for c :: u8
      using unsigned_less [of c, where ?'a = nat] by (simp add: word_le_nat_alt)
    show ?thesis
      using Cons.IH [of xs] u8_less_Suc [of b c] ff [of c] local.Cons
      by (auto simp: next_prefix_of_Cons)
  qed
qed

subsection \<open>The encodings meet the contract\<close>

interpretation bytes_codec: ordered_codec encode_bytes "\<lambda>data. decode_bytes data False" "(<)"
  by unfold_locales
    (simp_all add: encode_bytes_def decode_bytes_iff encode_bytes_less_iff)

lemma encode_bytes_desc_less_iff: "encode_bytes_desc k < encode_bytes_desc l \<longleftrightarrow> l < k"
proof -
  have desc: "encode_bytes_desc k = map (\<lambda>b. NOT b) (encode_bytes k)" for k
    by (simp add: encode_bytes_desc_def encode_bytes_def encode_order_bytes_desc)
  have mono: "encode_bytes_desc l < encode_bytes_desc k" if "k < l" for k l
    unfolding desc
  proof (rule map_NOT_less)
    show "encode_bytes k < encode_bytes l" using that by (simp add: bytes_codec.encode_less_iff)
    show "\<nexists>t. encode_bytes l = encode_bytes k @ t"
      using that bytes_codec.prefix_free [of l "[]" k] by auto
  qed
  then show ?thesis
    by (cases k l rule: linorder_cases) (auto dest: less_asym)
qed

interpretation bytes_desc_codec: ordered_codec encode_bytes_desc "\<lambda>data. decode_bytes data True" "(>)"
  by unfold_locales
    (simp_all add: encode_bytes_desc_def [symmetric] decode_bytes_iff encode_bytes_desc_less_iff)

subsection \<open>Properties\<close>

text \<open>
  C31: the memory-comparable encoding is order preserving, and stays so when anything is appended.
  Two encoded keys with suffixes compare as the raw keys do, and as the suffixes when the keys are
  equal; the descending encoding reverses the order of the keys.
\<close>

theorem encode_bytes_order:
  "(encode_bytes k @ r < encode_bytes l @ s \<longleftrightarrow> k < l \<or> k = l \<and> r < s) \<and>
   (encode_bytes_desc k @ r < encode_bytes_desc l @ s \<longleftrightarrow> l < k \<or> k = l \<and> r < s)"
  using bytes_codec.encode_append_less_iff bytes_desc_codec.encode_append_less_iff by blast

text \<open>
  C32: \<^verbatim>\<open>decode_bytes\<close> accepts exactly the canonical encodings: it returns a key and a rest
  precisely when the input is the encoding of the key followed by the rest. So every key round
  trips, and no other padding or marker is accepted.
\<close>

theorem decode_bytes_canonical:
  "decode_bytes data desc = Ok (k, rest) \<longleftrightarrow> data = encode_order_bytes k desc @ rest"
  by (rule decode_bytes_iff)

text \<open>
  C33: the in-place decoder has the outcome of \<^verbatim>\<open>decode_bytes\<close> on every input, leaves the
  decoded key in the buffer on success, and its raw copies never leave the buffer.
\<close>

theorem decode_bytes_in_place_agrees:
  "fst (decode_bytes_in_place data desc) = map_ok (\<lambda>_. ()) (decode_bytes data desc) \<and>
   fst (decode_bytes_in_place data desc) \<noteq> Panic \<and>
   (decode_bytes_in_place data desc = (Ok (), k) \<longleftrightarrow> (\<exists>rest. decode_bytes data desc = Ok (k, rest)))"
  using decode_bytes_in_place_loop_eq [of data data 0 0 desc] decode_bytes_not_Panic [of data desc "[]" 0]
  by (auto simp: decode_bytes_in_place_def decode_bytes_def result_simps prod_eq_iff)

text \<open>
  The function \<^verbatim>\<open>is_encoded_from\<close>, which compares group by group from the end without decoding, decides
  whether its first argument is the encoding of its second.
\<close>

theorem is_encoded_from_correct:
  "is_encoded_from encoded raw desc \<longleftrightarrow> encoded = encode_order_bytes raw desc"
  by (rule is_encoded_from_iff)

text \<open>
  C34: the length of an encoding is \<^verbatim>\<open>max_encoded_bytes_size\<close> of the key's length, and
  \<^verbatim>\<open>encoded_bytes_len\<close> finds it in front of any suffix.
\<close>

theorem encoded_bytes_len_correct:
  "length (encode_order_bytes k desc) = max_encoded_bytes_size (length k) \<and>
   encoded_bytes_len (encode_order_bytes k desc @ rest) desc = max_encoded_bytes_size (length k)"
  using length_encode_order_bytes [of k desc] length_encode_order_bytes [of k False]
    encoded_bytes_len_loop_encoded [of 0 "mc_encode 8 k @ rest" k rest]
    encoded_bytes_len_loop_encoded [of 0 "mc_encode 8 k @ map (\<lambda>b. NOT b) rest" k]
  by (cases desc) (simp_all add: encoded_bytes_len_def encoded_bytes_len_loop_desc enc_consts
      encode_order_bytes_asc encode_order_bytes_desc comp_def)

text \<open>
  C35: compact byte strings round trip through both decoders, and \<^verbatim>\<open>encoded_compact_len\<close> is the
  length of the first one.
\<close>

theorem compact_bytes_roundtrip:
  assumes "length data < 2 ^ 63"
  shows "decode_compact_bytes (encode_compact_bytes data @ rest) = Ok (data, rest) \<and>
    file_decode_compact_bytes (encode_compact_bytes data @ rest) = Ok (data, rest) \<and>
    encoded_compact_len (encode_compact_bytes data @ rest) =
      of_nat (length (encode_compact_bytes data))"
  using assms decode_encode_compact file_decode_encode_compact encoded_compact_len_encoded by blast

theorem compact_bytes_roundtrip_witness:
  "length [1, 2 :: u8] < 2 ^ 63 \<and>
   decode_compact_bytes (encode_compact_bytes [1, 2] @ [3]) = Ok ([1, 2], [3])"
  using compact_bytes_roundtrip [of "[1, 2]" "[3]"] by simp

text \<open>
  C36: the half-open range from a key to its \<^verbatim>\<open>next_prefix_of\<close>, where an empty end means no
  upper bound, holds exactly the keys that start with the key.
\<close>

theorem next_prefix_of_range:
  "k \<le> x \<and> (next_prefix_of k = [] \<or> x < next_prefix_of k) \<longleftrightarrow> take (length k) x = k"
  by (rule next_prefix_range)

end
