(* ===== verification/Timestamp.thy ===== *)
theory Timestamp
  imports Prelude
begin

text \<open>
  Timestamps and timestamp sets (\<^verbatim>\<open>components/txn_types/src/timestamp.rs\<close>). A
  \<^verbatim>\<open>TimeStamp\<close> is a transparent wrapper of a \<^verbatim>\<open>u64\<close>: the upper 46 bits are physical
  milliseconds and the lower 18 bits a logical counter.
\<close>

subsection \<open>Definitions\<close>

type_synonym timestamp = u64

definition TSO_PHYSICAL_SHIFT_BITS :: nat where "TSO_PHYSICAL_SHIFT_BITS = 18"

definition ts_compose :: "u64 \<Rightarrow> u64 \<Rightarrow> timestamp" where
  "ts_compose physical logical = push_bit TSO_PHYSICAL_SHIFT_BITS physical + logical"

definition ts_zero :: timestamp where "ts_zero = 0"
definition ts_max :: timestamp where "ts_max = 0xffffffffffffffff"

definition ts_physical :: "timestamp \<Rightarrow> u64" where
  "ts_physical ts = drop_bit TSO_PHYSICAL_SHIFT_BITS ts"

definition ts_logical :: "timestamp \<Rightarrow> u64" where
  "ts_logical ts = ts AND (push_bit TSO_PHYSICAL_SHIFT_BITS 1 - 1)"

definition ts_next :: "timestamp \<Rightarrow> (timestamp, 'e) result" where
  "ts_next ts = assert_then (ts < ts_max) (Ok (ts + 1))"

definition ts_prev :: "timestamp \<Rightarrow> (timestamp, 'e) result" where
  "ts_prev ts = assert_then (ts > 0) (Ok (ts - 1))"

text \<open>The in-place forms return the new value of \<open>self\<close>.\<close>

definition ts_incr :: "timestamp \<Rightarrow> (timestamp, 'e) result" where
  "ts_incr ts = assert_then (ts < ts_max) (Ok (ts + 1))"

definition ts_decr :: "timestamp \<Rightarrow> (timestamp, 'e) result" where
  "ts_decr ts = assert_then (ts > 0) (Ok (ts - 1))"

definition ts_is_zero :: "timestamp \<Rightarrow> bool" where "ts_is_zero ts \<longleftrightarrow> ts = 0"
definition ts_is_max :: "timestamp \<Rightarrow> bool" where "ts_is_max ts \<longleftrightarrow> ts = ts_max"

definition TS_SET_USE_VEC_LIMIT :: nat where "TS_SET_USE_VEC_LIMIT = 8"

datatype ts_set = TsEmpty | TsVec "timestamp list" | TsHashSet "timestamp set"

definition ts_set_new :: "timestamp list \<Rightarrow> ts_set" where
  "ts_set_new ts =
     (if ts = [] then TsEmpty
      else if length ts \<le> TS_SET_USE_VEC_LIMIT then TsVec ts
      else TsHashSet (set ts))"

definition ts_set_vec :: "timestamp list \<Rightarrow> ts_set" where
  "ts_set_vec ts = (if ts = [] then TsEmpty else TsVec ts)"

definition ts_set_from_u64s :: "u64 list \<Rightarrow> ts_set" where
  "ts_set_from_u64s ts = ts_set_new ts"

definition ts_set_vec_from_u64s :: "u64 list \<Rightarrow> ts_set" where
  "ts_set_vec_from_u64s ts = ts_set_vec ts"

primrec ts_set_contains :: "ts_set \<Rightarrow> timestamp \<Rightarrow> bool" where
  "ts_set_contains TsEmpty ts \<longleftrightarrow> False"
| "ts_set_contains (TsVec vec) ts \<longleftrightarrow> List.member vec ts"
| "ts_set_contains (TsHashSet s) ts \<longleftrightarrow> ts \<in> s"

subsection \<open>Lemmas\<close>

lemma ts_max_minus_1: "ts_max = - 1"
  by (simp add: ts_max_def)

lemma ts_le_max [simp]: "ts \<le> ts_max"
  by (simp add: ts_max_minus_1)

lemma ts_less_max_iff: "ts < ts_max \<longleftrightarrow> ts \<noteq> ts_max"
  using ts_le_max [of ts] by (simp add: order_less_le del: ts_le_max)

lemma ts_set_contains_new [simp]: "ts_set_contains (ts_set_new xs) ts \<longleftrightarrow> ts \<in> set xs"
  by (simp add: ts_set_new_def)

lemma ts_set_contains_vec [simp]: "ts_set_contains (ts_set_vec xs) ts \<longleftrightarrow> ts \<in> set xs"
  by (simp add: ts_set_vec_def)

lemma ts_prev_Ok: "0 < ts \<Longrightarrow> ts_prev ts = Ok (ts - 1)"
  by (simp add: ts_prev_def)

lemma ts_le_prev_iff: "0 < ts \<Longrightarrow> c \<le> ts - 1 \<longleftrightarrow> c < (ts :: timestamp)"
  by (cases "ts = 0") (auto simp: word_le_nat_alt word_less_nat_alt unat_minus_one)

lemma ts_logical_take_bit: "ts_logical ts = take_bit 18 ts"
  by (simp add: ts_logical_def TSO_PHYSICAL_SHIFT_BITS_def take_bit_eq_mask mask_eq_decr_exp)

lemma ts_compose_parts: "ts_compose (ts_physical ts) (ts_logical ts) = ts"
  unfolding ts_logical_take_bit ts_compose_def ts_physical_def TSO_PHYSICAL_SHIFT_BITS_def
  by (rule bits_ident)

lemma unat_ts_compose:
  assumes "unat p < 2 ^ 46" "unat l < 2 ^ 18"
  shows "unat (ts_compose p l) = unat p * 2 ^ 18 + unat l"
  using assms
  by (simp add: ts_compose_def TSO_PHYSICAL_SHIFT_BITS_def push_bit_eq_mult unat_word_ariths)

lemma ts_parts_compose:
  assumes "unat p < 2 ^ 46" "unat l < 2 ^ 18"
  shows "ts_physical (ts_compose p l) = p" and "ts_logical (ts_compose p l) = l"
  using assms unat_ts_compose [OF assms]
  by (simp_all add: word_unat_eq_iff ts_physical_def TSO_PHYSICAL_SHIFT_BITS_def drop_bit_eq_div
      unat_div unat_mod ts_logical_take_bit take_bit_eq_mod)

subsection \<open>Properties\<close>

text \<open>
  A timestamp is its physical and logical parts: composing the parts of a timestamp gives it
  back, parts within 46 and 18 bits are recovered from their composition, and the order of such
  timestamps is the order of the pairs.
\<close>

theorem ts_compose_roundtrip:
  assumes "unat p < 2 ^ 46" "unat l < 2 ^ 18" "unat q < 2 ^ 46" "unat m < 2 ^ 18"
  shows "ts_compose (ts_physical ts) (ts_logical ts) = ts \<and>
    ts_physical (ts_compose p l) = p \<and> ts_logical (ts_compose p l) = l \<and>
    (ts_compose p l < ts_compose q m \<longleftrightarrow> p < q \<or> p = q \<and> l < m)"
proof -
  have "ts_compose p l < ts_compose q m \<longleftrightarrow> p < q \<or> p = q \<and> l < m"
    using assms less_div_mod_iff [of "2 ^ 18" "unat (ts_compose p l)" "unat (ts_compose q m)"]
    by (simp add: word_less_nat_alt word_unat_eq_iff unat_ts_compose)
  then show ?thesis
    using ts_compose_parts ts_parts_compose [OF assms(1,2)] by blast
qed

theorem ts_compose_roundtrip_witness:
  "unat (1 :: u64) < 2 ^ 46 \<and> unat (2 :: u64) < 2 ^ 18 \<and>
   ts_compose (ts_physical 0x40002) (ts_logical 0x40002) = 0x40002 \<and>
   ts_physical (ts_compose 1 2) = 1 \<and> ts_logical (ts_compose 1 2) = 2 \<and>
   ts_compose 1 2 < ts_compose 1 3"
  using ts_compose_roundtrip [of 1 2 1 3 "0x40002"] by simp

end
