(* ===== verification/Txn_Types.thy ===== *)
theory Txn_Types
  imports Codec_Bytes Timestamp "HOL-Library.AList"
begin

text \<open>
  Keys, mutations, old values and write-batch flags (\<^verbatim>\<open>components/txn_types/src/types.rs\<close>).
  A \<^verbatim>\<open>Key\<close> wraps the encoded byte string; whether it carries a timestamp suffix is up to its
  user. The hash function of \<^verbatim>\<open>gen_hash\<close> is a parameter.
\<close>

subsection \<open>Keys\<close>

type_synonym key = bytes
type_synonym val = bytes

definition SHORT_VALUE_MAX_LEN :: nat where "SHORT_VALUE_MAX_LEN = 255"
definition SHORT_VALUE_PREFIX :: u8 where "SHORT_VALUE_PREFIX = 118"

definition is_short_value :: "val \<Rightarrow> bool" where
  "is_short_value v \<longleftrightarrow> length v \<le> SHORT_VALUE_MAX_LEN"

definition from_raw :: "bytes \<Rightarrow> key" where
  "from_raw k = encode_order_bytes k False"

definition from_raw_maybe_unbounded :: "bytes \<Rightarrow> key option" where
  "from_raw_maybe_unbounded k = (if k = [] then None else Some (from_raw k))"

definition into_raw :: "key \<Rightarrow> (bytes, codec_error) result" where
  "into_raw k =
     (case decode_bytes_in_place k False of
        (Ok _, k) \<Rightarrow> Ok k
      | (Err e, _) \<Rightarrow> Err e
      | (Panic, _) \<Rightarrow> Panic)"

definition to_raw :: "key \<Rightarrow> (bytes, codec_error) result" where
  "to_raw k = map_ok fst (decode_bytes k False)"

definition append_ts :: "key \<Rightarrow> timestamp \<Rightarrow> key" where
  "append_ts k ts = k @ encode_u64_desc ts"

definition decode_ts_from :: "bytes \<Rightarrow> (timestamp, codec_error) result" where
  "decode_ts_from k =
     (let len = length k in
      if len < U64_SIZE then Err KeyLength
      else map_ok fst (decode_u64_desc (drop (len - U64_SIZE) k)))"

definition decode_ts :: "key \<Rightarrow> (timestamp, codec_error) result" where
  "decode_ts k = decode_ts_from k"

definition truncate_ts :: "key \<Rightarrow> (key, codec_error) result" where
  "truncate_ts k =
     (let len = length k in
      if len < U64_SIZE then Err KeyLength else Ok (take (len - U64_SIZE) k))"

definition split_on_ts_for :: "bytes \<Rightarrow> (bytes \<times> timestamp, codec_error) result" where
  "split_on_ts_for k =
     (if length k < U64_SIZE then Err KeyLength
      else
        let pos = length k - U64_SIZE in
        map_ok (\<lambda>(ts, _). (take pos k, ts)) (decode_u64_desc (drop pos k)))"

definition truncate_ts_for :: "bytes \<Rightarrow> (bytes, codec_error) result" where
  "truncate_ts_for k =
     (if length k < U64_SIZE then Err KeyLength else Ok (take (length k - U64_SIZE) k))"

definition decode_ts_bytes_from :: "bytes \<Rightarrow> (bytes, codec_error) result" where
  "decode_ts_bytes_from k =
     (if length k < U64_SIZE then Err KeyLength else Ok (drop (length k - U64_SIZE) k))"

text \<open>\<^verbatim>\<open>NativeEndian::read_u64\<close> on a little-endian machine: the first eight bytes.\<close>

definition read_u64_ne :: "bytes \<Rightarrow> u64" where
  "read_u64_ne bs = from_be_bytes (rev (take 8 bs))"

definition is_user_key_eq :: "bytes \<Rightarrow> bytes \<Rightarrow> bool" where
  "is_user_key_eq ts_encoded_key user_key \<longleftrightarrow>
     (let user_key_len = length user_key in
      if length ts_encoded_key \<noteq> user_key_len + U64_SIZE then False
      else if user_key_len \<ge> U64_SIZE then
        if read_u64_ne (drop (user_key_len - 8) ts_encoded_key) \<noteq>
           read_u64_ne (drop (user_key_len - 8) user_key)
        then False
        else take (user_key_len - 8) ts_encoded_key = take (user_key_len - 8) user_key
      else take user_key_len ts_encoded_key = user_key)"

definition key_is_encoded_from :: "key \<Rightarrow> bytes \<Rightarrow> bool" where
  "key_is_encoded_from k raw_key = is_encoded_from k raw_key False"

definition gen_hash :: "(bytes \<Rightarrow> u64) \<Rightarrow> key \<Rightarrow> (u64, codec_error) result" where
  "gen_hash fingerprint64 k = map_ok fingerprint64 (unwrap_result (to_raw k))"

subsection \<open>Mutations\<close>

datatype mutation_type = MtPut | MtDelete | MtLock | MtInsert | MtOther

datatype assertion = ANone | AExist | ANotExist

datatype mutation =
    MPut "key \<times> val" assertion
  | MDelete key assertion
  | MLock key assertion
  | MInsert "key \<times> val" assertion
  | MCheckNotExists key assertion

primrec mutation_key :: "mutation \<Rightarrow> key" where
  "mutation_key (MPut kv a) = fst kv"
| "mutation_key (MDelete k a) = k"
| "mutation_key (MLock k a) = k"
| "mutation_key (MInsert kv a) = fst kv"
| "mutation_key (MCheckNotExists k a) = k"

primrec mutation_mutation_type :: "mutation \<Rightarrow> mutation_type" where
  "mutation_mutation_type (MPut kv a) = MtPut"
| "mutation_mutation_type (MDelete k a) = MtDelete"
| "mutation_mutation_type (MLock k a) = MtLock"
| "mutation_mutation_type (MInsert kv a) = MtInsert"
| "mutation_mutation_type (MCheckNotExists k a) = MtOther"

primrec into_key_value :: "mutation \<Rightarrow> key \<times> val option" where
  "into_key_value (MPut kv a) = (fst kv, Some (snd kv))"
| "into_key_value (MDelete k a) = (k, None)"
| "into_key_value (MLock k a) = (k, None)"
| "into_key_value (MInsert kv a) = (fst kv, Some (snd kv))"
| "into_key_value (MCheckNotExists k a) = (k, None)"

primrec should_not_exists :: "mutation \<Rightarrow> bool" where
  "should_not_exists (MPut kv a) = False"
| "should_not_exists (MDelete k a) = False"
| "should_not_exists (MLock k a) = False"
| "should_not_exists (MInsert kv a) = True"
| "should_not_exists (MCheckNotExists k a) = True"

primrec should_not_write :: "mutation \<Rightarrow> bool" where
  "should_not_write (MPut kv a) = False"
| "should_not_write (MDelete k a) = False"
| "should_not_write (MLock k a) = False"
| "should_not_write (MInsert kv a) = False"
| "should_not_write (MCheckNotExists k a) = True"

primrec get_assertion :: "mutation \<Rightarrow> assertion" where
  "get_assertion (MPut kv a) = a"
| "get_assertion (MDelete k a) = a"
| "get_assertion (MLock k a) = a"
| "get_assertion (MInsert kv a) = a"
| "get_assertion (MCheckNotExists k a) = a"

primrec set_assertion :: "mutation \<Rightarrow> assertion \<Rightarrow> mutation" where
  "set_assertion (MPut kv a) b = MPut kv b"
| "set_assertion (MDelete k a) b = MDelete k b"
| "set_assertion (MLock k a) b = MLock k b"
| "set_assertion (MInsert kv a) b = MInsert kv b"
| "set_assertion (MCheckNotExists k a) b = MCheckNotExists k b"

definition make_put :: "key \<Rightarrow> val \<Rightarrow> mutation" where "make_put k v = MPut (k, v) ANone"
definition make_delete :: "key \<Rightarrow> mutation" where "make_delete k = MDelete k ANone"
definition make_lock :: "key \<Rightarrow> mutation" where "make_lock k = MLock k ANone"
definition make_insert :: "key \<Rightarrow> val \<Rightarrow> mutation" where "make_insert k v = MInsert (k, v) ANone"

definition make_check_not_exists :: "key \<Rightarrow> mutation" where
  "make_check_not_exists k = MCheckNotExists k ANone"

subsection \<open>Old values\<close>

datatype old_value =
    OvValue val
  | OvValueTimeStamp timestamp
  | OvNone
  | OvUnspecified
  | OvSeekWrite key

definition ov_seek_write :: "bytes \<Rightarrow> u64 \<Rightarrow> old_value" where
  "ov_seek_write raw_user_key ts = OvSeekWrite (append_ts (from_raw raw_user_key) ts)"

fun ov_resolved :: "old_value \<Rightarrow> bool" where
  "ov_resolved (OvValue _) = True"
| "ov_resolved (OvValueTimeStamp _) = True"
| "ov_resolved OvNone = True"
| "ov_resolved OvUnspecified = False"
| "ov_resolved (OvSeekWrite _) = False"

fun ov_finalized :: "old_value \<Rightarrow> (val option, 'e) result" where
  "ov_finalized (OvValue v) = Ok (Some v)"
| "ov_finalized OvNone = Ok None"
| "ov_finalized OvUnspecified = Ok None"
| "ov_finalized _ = Panic"

fun ov_value_size :: "old_value \<Rightarrow> nat" where
  "ov_value_size (OvValue v) = length v"
| "ov_value_size _ = 0"

type_synonym old_values = "(key \<times> (old_value \<times> mutation_type option)) list"

definition insert_old_value_if_resolved ::
    "old_values \<Rightarrow> key \<Rightarrow> timestamp \<Rightarrow> old_value \<Rightarrow> mutation_type option \<Rightarrow> old_values" where
  "insert_old_value_if_resolved ovs k start_ts ov mt =
     (if ov_resolved ov then AList.update (append_ts k start_ts) (ov, mt) ovs else ovs)"

record txn_extra =
  te_old_values :: old_values
  te_one_pc :: bool
  te_allowed_in_flashback :: bool

definition txn_extra_is_empty :: "txn_extra \<Rightarrow> bool" where
  "txn_extra_is_empty e \<longleftrightarrow> te_old_values e = []"

subsection \<open>Write-batch flags\<close>

definition WBF_ONE_PC :: u64 where "WBF_ONE_PC = 0x01"
definition WBF_STALE_READ :: u64 where "WBF_STALE_READ = 0x02"
definition WBF_TRANSFER_LEADER_PROPOSAL :: u64 where "WBF_TRANSFER_LEADER_PROPOSAL = 0x04"
definition WBF_FLASHBACK :: u64 where "WBF_FLASHBACK = 0x08"
definition WBF_PRE_FLUSH_FINISHED :: u64 where "WBF_PRE_FLUSH_FINISHED = 0x10"

definition wbf_all :: u64 where
  "wbf_all = WBF_ONE_PC OR WBF_STALE_READ OR WBF_TRANSFER_LEADER_PROPOSAL OR WBF_FLASHBACK OR
     WBF_PRE_FLUSH_FINISHED"

definition from_bits_check :: "u64 \<Rightarrow> (u64, 'e) result" where
  "from_bits_check bits = (if bits AND NOT wbf_all \<noteq> 0 then Panic else Ok bits)"

subsection \<open>Last changes\<close>

datatype last_change =
    LcUnknown
  | LcExist (lc_last_change_ts: timestamp) (lc_estimated_versions: u64)
  | LcNotExist

definition make_exist :: "timestamp \<Rightarrow> u64 \<Rightarrow> (last_change, 'e) result" where
  "make_exist last_change_ts versions =
     assert_then (\<not> ts_is_zero last_change_ts)
       (assert_then (versions > 0) (Ok (LcExist last_change_ts versions)))"

primrec to_parts :: "last_change \<Rightarrow> timestamp \<times> u64" where
  "to_parts LcUnknown = (ts_zero, 0)"
| "to_parts (LcExist ts n) = (ts, n)"
| "to_parts LcNotExist = (ts_zero, 1)"

definition from_parts :: "timestamp \<Rightarrow> u64 \<Rightarrow> (last_change, 'e) result" where
  "from_parts last_change_ts versions =
     (if ts_is_zero last_change_ts then
        if versions > 0 then Ok LcNotExist else Ok LcUnknown
      else make_exist last_change_ts versions)"

text \<open>What \<^verbatim>\<open>make_exist\<close> guarantees of every value the code builds.\<close>

primrec last_change_wf :: "last_change \<Rightarrow> bool" where
  "last_change_wf LcUnknown = True"
| "last_change_wf (LcExist ts n) \<longleftrightarrow> ts \<noteq> 0 \<and> n \<noteq> 0"
| "last_change_wf LcNotExist = True"

subsection \<open>Lemmas on keys\<close>

lemma length_encode_u64 [simp]: "length (encode_u64 ts) = 8"
  by (simp add: encode_u64_def)

lemma length_encode_u64_desc [simp]: "length (encode_u64_desc ts) = 8"
  by (simp add: encode_u64_desc_def)

lemma length_append_ts [simp]: "length (append_ts k ts) = length k + 8"
  by (simp add: append_ts_def)

lemma append_ts_eq_iff [simp]: "append_ts k ts = append_ts l us \<longleftrightarrow> k = l \<and> ts = us"
  by (auto simp: append_ts_def u64_desc_codec.encode_inj)

lemma append_ts_less_same [simp]: "append_ts k ts < append_ts k us \<longleftrightarrow> us < ts"
  by (simp add: append_ts_def encode_u64_desc_less_iff)

lemma append_ts_le_same [simp]: "append_ts k ts \<le> append_ts k us \<longleftrightarrow> us \<le> ts"
  by (metis append_ts_eq_iff append_ts_less_same order_le_less)

lemma decode_ts_append [simp]: "decode_ts (append_ts k ts) = Ok ts"
  using decode_encode_u64_desc [of ts "[]"]
  by (simp add: decode_ts_def decode_ts_from_def append_ts_def U64_SIZE_def)

lemma decode_ts_from_append [simp]: "decode_ts_from (append_ts k ts) = Ok ts"
  using decode_ts_append by (simp add: decode_ts_def)

lemma truncate_ts_append [simp]: "truncate_ts (append_ts k ts) = Ok k"
  by (simp add: truncate_ts_def append_ts_def U64_SIZE_def)

lemma truncate_ts_for_append [simp]: "truncate_ts_for (append_ts k ts) = Ok k"
  by (simp add: truncate_ts_for_def append_ts_def U64_SIZE_def)

lemma split_on_ts_for_append [simp]: "split_on_ts_for (append_ts k ts) = Ok (k, ts)"
  using decode_encode_u64_desc [of ts "[]"]
  by (simp add: split_on_ts_for_def append_ts_def U64_SIZE_def)

lemma to_raw_from_raw [simp]: "to_raw (from_raw k) = Ok k"
  using decode_bytes_iff [of "from_raw k" False k "[]"] by (simp add: to_raw_def from_raw_def)

lemma into_raw_eq: "into_raw k = to_raw k"
  using decode_bytes_in_place_loop_eq [of k k 0 0 False]
  by (cases "decode_bytes_in_place k False"; cases "decode_bytes k False")
    (auto simp: into_raw_def to_raw_def decode_bytes_in_place_def decode_bytes_def)

lemma from_raw_less_iff [simp]: "from_raw k < from_raw l \<longleftrightarrow> k < l"
  by (simp add: from_raw_def encode_bytes_less_iff)

lemma from_raw_eq_iff [simp]: "from_raw k = from_raw l \<longleftrightarrow> k = l"
  using bytes_codec.encode_inj [of k l] by (simp add: encode_bytes_def from_raw_def)

lemma append_ts_from_raw_less:
  "append_ts (from_raw k) ts < append_ts (from_raw l) us \<longleftrightarrow> k < l \<or> k = l \<and> us < ts"
  using bytes_codec.encode_append_less_iff [of k "encode_u64_desc ts" l "encode_u64_desc us"]
  by (simp add: append_ts_def from_raw_def encode_bytes_def encode_u64_desc_less_iff)

lemma eight_bytes: "length bs = 8 \<Longrightarrow> \<exists>ts. bs = encode_u64_desc ts"
  using to_from_be_bytes [of bs, where 'a = 64]
  by (intro exI [of _ "NOT (from_be_bytes bs)"]) (simp add: encode_u64_desc_def)

lemma from_be_bytes_eq_iff:
  assumes "length bs = 8" "length cs = 8"
  shows "(from_be_bytes bs :: u64) = from_be_bytes cs \<longleftrightarrow> bs = cs"
proof -
  have "to_be_bytes (from_be_bytes xs :: u64) = xs" if "length xs = 8" for xs
    using that to_from_be_bytes [of xs, where 'a = 64] by simp
  with assms show ?thesis by metis
qed

lemma is_user_key_eq_take:
  "is_user_key_eq tk uk \<longleftrightarrow> length tk = length uk + 8 \<and> take (length uk) tk = uk"
proof (cases "length tk = length uk + 8 \<and> 8 \<le> length uk")
  case True
  let ?n = "length uk - 8"
  have "read_u64_ne (drop ?n tk) = read_u64_ne (drop ?n uk) \<longleftrightarrow> take 8 (drop ?n tk) = drop ?n uk"
    using True by (simp add: read_u64_ne_def from_be_bytes_eq_iff)
  moreover have "take (length uk) tk = uk \<longleftrightarrow>
      take ?n tk @ take 8 (drop ?n tk) = take ?n uk @ drop ?n uk"
    using True take_add [of ?n 8 tk] by simp
  moreover have "\<dots> \<longleftrightarrow> take ?n tk = take ?n uk \<and> take 8 (drop ?n tk) = drop ?n uk"
    using True by (intro append_eq_append_conv) simp
  ultimately show ?thesis
    using True by (auto simp: is_user_key_eq_def U64_SIZE_def Let_def)
qed (auto simp: is_user_key_eq_def U64_SIZE_def Let_def)

lemma is_user_key_eq_iff: "is_user_key_eq tk uk \<longleftrightarrow> (\<exists>ts. tk = append_ts uk ts)"
proof
  assume "is_user_key_eq tk uk"
  then have "length tk = length uk + 8" "take (length uk) tk = uk"
    by (simp_all add: is_user_key_eq_take)
  moreover then obtain ts where "drop (length uk) tk = encode_u64_desc ts"
    using eight_bytes [of "drop (length uk) tk"] by auto
  ultimately show "\<exists>ts. tk = append_ts uk ts"
    by (metis append_take_drop_id append_ts_def)
qed (auto simp: is_user_key_eq_take append_ts_def)

lemma is_user_key_eq_append_ts [simp]: "is_user_key_eq (append_ts k ts) l \<longleftrightarrow> k = l"
  by (auto simp: is_user_key_eq_iff)

lemma from_parts_to_parts: "last_change_wf lc \<Longrightarrow> (case to_parts lc of (ts, n) \<Rightarrow> from_parts ts n) = Ok lc"
  by (cases lc) (auto simp: from_parts_def make_exist_def ts_is_zero_def ts_zero_def word_gt_0)

lemma from_parts_wf: "from_parts ts n = Ok lc \<Longrightarrow> last_change_wf lc"
  by (auto simp: from_parts_def make_exist_def ts_is_zero_def word_gt_0 result_simps
      split: if_splits)

subsection \<open>Properties\<close>

text \<open>
  C37: the versions of the keys are ordered the way the multi-version readers rely on. Timestamped
  keys of different user keys keep the order of the raw keys, whatever the timestamps; the versions
  of one key are in descending order of timestamp.
\<close>

theorem versioned_key_order:
  "append_ts (from_raw k) ts < append_ts (from_raw l) us \<longleftrightarrow> k < l \<or> k = l \<and> us < ts"
  by (rule append_ts_from_raw_less)

text \<open>
  C38: splitting undoes appending. From a timestamped key the timestamp and the user key are read
  back, from the user key the raw key, by both raw decoders.
\<close>

theorem key_ts_roundtrip:
  "decode_ts (append_ts k ts) = Ok ts \<and> truncate_ts (append_ts k ts) = Ok k \<and>
   split_on_ts_for (append_ts k ts) = Ok (k, ts) \<and>
   to_raw (from_raw r) = Ok r \<and> into_raw (from_raw r) = Ok r \<and> into_raw k = to_raw k"
  by (simp add: into_raw_eq)

text \<open>
  \<^verbatim>\<open>is_user_key_eq\<close>, which compares the last eight bytes as one machine word before the
  rest, decides whether its first argument is its second with a timestamp appended.
\<close>

theorem is_user_key_eq_correct: "is_user_key_eq tk uk \<longleftrightarrow> (\<exists>ts. tk = append_ts uk ts)"
  by (rule is_user_key_eq_iff)

text \<open>
  The stored form of a last change determines it: the parts of every value the constructor
  allows are read back, and what \<^verbatim>\<open>from_parts\<close> accepts is such a value.
\<close>

theorem last_change_roundtrip:
  assumes "last_change_wf lc"
  shows "from_parts (fst (to_parts lc)) (snd (to_parts lc)) = Ok lc \<and>
    (from_parts ts n = Ok lc' \<longrightarrow> last_change_wf lc')"
  using from_parts_to_parts [OF assms] from_parts_wf by (auto split: prod.splits)

theorem last_change_roundtrip_witness:
  "last_change_wf (LcExist 5 2) \<and>
   from_parts (fst (to_parts (LcExist 5 2))) (snd (to_parts (LcExist 5 2))) = Ok (LcExist 5 2)"
  using last_change_roundtrip [of "LcExist 5 2" 0 0 LcUnknown] by simp

end
