(* ===== verification/Lock_Record.thy ===== *)
theory Lock_Record
  imports Txn_Types
begin

text \<open>
  Lock records and their conflict checks (\<^verbatim>\<open>components/txn_types/src/lock.rs\<close>, with the error
  type of \<^verbatim>\<open>lib.rs\<close>). \<^verbatim>\<open>Lock::parse\<close> reads a list of tagged optional fields in a loop that
  stops at the first unknown tag; its panics on a truncated short value, on a last change that
  \<^verbatim>\<open>make_exist\<close> rejects and on an impossible allocation are outcomes \<open>Panic\<close>.
\<close>

subsection \<open>Definitions\<close>

datatype lock_type = LtPut | LtDelete | LtLock | LtPessimistic

definition LOCK_FLAG_PUT :: u8 where "LOCK_FLAG_PUT = 80"
definition LOCK_FLAG_DELETE :: u8 where "LOCK_FLAG_DELETE = 68"
definition LOCK_FLAG_LOCK :: u8 where "LOCK_FLAG_LOCK = 76"
definition LOCK_FLAG_PESSIMISTIC :: u8 where "LOCK_FLAG_PESSIMISTIC = 83"
definition FOR_UPDATE_TS_PREFIX :: u8 where "FOR_UPDATE_TS_PREFIX = 102"
definition TXN_SIZE_PREFIX :: u8 where "TXN_SIZE_PREFIX = 116"
definition MIN_COMMIT_TS_PREFIX :: u8 where "MIN_COMMIT_TS_PREFIX = 99"
definition ASYNC_COMMIT_PREFIX :: u8 where "ASYNC_COMMIT_PREFIX = 97"
definition ROLLBACK_TS_PREFIX :: u8 where "ROLLBACK_TS_PREFIX = 114"
definition LAST_CHANGE_PREFIX :: u8 where "LAST_CHANGE_PREFIX = 108"
definition LOCK_TXN_SOURCE_PREFIX :: u8 where "LOCK_TXN_SOURCE_PREFIX = 115"
definition PESSIMISTIC_LOCK_WITH_CONFLICT_PREFIX :: u8 where
  "PESSIMISTIC_LOCK_WITH_CONFLICT_PREFIX = 70"
definition GENERATION_PREFIX :: u8 where "GENERATION_PREFIX = 103"

lemmas lock_prefixes =
  LOCK_FLAG_PUT_def LOCK_FLAG_DELETE_def LOCK_FLAG_LOCK_def LOCK_FLAG_PESSIMISTIC_def
  FOR_UPDATE_TS_PREFIX_def TXN_SIZE_PREFIX_def MIN_COMMIT_TS_PREFIX_def ASYNC_COMMIT_PREFIX_def
  ROLLBACK_TS_PREFIX_def LAST_CHANGE_PREFIX_def LOCK_TXN_SOURCE_PREFIX_def
  PESSIMISTIC_LOCK_WITH_CONFLICT_PREFIX_def GENERATION_PREFIX_def SHORT_VALUE_PREFIX_def

primrec lock_type_from_mutation :: "mutation \<Rightarrow> lock_type option" where
  "lock_type_from_mutation (MPut kv a) = Some LtPut"
| "lock_type_from_mutation (MInsert kv a) = Some LtPut"
| "lock_type_from_mutation (MDelete k a) = Some LtDelete"
| "lock_type_from_mutation (MLock k a) = Some LtLock"
| "lock_type_from_mutation (MCheckNotExists k a) = None"

definition lock_type_from_u8 :: "u8 \<Rightarrow> lock_type option" where
  "lock_type_from_u8 b =
     (if b = LOCK_FLAG_PUT then Some LtPut
      else if b = LOCK_FLAG_DELETE then Some LtDelete
      else if b = LOCK_FLAG_LOCK then Some LtLock
      else if b = LOCK_FLAG_PESSIMISTIC then Some LtPessimistic
      else None)"

primrec lock_type_to_u8 :: "lock_type \<Rightarrow> u8" where
  "lock_type_to_u8 LtPut = LOCK_FLAG_PUT"
| "lock_type_to_u8 LtDelete = LOCK_FLAG_DELETE"
| "lock_type_to_u8 LtLock = LOCK_FLAG_LOCK"
| "lock_type_to_u8 LtPessimistic = LOCK_FLAG_PESSIMISTIC"

record lock =
  l_lock_type :: lock_type
  l_primary :: bytes
  l_ts :: timestamp
  l_ttl :: u64
  l_short_value :: "val option"
  l_for_update_ts :: timestamp
  l_txn_size :: u64
  l_min_commit_ts :: timestamp
  l_use_async_commit :: bool
  l_use_one_pc :: bool
  l_secondaries :: "bytes list"
  l_rollback_ts :: "timestamp list"
  l_last_change :: last_change
  l_txn_source :: u64
  l_is_locked_with_conflict :: bool
  l_generation :: u64

text \<open>The fields of the protobuf message that \<^verbatim>\<open>into_lock_info\<close> sets.\<close>

datatype pb_op = OpPut | OpDel | OpLock | OpPessimisticLock

record lock_info =
  li_primary_lock :: bytes
  li_lock_version :: u64
  li_key :: bytes
  li_lock_ttl :: u64
  li_txn_size :: u64
  li_lock_type :: pb_op
  li_lock_for_update_ts :: u64
  li_use_async_commit :: bool
  li_min_commit_ts :: u64
  li_secondaries :: "bytes list"

datatype isolation_level = IsoSi | IsoRc | IsoRcCheckTs

datatype conflict_reason =
    CrOptimistic | CrPessimisticRetry | CrSelfRolledBack | CrRcCheckTs | CrLazyUniquenessCheck

datatype txn_types_error =
    TtIo io_error_kind
  | TtCodec codec_error
  | BadFormatLock
  | BadFormatWrite
  | TtKeyIsLocked lock_info
  | TtWriteConflict timestamp timestamp timestamp bytes bytes conflict_reason

definition lock_new ::
    "lock_type \<Rightarrow> bytes \<Rightarrow> timestamp \<Rightarrow> u64 \<Rightarrow> val option \<Rightarrow> timestamp \<Rightarrow> u64 \<Rightarrow> timestamp \<Rightarrow> bool \<Rightarrow> lock" where
  "lock_new lock_type primary ts ttl short_value for_update_ts txn_size min_commit_ts
     is_locked_with_conflict =
     \<lparr> l_lock_type = lock_type, l_primary = primary, l_ts = ts, l_ttl = ttl,
       l_short_value = short_value, l_for_update_ts = for_update_ts, l_txn_size = txn_size,
       l_min_commit_ts = min_commit_ts, l_use_async_commit = False, l_use_one_pc = False,
       l_secondaries = [], l_rollback_ts = [], l_last_change = LcUnknown, l_txn_source = 0,
       l_is_locked_with_conflict = is_locked_with_conflict, l_generation = 0 \<rparr>"

definition lock_use_async_commit :: "lock \<Rightarrow> bytes list \<Rightarrow> lock" where
  "lock_use_async_commit l secondaries = l\<lparr> l_use_async_commit := True, l_secondaries := secondaries \<rparr>"

definition lock_with_rollback_ts :: "lock \<Rightarrow> timestamp list \<Rightarrow> lock" where
  "lock_with_rollback_ts l ts = l\<lparr> l_rollback_ts := ts \<rparr>"

definition lock_set_last_change :: "lock \<Rightarrow> last_change \<Rightarrow> lock" where
  "lock_set_last_change l lc = l\<lparr> l_last_change := lc \<rparr>"

definition lock_set_txn_source :: "lock \<Rightarrow> u64 \<Rightarrow> lock" where
  "lock_set_txn_source l source = l\<lparr> l_txn_source := source \<rparr>"

definition lock_with_generation :: "lock \<Rightarrow> u64 \<Rightarrow> lock" where
  "lock_with_generation l generation = l\<lparr> l_generation := generation \<rparr>"

text \<open>The optional fields in the order in which \<^verbatim>\<open>to_bytes\<close> appends them.\<close>

definition short_value_field :: "val option \<Rightarrow> bytes" where
  "short_value_field sv =
     (case sv of None \<Rightarrow> [] | Some v \<Rightarrow> SHORT_VALUE_PREFIX # of_nat (length v) # v)"

definition u64_field :: "u8 \<Rightarrow> u64 \<Rightarrow> bytes" where
  "u64_field prefix v = (if v \<noteq> 0 then prefix # encode_u64 v else [])"

definition last_change_field :: "last_change \<Rightarrow> bytes" where
  "last_change_field lc =
     (if lc = LcUnknown then []
      else case to_parts lc of (ts, versions) \<Rightarrow>
        LAST_CHANGE_PREFIX # encode_u64 ts @ encode_var_u64 versions)"

definition var_u64_field :: "u8 \<Rightarrow> u64 \<Rightarrow> bytes" where
  "var_u64_field prefix v = (if v \<noteq> 0 then prefix # encode_var_u64 v else [])"

definition lock_to_bytes :: "lock \<Rightarrow> bytes" where
  "lock_to_bytes l =
     [lock_type_to_u8 (l_lock_type l)] @
     encode_compact_bytes (l_primary l) @
     encode_var_u64 (l_ts l) @
     encode_var_u64 (l_ttl l) @
     short_value_field (l_short_value l) @
     u64_field FOR_UPDATE_TS_PREFIX (l_for_update_ts l) @
     u64_field TXN_SIZE_PREFIX (l_txn_size l) @
     u64_field MIN_COMMIT_TS_PREFIX (l_min_commit_ts l) @
     (if l_use_async_commit l then
        ASYNC_COMMIT_PREFIX # encode_var_u64 (of_nat (length (l_secondaries l))) @
        concat (map encode_compact_bytes (l_secondaries l))
      else []) @
     (if l_rollback_ts l \<noteq> [] then
        ROLLBACK_TS_PREFIX # encode_var_u64 (of_nat (length (l_rollback_ts l))) @
        concat (map encode_u64 (l_rollback_ts l))
      else []) @
     last_change_field (l_last_change l) @
     var_u64_field LOCK_TXN_SOURCE_PREFIX (l_txn_source l) @
     (if l_is_locked_with_conflict l then [PESSIMISTIC_LOCK_WITH_CONFLICT_PREFIX] else []) @
     u64_field GENERATION_PREFIX (l_generation l)"

definition lock_pre_allocate_size :: "lock \<Rightarrow> nat" where
  "lock_pre_allocate_size l =
     1 + MAX_VAR_I64_LEN + length (l_primary l) + MAX_VAR_U64_LEN * 2 +
     (case l_short_value l of None \<Rightarrow> 0 | Some v \<Rightarrow> 2 + length v) +
     (if \<not> ts_is_zero (l_for_update_ts l) then 1 + 8 else 0) +
     (if l_txn_size l > 0 then 1 + 8 else 0) +
     (if \<not> ts_is_zero (l_min_commit_ts l) then 1 + 8 else 0) +
     (if l_use_async_commit l then
        1 + MAX_VAR_U64_LEN + sum_list (map (\<lambda>k. MAX_VAR_I64_LEN + length k) (l_secondaries l))
      else 0) +
     (if l_rollback_ts l \<noteq> [] then 1 + MAX_VAR_U64_LEN + 8 * length (l_rollback_ts l) else 0) +
     (if l_last_change l \<noteq> LcUnknown then 1 + 8 + MAX_VAR_U64_LEN else 0) +
     (if l_txn_source l \<noteq> 0 then 1 + MAX_VAR_U64_LEN else 0) +
     (if l_is_locked_with_conflict l then 1 else 0) +
     (if l_generation l > 0 then 1 + 8 else 0)"

text \<open>The local variables of the loop of \<^verbatim>\<open>Lock::parse\<close>.\<close>

record lock_fields =
  f_short_value :: "val option"
  f_for_update_ts :: timestamp
  f_txn_size :: u64
  f_min_commit_ts :: timestamp
  f_use_async_commit :: bool
  f_secondaries :: "bytes list"
  f_rollback_ts :: "timestamp list"
  f_last_change_ts :: timestamp
  f_versions_to_last_change :: u64
  f_txn_source :: u64
  f_is_locked_with_conflict :: bool
  f_generation :: u64

definition lock_fields_init :: lock_fields where
  "lock_fields_init =
     \<lparr> f_short_value = None, f_for_update_ts = ts_zero, f_txn_size = 0, f_min_commit_ts = ts_zero,
       f_use_async_commit = False, f_secondaries = [], f_rollback_ts = [],
       f_last_change_ts = ts_zero, f_versions_to_last_change = 0, f_txn_source = 0,
       f_is_locked_with_conflict = False, f_generation = 0 \<rparr>"

fun decode_many ::
    "nat \<Rightarrow> (bytes \<Rightarrow> ('a \<times> bytes, 'e) result) \<Rightarrow> bytes \<Rightarrow> ('a list \<times> bytes, 'e) result" where
  "decode_many 0 dec b = Ok ([], b)"
| "decode_many (Suc n) dec b =
     and_then (dec b) (\<lambda>(x, b). map_ok (\<lambda>(xs, b). (x # xs, b)) (decode_many n dec b))"

text \<open>The short value after its prefix: a length byte and the value, or a panic when cut short.\<close>

definition read_short_value :: "'e \<Rightarrow> bytes \<Rightarrow> (val \<times> bytes, 'e) result" where
  "read_short_value eof b =
     (case b of
        [] \<Rightarrow> Err eof
      | len # b \<Rightarrow>
          if length b < unat len then Panic else Ok (take (unat len) b, drop (unat len) b))"

text \<open>
  One turn of the loop on a non-empty slice; \<open>None\<close> is the \<^verbatim>\<open>break\<close> at an unknown tag. The
  count of secondaries is an \<^verbatim>\<open>i32\<close>, the type that the range \<^verbatim>\<open>0..len\<close> falls back to;
  \<^verbatim>\<open>Vec::with_capacity\<close> panics above \<^verbatim>\<open>isize::MAX\<close> bytes.
\<close>

definition lock_parse_field ::
    "bytes \<Rightarrow> lock_fields \<Rightarrow> ((lock_fields \<times> bytes) option, txn_types_error) result" where
  "lock_parse_field b f =
     (case b of
        [] \<Rightarrow> Err (TtIo UnexpectedEof)
      | tag # b \<Rightarrow>
        if tag = SHORT_VALUE_PREFIX then
          map_ok (\<lambda>(v, b). Some (f\<lparr> f_short_value := Some v \<rparr>, b))
            (read_short_value (TtIo UnexpectedEof) b)
        else if tag = FOR_UPDATE_TS_PREFIX then
          map_ok (\<lambda>(ts, b). Some (f\<lparr> f_for_update_ts := ts \<rparr>, b)) (map_err TtCodec (decode_u64 b))
        else if tag = TXN_SIZE_PREFIX then
          map_ok (\<lambda>(n, b). Some (f\<lparr> f_txn_size := n \<rparr>, b)) (map_err TtCodec (decode_u64 b))
        else if tag = MIN_COMMIT_TS_PREFIX then
          map_ok (\<lambda>(ts, b). Some (f\<lparr> f_min_commit_ts := ts \<rparr>, b)) (map_err TtCodec (decode_u64 b))
        else if tag = ASYNC_COMMIT_PREFIX then
          and_then (map_err TtCodec (decode_var_u64 b)) (\<lambda>(len, b).
            let n = nat (sint (ucast len :: 32 word)) in
            map_ok (\<lambda>(ks, b). Some (f\<lparr> f_use_async_commit := True, f_secondaries := ks \<rparr>, b))
              (map_err TtCodec (decode_many n decode_compact_bytes b)))
        else if tag = ROLLBACK_TS_PREFIX then
          and_then (map_err TtCodec (decode_var_u64 b)) (\<lambda>(len, b).
            if unat (len + 1) * 8 \<ge> 2 ^ 63 then Panic
            else map_ok (\<lambda>(ts, b). Some (f\<lparr> f_rollback_ts := ts \<rparr>, b))
              (map_err TtCodec (decode_many (unat len) decode_u64 b)))
        else if tag = LAST_CHANGE_PREFIX then
          and_then (map_err TtCodec (decode_u64 b)) (\<lambda>(ts, b).
            map_ok (\<lambda>(n, b). Some (f\<lparr> f_last_change_ts := ts, f_versions_to_last_change := n \<rparr>, b))
              (map_err TtCodec (decode_var_u64 b)))
        else if tag = LOCK_TXN_SOURCE_PREFIX then
          map_ok (\<lambda>(n, b). Some (f\<lparr> f_txn_source := n \<rparr>, b)) (map_err TtCodec (decode_var_u64 b))
        else if tag = PESSIMISTIC_LOCK_WITH_CONFLICT_PREFIX then
          Ok (Some (f\<lparr> f_is_locked_with_conflict := True \<rparr>, b))
        else if tag = GENERATION_PREFIX then
          map_ok (\<lambda>(n, b). Some (f\<lparr> f_generation := n \<rparr>, b)) (map_err TtCodec (decode_u64 b))
        else Ok None)"

text \<open>Every decoder leaves at most the slice it was given, so the loop ends.\<close>

lemma decode_u64_length: "decode_u64 b = Ok (v, r) \<Longrightarrow> length r \<le> length b"
  by (auto simp: decode_u64_def read_num_bytes_def split: if_splits)

lemma decode_var_u64_length: "decode_var_u64 b = Ok (v, r) \<Longrightarrow> length r \<le> length b"
  using decode_var_u64_rest by force

lemma decode_var_i64_length: "decode_var_i64 b = Ok (v, r) \<Longrightarrow> length r \<le> length b"
  by (auto simp: decode_var_i64_def result_simps Let_def dest: decode_var_u64_length
      split: if_splits)

lemma decode_compact_bytes_length: "decode_compact_bytes b = Ok (v, r) \<Longrightarrow> length r \<le> length b"
  by (auto simp: decode_compact_bytes_def result_simps dest!: decode_var_i64_length
      split: if_splits)

lemma decode_many_length:
  assumes "\<And>b v r. dec b = Ok (v, r) \<Longrightarrow> length r \<le> length b"
  shows "decode_many n dec b = Ok (vs, r) \<Longrightarrow> length r \<le> length b"
proof (induction n arbitrary: b vs)
  case (Suc n)
  then show ?case using assms by (fastforce simp: result_simps)
qed simp

lemma decode_many_u64_length: "decode_many n decode_u64 b = Ok (vs, r) \<Longrightarrow> length r \<le> length b"
  using decode_many_length [of decode_u64] decode_u64_length by blast

lemma decode_many_compact_length:
  "decode_many n decode_compact_bytes b = Ok (vs, r) \<Longrightarrow> length r \<le> length b"
  using decode_many_length [of decode_compact_bytes] decode_compact_bytes_length by blast

lemma read_short_value_length: "read_short_value e b = Ok (v, r) \<Longrightarrow> length r \<le> length b"
  by (auto simp: read_short_value_def split: list.splits if_splits)

lemmas decoder_lengths = decode_u64_length decode_var_u64_length read_short_value_length
  decode_many_u64_length decode_many_compact_length

lemma lock_parse_field_length:
  "lock_parse_field b f = Ok (Some (f', r)) \<Longrightarrow> length r < length b"
  by (auto simp: lock_parse_field_def result_simps Let_def less_Suc_eq_le
      dest!: decoder_lengths intro: le_trans split: list.splits if_splits)

function lock_parse_loop :: "bytes \<Rightarrow> lock_fields \<Rightarrow> (lock_fields, txn_types_error) result" where
  "lock_parse_loop b f =
     (if b \<noteq> [] then
        case lock_parse_field b f of
          Ok (Some (f', b')) \<Rightarrow> lock_parse_loop b' f'
        | Ok None \<Rightarrow> Ok f
        | Err e \<Rightarrow> Err e
        | Panic \<Rightarrow> Panic
      else Ok f)"
  by pat_completeness auto

termination
  by (relation "measure (\<lambda>(b, f). length b)") (auto dest: lock_parse_field_length)

declare lock_parse_loop.simps [simp del]

definition lock_parse :: "bytes \<Rightarrow> (lock, txn_types_error) result" where
  "lock_parse b =
     (case b of
        [] \<Rightarrow> Err BadFormatLock
      | tag # b \<Rightarrow>
        and_then (ok_or BadFormatLock (lock_type_from_u8 tag)) (\<lambda>lock_type.
        and_then (map_err TtCodec (decode_compact_bytes b)) (\<lambda>(primary, b).
        and_then (map_err TtCodec (decode_var_u64 b)) (\<lambda>(ts, b).
        and_then (if b = [] then Ok (0, b) else map_err TtCodec (decode_var_u64 b)) (\<lambda>(ttl, b).
        if b = [] then
          Ok (lock_new lock_type primary ts ttl None ts_zero 0 ts_zero False)
        else
          and_then (lock_parse_loop b lock_fields_init) (\<lambda>f.
          and_then (from_parts (f_last_change_ts f) (f_versions_to_last_change f)) (\<lambda>last_change.
            let l = lock_new lock_type primary ts ttl (f_short_value f) (f_for_update_ts f)
                      (f_txn_size f) (f_min_commit_ts f) (f_is_locked_with_conflict f);
                l = lock_set_last_change l last_change;
                l = lock_set_txn_source l (f_txn_source f);
                l = lock_with_rollback_ts l (f_rollback_ts f);
                l = lock_with_generation l (f_generation f)
            in Ok (if f_use_async_commit f then lock_use_async_commit l (f_secondaries f) else l))))))))"

primrec lock_type_op :: "lock_type \<Rightarrow> pb_op" where
  "lock_type_op LtPut = OpPut"
| "lock_type_op LtDelete = OpDel"
| "lock_type_op LtLock = OpLock"
| "lock_type_op LtPessimistic = OpPessimisticLock"

definition into_lock_info :: "lock \<Rightarrow> bytes \<Rightarrow> lock_info" where
  "into_lock_info l raw_key =
     \<lparr> li_primary_lock = l_primary l, li_lock_version = l_ts l, li_key = raw_key,
       li_lock_ttl = l_ttl l, li_txn_size = l_txn_size l,
       li_lock_type = lock_type_op (l_lock_type l), li_lock_for_update_ts = l_for_update_ts l,
       li_use_async_commit = l_use_async_commit l, li_min_commit_ts = l_min_commit_ts l,
       li_secondaries = l_secondaries l \<rparr>"

definition is_pessimistic_txn :: "lock \<Rightarrow> bool" where
  "is_pessimistic_txn l \<longleftrightarrow> \<not> ts_is_zero (l_for_update_ts l)"

definition is_pessimistic_lock :: "lock \<Rightarrow> bool" where
  "is_pessimistic_lock l \<longleftrightarrow> l_lock_type l = LtPessimistic"

definition is_pessimistic_lock_with_conflict :: "lock \<Rightarrow> bool" where
  "is_pessimistic_lock_with_conflict l \<longleftrightarrow> is_pessimistic_lock l \<and> l_is_locked_with_conflict l"

definition check_ts_conflict_si ::
    "lock \<Rightarrow> key \<Rightarrow> timestamp \<Rightarrow> ts_set \<Rightarrow> bool \<Rightarrow> (unit, txn_types_error) result" where
  "check_ts_conflict_si l k ts bypass_locks is_replica_read =
     (if l_ts l > ts \<or> l_lock_type l = LtLock \<or> is_pessimistic_lock l then Ok ()
      else if l_min_commit_ts l > ts then Ok ()
      else if ts_set_contains bypass_locks (l_ts l) then Ok ()
      else
        and_then (map_err TtCodec (to_raw k)) (\<lambda>raw_key.
        if ts = ts_max \<and> is_replica_read then Err (TtKeyIsLocked (into_lock_info l raw_key))
        else if ts = ts_max \<and> raw_key = l_primary l \<and> \<not> l_use_async_commit l \<and> \<not> l_use_one_pc l
        then Ok ()
        else Err (TtKeyIsLocked (into_lock_info l raw_key))))"

definition check_ts_conflict_rc_check_ts ::
    "lock \<Rightarrow> key \<Rightarrow> timestamp \<Rightarrow> ts_set \<Rightarrow> (unit, txn_types_error) result" where
  "check_ts_conflict_rc_check_ts l k ts bypass_locks =
     (if l_lock_type l = LtLock \<or> is_pessimistic_lock l then Ok ()
      else if ts_set_contains bypass_locks (l_ts l) then Ok ()
      else
        and_then (map_err TtCodec (to_raw k)) (\<lambda>raw_key.
          Err (TtWriteConflict ts (l_ts l) 0 raw_key (l_primary l) CrRcCheckTs)))"

primrec check_ts_conflict ::
    "lock \<Rightarrow> key \<Rightarrow> timestamp \<Rightarrow> ts_set \<Rightarrow> isolation_level \<Rightarrow> (unit, txn_types_error) result" where
  "check_ts_conflict l k ts bypass_locks IsoSi = check_ts_conflict_si l k ts bypass_locks False"
| "check_ts_conflict l k ts bypass_locks IsoRcCheckTs =
     check_ts_conflict_rc_check_ts l k ts bypass_locks"
| "check_ts_conflict l k ts bypass_locks IsoRc = Ok ()"

primrec check_ts_conflict_for_replica_read ::
    "lock \<Rightarrow> key \<Rightarrow> timestamp \<Rightarrow> ts_set \<Rightarrow> isolation_level \<Rightarrow> (unit, txn_types_error) result" where
  "check_ts_conflict_for_replica_read l k ts bypass_locks IsoSi =
     check_ts_conflict_si l k ts bypass_locks True"
| "check_ts_conflict_for_replica_read l k ts bypass_locks IsoRcCheckTs = Panic"
| "check_ts_conflict_for_replica_read l k ts bypass_locks IsoRc = Ok ()"

record pessimistic_lock =
  p_primary :: bytes
  p_start_ts :: timestamp
  p_ttl :: u64
  p_for_update_ts :: timestamp
  p_min_commit_ts :: timestamp
  p_last_change :: last_change
  p_is_locked_with_conflict :: bool

definition to_lock :: "pessimistic_lock \<Rightarrow> lock" where
  "to_lock p =
     lock_set_last_change
       (lock_new LtPessimistic (p_primary p) (p_start_ts p) (p_ttl p) None (p_for_update_ts p) 0
         (p_min_commit_ts p) (p_is_locked_with_conflict p))
       (p_last_change p)"

definition into_lock :: "pessimistic_lock \<Rightarrow> lock" where
  "into_lock p =
     lock_set_last_change
       (lock_new LtPessimistic (p_primary p) (p_start_ts p) (p_ttl p) None (p_for_update_ts p) 0
         (p_min_commit_ts p) (p_is_locked_with_conflict p))
       (p_last_change p)"

datatype txn_lock_ref = InMemory pessimistic_lock | Persisted lock

primrec tlr_start_ts :: "txn_lock_ref \<Rightarrow> timestamp" where
  "tlr_start_ts (InMemory p) = p_start_ts p"
| "tlr_start_ts (Persisted l) = l_ts l"

primrec tlr_for_update_ts :: "txn_lock_ref \<Rightarrow> timestamp" where
  "tlr_for_update_ts (InMemory p) = p_for_update_ts p"
| "tlr_for_update_ts (Persisted l) = l_for_update_ts l"

primrec tlr_is_pessimistic_lock :: "txn_lock_ref \<Rightarrow> bool" where
  "tlr_is_pessimistic_lock (InMemory p) = True"
| "tlr_is_pessimistic_lock (Persisted l) = is_pessimistic_lock l"

primrec tlr_lock_type :: "txn_lock_ref \<Rightarrow> lock_type" where
  "tlr_lock_type (InMemory p) = LtPessimistic"
| "tlr_lock_type (Persisted l) = l_lock_type l"

text \<open>What a lock must satisfy for its stored form to be read back.\<close>

definition lock_wf :: "lock \<Rightarrow> bool" where
  "lock_wf l \<longleftrightarrow>
     length (l_primary l) < 2 ^ 63 \<and>
     (case l_short_value l of None \<Rightarrow> True | Some v \<Rightarrow> is_short_value v) \<and>
     length (l_secondaries l) < 2 ^ 31 \<and> list_all (\<lambda>k. length k < 2 ^ 63) (l_secondaries l) \<and>
     (l_use_async_commit l \<or> l_secondaries l = []) \<and>
     length (l_rollback_ts l) < 2 ^ 60 - 1 \<and> last_change_wf (l_last_change l) \<and> \<not> l_use_one_pc l"

text \<open>The optional fields of a lock, as bytes and as the variables of the parser.\<close>

definition lock_fields_bytes :: "lock \<Rightarrow> bytes" where
  "lock_fields_bytes l = short_value_field (l_short_value l) @
     u64_field FOR_UPDATE_TS_PREFIX (l_for_update_ts l) @
     u64_field TXN_SIZE_PREFIX (l_txn_size l) @
     u64_field MIN_COMMIT_TS_PREFIX (l_min_commit_ts l) @
     (if l_use_async_commit l then
        ASYNC_COMMIT_PREFIX # encode_var_u64 (of_nat (length (l_secondaries l))) @
        concat (map encode_compact_bytes (l_secondaries l))
      else []) @
     (if l_rollback_ts l \<noteq> [] then
        ROLLBACK_TS_PREFIX # encode_var_u64 (of_nat (length (l_rollback_ts l))) @
        concat (map encode_u64 (l_rollback_ts l))
      else []) @
     last_change_field (l_last_change l) @
     var_u64_field LOCK_TXN_SOURCE_PREFIX (l_txn_source l) @
     (if l_is_locked_with_conflict l then [PESSIMISTIC_LOCK_WITH_CONFLICT_PREFIX] else []) @
     u64_field GENERATION_PREFIX (l_generation l) @ []"

definition lock_fields_of :: "lock \<Rightarrow> lock_fields" where
  "lock_fields_of l = \<lparr> f_short_value = l_short_value l, f_for_update_ts = l_for_update_ts l,
     f_txn_size = l_txn_size l, f_min_commit_ts = l_min_commit_ts l,
     f_use_async_commit = l_use_async_commit l, f_secondaries = l_secondaries l,
     f_rollback_ts = l_rollback_ts l, f_last_change_ts = fst (to_parts (l_last_change l)),
     f_versions_to_last_change = snd (to_parts (l_last_change l)), f_txn_source = l_txn_source l,
     f_is_locked_with_conflict = l_is_locked_with_conflict l, f_generation = l_generation l \<rparr>"

subsection \<open>Parsing what was written\<close>

lemma decode_many_concat:
  "(\<And>x rest. x \<in> set xs \<Longrightarrow> dec (enc x @ rest) = Ok (x, rest)) \<Longrightarrow>
   decode_many (length xs) dec (concat (map enc xs) @ rest) = Ok (xs, rest)"
  by (induction xs) auto

lemma lock_parse_loop_Nil [simp]: "lock_parse_loop [] f = Ok f"
  by (simp add: lock_parse_loop.simps)

lemma lock_parse_loop_step:
  "lock_parse_field (t # b) f = Ok (Some (f', r)) \<Longrightarrow> lock_parse_loop (t # b) f = lock_parse_loop r f'"
  by (subst lock_parse_loop.simps) simp

lemma lock_loop_short_value:
  assumes "case sv of None \<Rightarrow> True | Some v \<Rightarrow> is_short_value v" "f_short_value f = None"
  shows "lock_parse_loop (short_value_field sv @ r) f = lock_parse_loop r (f\<lparr> f_short_value := sv \<rparr>)"
  using assms
  by (cases sv; cases f)
    (auto simp: short_value_field_def lock_parse_field_def read_short_value_def unat_of_nat_u8
      is_short_value_def SHORT_VALUE_MAX_LEN_def intro!: lock_parse_loop_step)

lemma lock_loop_u64:
  "f_for_update_ts f = 0 \<Longrightarrow> lock_parse_loop (u64_field FOR_UPDATE_TS_PREFIX v @ r) f =
     lock_parse_loop r (f\<lparr> f_for_update_ts := v \<rparr>)"
  "f_txn_size f = 0 \<Longrightarrow> lock_parse_loop (u64_field TXN_SIZE_PREFIX v @ r) f =
     lock_parse_loop r (f\<lparr> f_txn_size := v \<rparr>)"
  "f_min_commit_ts f = 0 \<Longrightarrow> lock_parse_loop (u64_field MIN_COMMIT_TS_PREFIX v @ r) f =
     lock_parse_loop r (f\<lparr> f_min_commit_ts := v \<rparr>)"
  "f_generation f = 0 \<Longrightarrow> lock_parse_loop (u64_field GENERATION_PREFIX v @ r) f =
     lock_parse_loop r (f\<lparr> f_generation := v \<rparr>)"
  by (cases f; auto simp: u64_field_def lock_parse_field_def lock_prefixes decode_encode_u64
      intro!: lock_parse_loop_step)+

lemma lock_loop_last_change:
  "f_last_change_ts f = 0 \<Longrightarrow> f_versions_to_last_change f = 0 \<Longrightarrow>
   lock_parse_loop (last_change_field lc @ r) f =
   lock_parse_loop r
     (f\<lparr> f_last_change_ts := fst (to_parts lc), f_versions_to_last_change := snd (to_parts lc) \<rparr>)"
  by (cases f; cases lc)
    (auto simp: last_change_field_def lock_parse_field_def lock_prefixes decode_encode_u64
      decode_encode_var_u64 ts_zero_def intro!: lock_parse_loop_step)

lemma lock_loop_source:
  "f_txn_source f = 0 \<Longrightarrow> lock_parse_loop (var_u64_field LOCK_TXN_SOURCE_PREFIX v @ r) f =
     lock_parse_loop r (f\<lparr> f_txn_source := v \<rparr>)"
  by (cases f) (auto simp: var_u64_field_def lock_parse_field_def lock_prefixes
      decode_encode_var_u64 intro!: lock_parse_loop_step)

lemma lock_loop_conflict:
  "\<not> f_is_locked_with_conflict f \<Longrightarrow>
   lock_parse_loop ((if b then [PESSIMISTIC_LOCK_WITH_CONFLICT_PREFIX] else []) @ r) f =
   lock_parse_loop r (f\<lparr> f_is_locked_with_conflict := b \<rparr>)"
  by (cases f) (auto simp: lock_parse_field_def lock_prefixes intro!: lock_parse_loop_step)

lemma sint_of_nat_i32: "n < 2 ^ 31 \<Longrightarrow> nat (sint (ucast (of_nat n :: u64) :: 32 word)) = n"
proof -
  assume n: "n < 2 ^ 31"
  then have "uint (ucast (of_nat n :: u64) :: 32 word) = int n"
    by (simp add: unsigned_ucast_eq unsigned_of_nat take_bit_nat_eq_self take_bit_int_eq_self)
  then show ?thesis
    using n by (simp add: sint_uint signed_take_bit_eq_take_bit_shift take_bit_eq_mod)
qed

lemma lock_loop_async:
  assumes "length ks < 2 ^ 31" "list_all (\<lambda>k. length k < 2 ^ 63) ks" "b \<or> ks = []"
    "\<not> f_use_async_commit f" "f_secondaries f = []"
  shows "lock_parse_loop
      ((if b then ASYNC_COMMIT_PREFIX # encode_var_u64 (of_nat (length ks)) @
          concat (map encode_compact_bytes ks) else []) @ r) f =
    lock_parse_loop r (f\<lparr> f_use_async_commit := b, f_secondaries := ks \<rparr>)"
proof -
  have "decode_many (length ks) decode_compact_bytes (concat (map encode_compact_bytes ks) @ r) =
      Ok (ks, r)"
    using assms(2) by (intro decode_many_concat decode_encode_compact) (simp add: list_all_iff)
  then show ?thesis
    using sint_of_nat_i32 [OF assms(1)] assms(3-)
    by (cases f) (auto simp: lock_parse_field_def lock_prefixes decode_encode_var_u64 Let_def
        intro!: lock_parse_loop_step)
qed

lemma lock_loop_rollback:
  assumes "length ts < 2 ^ 60 - 1" "f_rollback_ts f = []"
  shows "lock_parse_loop
      ((if ts \<noteq> [] then ROLLBACK_TS_PREFIX # encode_var_u64 (of_nat (length ts)) @
          concat (map encode_u64 ts) else []) @ r) f =
    lock_parse_loop r (f\<lparr> f_rollback_ts := ts \<rparr>)"
proof -
  have "decode_many (length ts) decode_u64 (concat (map encode_u64 ts) @ r) = Ok (ts, r)"
    by (intro decode_many_concat decode_encode_u64)
  moreover have "unat (of_nat (length ts) :: u64) = length ts"
    "unat (of_nat (length ts) + 1 :: u64) = length ts + 1"
    using assms by (simp_all add: unat_of_nat unat_word_ariths)
  ultimately show ?thesis
    using assms by (cases f) (auto simp: lock_parse_field_def lock_prefixes decode_encode_var_u64
        intro!: lock_parse_loop_step)
qed

lemma lock_type_from_to_u8 [simp]: "lock_type_from_u8 (lock_type_to_u8 t) = Some t"
  by (cases t) (simp_all add: lock_type_from_u8_def lock_prefixes)

lemmas lock_loop_fields = lock_loop_short_value lock_loop_u64 lock_loop_last_change lock_loop_source lock_loop_conflict
  lock_loop_async lock_loop_rollback


lemma lock_parse_loop_fields:
  assumes "lock_wf l"
  shows "lock_parse_loop (lock_fields_bytes l) lock_fields_init = Ok (lock_fields_of l)"
  using assms unfolding lock_wf_def lock_fields_bytes_def lock_fields_of_def lock_fields_init_def
  by (simp add: lock_loop_fields ts_zero_def del: append_Nil2)

lemma lock_parse_to_bytes:
  assumes "lock_wf l"
  shows "lock_parse (lock_to_bytes l) = Ok l"
proof -
  have bytes: "lock_to_bytes l = lock_type_to_u8 (l_lock_type l) # encode_compact_bytes (l_primary l) @
      encode_var_u64 (l_ts l) @ encode_var_u64 (l_ttl l) @ lock_fields_bytes l"
    by (simp add: lock_fields_bytes_def lock_to_bytes_def)
  have wf: "length (l_primary l) < 2 ^ 63" "\<not> l_use_one_pc l" "l_use_async_commit l \<or> l_secondaries l = []"
    and lc: "from_parts (fst (to_parts (l_last_change l))) (snd (to_parts (l_last_change l))) =
      (Ok (l_last_change l) :: (last_change, txn_types_error) result)"
    using assms from_parts_to_parts [of "l_last_change l"] by (auto simp: lock_wf_def split: prod.splits)
  show ?thesis
  proof (cases "lock_fields_bytes l = []")
    case True
    then have "lock_fields_init = lock_fields_of l"
      using lock_parse_loop_fields [OF assms] by simp
    then have "l = lock_new (l_lock_type l) (l_primary l) (l_ts l) (l_ttl l) None ts_zero 0 ts_zero False"
      using wf lc
      by (cases l) (auto simp: lock_fields_of_def lock_fields_init_def lock_new_def from_parts_def ts_is_zero_def ts_zero_def)
    then show ?thesis
      using True wf(1) by (simp add: lock_parse_def bytes decode_encode_compact decode_encode_var_u64 var_u64_codec.decode_whole)
  next
    case False
    then show ?thesis
      using lock_parse_loop_fields [OF assms] wf lc
      by (auto simp: lock_parse_def bytes decode_encode_compact decode_encode_var_u64 lock_fields_of_def
         lock_new_def lock_set_last_change_def lock_set_txn_source_def lock_with_rollback_ts_def lock_with_generation_def lock_use_async_commit_def Let_def intro!: lock.equality)
  qed
qed

lemma length_encode_compact_bytes_le:
  "length (encode_compact_bytes k) \<le> MAX_VAR_I64_LEN + length k"
  using length_encode_var_i64_le by (simp add: encode_compact_bytes_def)

lemma length_concat_compact_le:
  "length (concat (map encode_compact_bytes ks)) \<le> sum_list (map (\<lambda>k. MAX_VAR_I64_LEN + length k) ks)"
  by (induction ks) (auto intro: add_mono length_encode_compact_bytes_le)

lemma length_concat_u64: "length (concat (map encode_u64 ts)) = 8 * length ts"
  by (induction ts) auto

lemma length_short_value_field:
  "length (short_value_field sv) = (case sv of None \<Rightarrow> 0 | Some v \<Rightarrow> 2 + length v)"
  by (simp add: short_value_field_def split: option.split)

lemma length_u64_field: "length (u64_field p v) = (if v > 0 then 1 + 8 else 0)"
  by (auto simp: u64_field_def word_gt_0)

lemma length_ts_field: "length (u64_field p v) = (if \<not> ts_is_zero v then 1 + 8 else 0)"
  by (auto simp: u64_field_def ts_is_zero_def)

lemma length_last_change_field:
  "length (last_change_field lc) \<le> (if lc \<noteq> LcUnknown then 1 + 8 + MAX_VAR_U64_LEN else 0)"
  using length_encode_var_u64_le by (auto simp: last_change_field_def split: prod.split)

lemma length_var_u64_field:
  "length (var_u64_field p v) \<le> (if v \<noteq> 0 then 1 + MAX_VAR_U64_LEN else 0)"
  using length_encode_var_u64_le by (simp add: var_u64_field_def)

lemma length_async_field:
  "length (if b then ASYNC_COMMIT_PREFIX # encode_var_u64 n @ concat (map encode_compact_bytes ks)
           else []) \<le>
   (if b then 1 + MAX_VAR_U64_LEN + sum_list (map (\<lambda>k. MAX_VAR_I64_LEN + length k) ks) else 0)"
  using length_concat_compact_le [of ks] length_encode_var_u64_le [of n] by (auto intro: add_mono)

lemma length_rollback_field:
  "length (if ts \<noteq> [] then ROLLBACK_TS_PREFIX # encode_var_u64 n @ concat (map encode_u64 ts)
           else []) \<le> (if ts \<noteq> [] then 1 + MAX_VAR_U64_LEN + 8 * length ts else 0)"
  using length_encode_var_u64_le [of n] by (simp add: length_concat_u64)

lemma length_flag_field: "length (if b then [p] else []) = (if b then 1 else 0)"
  by simp

lemma lock_to_bytes_length: "length (lock_to_bytes l) \<le> lock_pre_allocate_size l"
  using length_encode_compact_bytes_le [of "l_primary l"] length_encode_var_u64_le [of "l_ts l"]
    length_encode_var_u64_le [of "l_ttl l"] length_last_change_field [of "l_last_change l"]
    length_ts_field [of FOR_UPDATE_TS_PREFIX "l_for_update_ts l"]
    length_u64_field [of TXN_SIZE_PREFIX "l_txn_size l"]
    length_ts_field [of MIN_COMMIT_TS_PREFIX "l_min_commit_ts l"]
    length_u64_field [of GENERATION_PREFIX "l_generation l"]
    length_var_u64_field [of LOCK_TXN_SOURCE_PREFIX "l_txn_source l"]
    length_async_field [of "l_use_async_commit l" "of_nat (length (l_secondaries l))" "l_secondaries l"]
    length_rollback_field [of "l_rollback_ts l" "of_nat (length (l_rollback_ts l))"]
    length_flag_field [of "l_is_locked_with_conflict l" PESSIMISTIC_LOCK_WITH_CONFLICT_PREFIX]
  unfolding lock_to_bytes_def lock_pre_allocate_size_def length_append length_short_value_field
    list.size
  by linarith

subsection \<open>Properties\<close>

text \<open>
  C39: a lock survives storage: \<^verbatim>\<open>Lock::parse\<close> reads back exactly the lock that
  \<^verbatim>\<open>to_bytes\<close> wrote, for every combination of its optional fields, whenever its value is short,
  its last change is one that \<^verbatim>\<open>make_exist\<close> allows, it carries secondaries only with async
  commit, the flag \<^verbatim>\<open>use_one_pc\<close> (never persisted) is unset, and its lists and keys have sizes
  that fit in memory.
\<close>

theorem lock_roundtrip:
  assumes "lock_wf l"
  shows "lock_parse (lock_to_bytes l) = Ok l"
  using assms by (rule lock_parse_to_bytes)

theorem lock_roundtrip_witness:
  "lock_wf (lock_with_rollback_ts (lock_new LtPut [1, 2] 5 3 (Some [7]) 6 1 9 False) [4]) \<and>
   lock_parse (lock_to_bytes
     (lock_with_rollback_ts (lock_new LtPut [1, 2] 5 3 (Some [7]) 6 1 9 False) [4])) =
   Ok (lock_with_rollback_ts (lock_new LtPut [1, 2] 5 3 (Some [7]) 6 1 9 False) [4])"
  using lock_roundtrip [of "lock_with_rollback_ts (lock_new LtPut [1, 2] 5 3 (Some [7]) 6 1 9 False) [4]"]
  by (simp add: lock_wf_def lock_with_rollback_ts_def lock_new_def is_short_value_def
      SHORT_VALUE_MAX_LEN_def)

text \<open>
  The buffer that \<^verbatim>\<open>to_bytes\<close> allocates with \<^verbatim>\<open>pre_allocate_size\<close> is large enough for
  every lock, so that it is never reallocated.
\<close>

theorem lock_pre_allocate_size_enough: "length (lock_to_bytes l) \<le> lock_pre_allocate_size l"
  by (rule lock_to_bytes_length)

end
