(* ===== verification/Write_Record.thy ===== *)
theory Write_Record
  imports Lock_Record Codec_Crate
begin

text \<open>
  Write (commit and rollback) records (\<^verbatim>\<open>components/txn_types/src/write.rs\<close>). The record is
  written with the encoders of \<^verbatim>\<open>tikv_util\<close> and its head is read with those of the
  \<^verbatim>\<open>codec\<close> crate. \<^verbatim>\<open>Write\<close> and \<^verbatim>\<open>WriteRef\<close> differ only in who owns the short value
  and are one record here.
\<close>

subsection \<open>Definitions\<close>

datatype write_type = WtPut | WtDelete | WtLock | WtRollback

definition FLAG_PUT :: u8 where "FLAG_PUT = 80"
definition FLAG_DELETE :: u8 where "FLAG_DELETE = 68"
definition FLAG_LOCK :: u8 where "FLAG_LOCK = 76"
definition FLAG_ROLLBACK :: u8 where "FLAG_ROLLBACK = 82"
definition FLAG_OVERLAPPED_ROLLBACK :: u8 where "FLAG_OVERLAPPED_ROLLBACK = 82"
definition GC_FENCE_PREFIX :: u8 where "GC_FENCE_PREFIX = 70"
definition WRITE_LAST_CHANGE_PREFIX :: u8 where "WRITE_LAST_CHANGE_PREFIX = 108"
definition TXN_SOURCE_PREFIX :: u8 where "TXN_SOURCE_PREFIX = 83"
definition PROTECTED_ROLLBACK_SHORT_VALUE :: bytes where "PROTECTED_ROLLBACK_SHORT_VALUE = [112]"

lemmas write_prefixes = FLAG_PUT_def FLAG_DELETE_def FLAG_LOCK_def FLAG_ROLLBACK_def
  FLAG_OVERLAPPED_ROLLBACK_def GC_FENCE_PREFIX_def WRITE_LAST_CHANGE_PREFIX_def
  TXN_SOURCE_PREFIX_def SHORT_VALUE_PREFIX_def LAST_CHANGE_PREFIX_def

primrec write_type_from_lock_type :: "lock_type \<Rightarrow> write_type option" where
  "write_type_from_lock_type LtPut = Some WtPut"
| "write_type_from_lock_type LtDelete = Some WtDelete"
| "write_type_from_lock_type LtLock = Some WtLock"
| "write_type_from_lock_type LtPessimistic = None"

definition write_type_from_u8 :: "u8 \<Rightarrow> write_type option" where
  "write_type_from_u8 b =
     (if b = FLAG_PUT then Some WtPut
      else if b = FLAG_DELETE then Some WtDelete
      else if b = FLAG_LOCK then Some WtLock
      else if b = FLAG_ROLLBACK then Some WtRollback
      else None)"

primrec write_type_to_u8 :: "write_type \<Rightarrow> u8" where
  "write_type_to_u8 WtPut = FLAG_PUT"
| "write_type_to_u8 WtDelete = FLAG_DELETE"
| "write_type_to_u8 WtLock = FLAG_LOCK"
| "write_type_to_u8 WtRollback = FLAG_ROLLBACK"

record write_record =
  w_write_type :: write_type
  w_start_ts :: timestamp
  w_short_value :: "val option"
  w_has_overlapped_rollback :: bool
  w_gc_fence :: "timestamp option"
  w_last_change :: last_change
  w_txn_source :: u64

definition write_new :: "write_type \<Rightarrow> timestamp \<Rightarrow> val option \<Rightarrow> write_record" where
  "write_new write_type start_ts short_value =
     \<lparr> w_write_type = write_type, w_start_ts = start_ts, w_short_value = short_value,
       w_has_overlapped_rollback = False, w_gc_fence = None, w_last_change = LcUnknown,
       w_txn_source = 0 \<rparr>"

definition new_rollback :: "timestamp \<Rightarrow> bool \<Rightarrow> write_record" where
  "new_rollback start_ts protected =
     (let short_value = (if protected then Some PROTECTED_ROLLBACK_SHORT_VALUE else None) in
      \<lparr> w_write_type = WtRollback, w_start_ts = start_ts, w_short_value = short_value,
        w_has_overlapped_rollback = False, w_gc_fence = None, w_last_change = LcUnknown,
        w_txn_source = 0 \<rparr>)"

definition set_overlapped_rollback :: "write_record \<Rightarrow> bool \<Rightarrow> timestamp option \<Rightarrow> write_record" where
  "set_overlapped_rollback w has_overlapped_rollback gc_fence =
     w\<lparr> w_has_overlapped_rollback := has_overlapped_rollback, w_gc_fence := gc_fence \<rparr>"

definition write_set_last_change :: "write_record \<Rightarrow> last_change \<Rightarrow> write_record" where
  "write_set_last_change w lc = w\<lparr> w_last_change := lc \<rparr>"

definition write_set_txn_source :: "write_record \<Rightarrow> u64 \<Rightarrow> write_record" where
  "write_set_txn_source w source = w\<lparr> w_txn_source := source \<rparr>"

definition parse_type :: "bytes \<Rightarrow> (write_type, txn_types_error) result" where
  "parse_type b =
     and_then (map_err (\<lambda>_. BadFormatWrite) (nc_read_u8 b)) (\<lambda>(tag, _).
       ok_or BadFormatWrite (write_type_from_u8 tag))"

text \<open>The local variables of the loop of \<^verbatim>\<open>WriteRef::parse\<close>.\<close>

record write_fields =
  wf_short_value :: "val option"
  wf_has_overlapped_rollback :: bool
  wf_gc_fence :: "timestamp option"
  wf_last_change_ts :: timestamp
  wf_versions_to_last_change :: u64
  wf_txn_source :: u64

definition write_fields_init :: write_fields where
  "write_fields_init =
     \<lparr> wf_short_value = None, wf_has_overlapped_rollback = False, wf_gc_fence = None,
       wf_last_change_ts = ts_zero, wf_versions_to_last_change = 0, wf_txn_source = 0 \<rparr>"

definition write_parse_field ::
    "bytes \<Rightarrow> write_fields \<Rightarrow> ((write_fields \<times> bytes) option, txn_types_error) result" where
  "write_parse_field b f =
     and_then (map_err (\<lambda>_. BadFormatWrite) (nc_read_u8 b)) (\<lambda>(tag, b).
        if tag = SHORT_VALUE_PREFIX then
          map_ok (\<lambda>(v, b). Some (f\<lparr> wf_short_value := Some v \<rparr>, b))
            (read_short_value BadFormatWrite b)
        else if tag = FLAG_OVERLAPPED_ROLLBACK then
          Ok (Some (f\<lparr> wf_has_overlapped_rollback := True \<rparr>, b))
        else if tag = GC_FENCE_PREFIX then
          map_ok (\<lambda>(ts, b). Some (f\<lparr> wf_gc_fence := Some ts \<rparr>, b)) (map_err TtCodec (decode_u64 b))
        else if tag = WRITE_LAST_CHANGE_PREFIX then
          and_then (map_err TtCodec (decode_u64 b)) (\<lambda>(ts, b).
            map_ok (\<lambda>(n, b). Some (f\<lparr> wf_last_change_ts := ts, wf_versions_to_last_change := n \<rparr>, b))
              (map_err TtCodec (decode_var_u64 b)))
        else if tag = TXN_SOURCE_PREFIX then
          map_ok (\<lambda>(n, b). Some (f\<lparr> wf_txn_source := n \<rparr>, b)) (map_err TtCodec (decode_var_u64 b))
        else Ok None)"

lemma write_parse_field_length:
  "write_parse_field b f = Ok (Some (f', r)) \<Longrightarrow> length r < length b"
  by (cases b)
    (auto simp: write_parse_field_def nc_read_u8_def result_simps less_Suc_eq_le
      dest!: decoder_lengths intro: le_trans split: if_splits)

function write_parse_loop ::
    "bytes \<Rightarrow> write_fields \<Rightarrow> (write_fields, txn_types_error) result" where
  "write_parse_loop b f =
     (if b \<noteq> [] then
        case write_parse_field b f of
          Ok (Some (f', b')) \<Rightarrow> write_parse_loop b' f'
        | Ok None \<Rightarrow> Ok f
        | Err e \<Rightarrow> Err e
        | Panic \<Rightarrow> Panic
      else Ok f)"
  by pat_completeness auto

termination
  by (relation "measure (\<lambda>(b, f). length b)") (auto dest: write_parse_field_length)

declare write_parse_loop.simps [simp del]

definition write_parse :: "bytes \<Rightarrow> (write_record, txn_types_error) result" where
  "write_parse b =
     and_then (map_err (\<lambda>_. BadFormatWrite) (nc_read_u8 b)) (\<lambda>(tag, b).
     and_then (ok_or BadFormatWrite (write_type_from_u8 tag)) (\<lambda>write_type.
     and_then (map_err (\<lambda>_. BadFormatWrite) (nc_read_var_u64 b)) (\<lambda>(start_ts, b).
     and_then (write_parse_loop b write_fields_init) (\<lambda>f.
     and_then (from_parts (wf_last_change_ts f) (wf_versions_to_last_change f)) (\<lambda>last_change.
       Ok \<lparr> w_write_type = write_type, w_start_ts = start_ts, w_short_value = wf_short_value f,
            w_has_overlapped_rollback = wf_has_overlapped_rollback f,
            w_gc_fence = wf_gc_fence f, w_last_change = last_change,
            w_txn_source = wf_txn_source f \<rparr>)))))"

definition write_to_bytes :: "write_record \<Rightarrow> bytes" where
  "write_to_bytes w =
     [write_type_to_u8 (w_write_type w)] @
     encode_var_u64 (w_start_ts w) @
     short_value_field (w_short_value w) @
     (if w_has_overlapped_rollback w then [FLAG_OVERLAPPED_ROLLBACK] else []) @
     (case w_gc_fence w of None \<Rightarrow> [] | Some ts \<Rightarrow> GC_FENCE_PREFIX # encode_u64 ts) @
     last_change_field (w_last_change w) @
     var_u64_field TXN_SOURCE_PREFIX (w_txn_source w)"

definition write_pre_allocate_size :: "write_record \<Rightarrow> nat" where
  "write_pre_allocate_size w =
     1 + MAX_VAR_U64_LEN + (if w_has_overlapped_rollback w then 1 else 0) +
     (case w_short_value w of None \<Rightarrow> 0 | Some v \<Rightarrow> 2 + length v) +
     (if w_gc_fence w \<noteq> None then 1 + 8 else 0) +
     (if w_last_change w \<noteq> LcUnknown then 1 + 8 + MAX_VAR_U64_LEN else 0) +
     (if w_txn_source w \<noteq> 0 then 1 + MAX_VAR_U64_LEN else 0)"

definition check_gc_fence_as_latest_version :: "write_record \<Rightarrow> timestamp \<Rightarrow> bool" where
  "check_gc_fence_as_latest_version w read_ts =
     (case w_gc_fence w of
        Some gc_fence_ts \<Rightarrow> \<not> (\<not> ts_is_zero gc_fence_ts \<and> gc_fence_ts \<le> read_ts)
      | None \<Rightarrow> True)"

definition is_protected :: "write_record \<Rightarrow> bool" where
  "is_protected w \<longleftrightarrow>
     w_write_type w = WtRollback \<and>
     (case w_short_value w of Some v \<Rightarrow> v = PROTECTED_ROLLBACK_SHORT_VALUE | None \<Rightarrow> False)"

text \<open>What a write must satisfy for its stored form to be read back.\<close>

definition write_wf :: "write_record \<Rightarrow> bool" where
  "write_wf w \<longleftrightarrow>
     (case w_short_value w of None \<Rightarrow> True | Some v \<Rightarrow> is_short_value v) \<and>
     last_change_wf (w_last_change w)"

subsection \<open>Parsing what was written\<close>

lemma write_parse_loop_Nil [simp]: "write_parse_loop [] f = Ok f"
  by (simp add: write_parse_loop.simps)

lemma write_parse_loop_step:
  "write_parse_field (t # b) f = Ok (Some (f', r)) \<Longrightarrow>
   write_parse_loop (t # b) f = write_parse_loop r f'"
  by (subst write_parse_loop.simps) simp

lemma write_loop_short_value:
  assumes "case sv of None \<Rightarrow> True | Some v \<Rightarrow> is_short_value v" "wf_short_value f = None"
  shows "write_parse_loop (short_value_field sv @ r) f =
    write_parse_loop r (f\<lparr> wf_short_value := sv \<rparr>)"
  using assms
  by (cases sv; cases f)
    (auto simp: short_value_field_def write_parse_field_def nc_read_u8_def read_short_value_def
      unat_of_nat_u8 is_short_value_def SHORT_VALUE_MAX_LEN_def intro!: write_parse_loop_step)

lemma write_loop_overlapped:
  "\<not> wf_has_overlapped_rollback f \<Longrightarrow>
   write_parse_loop ((if b then [FLAG_OVERLAPPED_ROLLBACK] else []) @ r) f =
   write_parse_loop r (f\<lparr> wf_has_overlapped_rollback := b \<rparr>)"
  by (cases f) (auto simp: write_parse_field_def nc_read_u8_def write_prefixes
      intro!: write_parse_loop_step)

lemma write_loop_gc_fence:
  "wf_gc_fence f = None \<Longrightarrow>
   write_parse_loop ((case g of None \<Rightarrow> [] | Some ts \<Rightarrow> GC_FENCE_PREFIX # encode_u64 ts) @ r) f =
   write_parse_loop r (f\<lparr> wf_gc_fence := g \<rparr>)"
  by (cases f; cases g) (auto simp: write_parse_field_def nc_read_u8_def write_prefixes
      decode_encode_u64 intro!: write_parse_loop_step)

lemma write_loop_last_change:
  "wf_last_change_ts f = 0 \<Longrightarrow> wf_versions_to_last_change f = 0 \<Longrightarrow>
   write_parse_loop (last_change_field lc @ r) f =
   write_parse_loop r
     (f\<lparr> wf_last_change_ts := fst (to_parts lc), wf_versions_to_last_change := snd (to_parts lc) \<rparr>)"
  by (cases f; cases lc)
    (auto simp: last_change_field_def write_parse_field_def nc_read_u8_def write_prefixes
      decode_encode_u64 decode_encode_var_u64 ts_zero_def intro!: write_parse_loop_step)

lemma write_loop_source:
  "wf_txn_source f = 0 \<Longrightarrow> write_parse_loop (var_u64_field TXN_SOURCE_PREFIX v @ r) f =
     write_parse_loop r (f\<lparr> wf_txn_source := v \<rparr>)"
  by (cases f) (auto simp: var_u64_field_def write_parse_field_def nc_read_u8_def write_prefixes
      decode_encode_var_u64 intro!: write_parse_loop_step)

lemmas write_loop_fields = write_loop_short_value write_loop_overlapped write_loop_gc_fence
  write_loop_last_change write_loop_source [where r = "[]", simplified]

lemma write_type_from_to_u8 [simp]: "write_type_from_u8 (write_type_to_u8 t) = Some t"
  by (cases t) (simp_all add: write_type_from_u8_def write_prefixes)

lemma nc_read_encode_var_u64 [simp]: "nc_read_var_u64 (encode_var_u64 v @ rest) = Ok (v, rest)"
  by (simp add: nc_read_var_u64_agrees decode_encode_var_u64)

lemma write_parse_to_bytes:
  assumes "write_wf w"
  shows "write_parse (write_to_bytes w) = Ok w"
proof -
  have lc: "from_parts (fst (to_parts (w_last_change w))) (snd (to_parts (w_last_change w))) =
      (Ok (w_last_change w) :: (last_change, txn_types_error) result)"
    using assms from_parts_to_parts [of "w_last_change w"]
    by (auto simp: write_wf_def split: prod.splits)
  show ?thesis
    using assms lc unfolding write_wf_def write_to_bytes_def write_parse_def write_fields_init_def
    by (auto simp: nc_read_u8_def write_loop_fields ts_zero_def intro: write_record.equality)
qed

lemma write_to_bytes_length: "length (write_to_bytes w) \<le> write_pre_allocate_size w"
proof -
  have "length (case w_gc_fence w of None \<Rightarrow> [] | Some ts \<Rightarrow> GC_FENCE_PREFIX # encode_u64 ts) =
      (if w_gc_fence w \<noteq> None then 1 + 8 else 0)"
    by (cases "w_gc_fence w") auto
  then show ?thesis
    using length_encode_var_u64_le [of "w_start_ts w"] length_last_change_field [of "w_last_change w"]
      length_var_u64_field [of TXN_SOURCE_PREFIX "w_txn_source w"]
      length_flag_field [of "w_has_overlapped_rollback w" FLAG_OVERLAPPED_ROLLBACK]
    unfolding write_to_bytes_def write_pre_allocate_size_def length_append length_short_value_field
      list.size
    by linarith
qed

subsection \<open>Properties\<close>

text \<open>
  C40: a write record survives storage: \<^verbatim>\<open>WriteRef::parse\<close> reads back exactly the record that
  \<^verbatim>\<open>to_bytes\<close> wrote, and the buffer that \<^verbatim>\<open>pre_allocate_size\<close> reserves holds it, whenever
  its value is short and its last change is one that \<^verbatim>\<open>make_exist\<close> allows.
\<close>

theorem write_roundtrip:
  assumes "write_wf w"
  shows "write_parse (write_to_bytes w) = Ok w \<and>
    parse_type (write_to_bytes w) = Ok (w_write_type w) \<and>
    length (write_to_bytes w) \<le> write_pre_allocate_size w"
  using write_parse_to_bytes [OF assms] write_to_bytes_length [of w]
  by (simp add: parse_type_def nc_read_u8_def write_to_bytes_def)

theorem write_roundtrip_witness:
  "write_wf (set_overlapped_rollback (write_new WtPut 5 (Some [1, 2])) True (Some 9)) \<and>
   write_parse (write_to_bytes
     (set_overlapped_rollback (write_new WtPut 5 (Some [1, 2])) True (Some 9))) =
   Ok (set_overlapped_rollback (write_new WtPut 5 (Some [1, 2])) True (Some 9))"
  using write_roundtrip [of "set_overlapped_rollback (write_new WtPut 5 (Some [1, 2])) True (Some 9)"]
  by (simp add: write_wf_def set_overlapped_rollback_def write_new_def is_short_value_def
      SHORT_VALUE_MAX_LEN_def)

end
