(* ===== verification/Engine.thy ===== *)
theory Engine
  imports Write_Record
begin

text \<open>
  The key-value engine below the transaction layer: column families and batched modifications
  (\<^verbatim>\<open>components/tikv_kv/src/lib.rs\<close>, \<^verbatim>\<open>components/engine_traits/src/cf_defs.rs\<close>) and the in-memory
  engine of the repository, one ordered map per column family
  (\<^verbatim>\<open>components/tikv_kv/src/btree_engine.rs\<close>).

  A \<^verbatim>\<open>BTreeMap\<close> is the list of its entries in key order. The engine's trees are shared through
  \<^verbatim>\<open>Arc<RwLock<_>>\<close>; here the engine is a value, a write returns the new engine, and a snapshot is
  the engine at the moment it was taken, which is what the \<^verbatim>\<open>Engine\<close> trait promises. The snapshots of the in-memory
  engine itself share its trees and see later writes, as its comments warn; the transaction layer is not run on such a
  snapshot across a write here.
\<close>

subsection \<open>Column families\<close>

type_synonym cf_name = string

definition CF_DEFAULT :: cf_name where "CF_DEFAULT = ''default''"
definition CF_LOCK :: cf_name where "CF_LOCK = ''lock''"
definition CF_WRITE :: cf_name where "CF_WRITE = ''write''"
definition CF_RAFT :: cf_name where "CF_RAFT = ''raft''"
definition ALL_CFS :: "cf_name list" where "ALL_CFS = [CF_DEFAULT, CF_LOCK, CF_WRITE, CF_RAFT]"
definition DATA_CFS :: "cf_name list" where "DATA_CFS = [CF_DEFAULT, CF_LOCK, CF_WRITE]"

lemmas cf_defs = CF_DEFAULT_def CF_LOCK_def CF_WRITE_def CF_RAFT_def

lemma cf_distinct [simp]:
  "CF_DEFAULT \<noteq> CF_LOCK" "CF_LOCK \<noteq> CF_DEFAULT" "CF_DEFAULT \<noteq> CF_WRITE"
  "CF_WRITE \<noteq> CF_DEFAULT" "CF_LOCK \<noteq> CF_WRITE" "CF_WRITE \<noteq> CF_LOCK"
  by (simp_all add: cf_defs)

text \<open>\<^verbatim>\<open>Iterator::position\<close>.\<close>

fun position :: "('a \<Rightarrow> bool) \<Rightarrow> 'a list \<Rightarrow> nat option" where
  "position p [] = None"
| "position p (x # xs) = (if p x then Some 0 else map_option Suc (position p xs))"

definition data_cf_offset :: "cf_name \<Rightarrow> (nat, 'e) result" where
  "data_cf_offset cf =
     (let cf = (if cf = [] then CF_DEFAULT else cf) in unwrap (position (\<lambda>c. c = cf) DATA_CFS))"

definition offset_to_cf :: "nat \<Rightarrow> (cf_name, 'e) result" where
  "offset_to_cf off = (if off < length DATA_CFS then Ok (DATA_CFS ! off) else Panic)"

definition name_to_cf :: "string \<Rightarrow> cf_name option" where
  "name_to_cf n = (if n = [] then Some CF_DEFAULT else find (\<lambda>c. n = c) ALL_CFS)"

definition is_data_cf :: "string \<Rightarrow> bool" where
  "is_data_cf cf = list_ex (\<lambda>c. c = cf) DATA_CFS"

lemma position_Some: "position p xs = Some i \<Longrightarrow> i < length xs \<and> p (xs ! i)"
proof (induction xs arbitrary: i)
  case (Cons x xs)
  then show ?case by (cases "p x") auto
qed simp

lemma position_eq_None: "position p xs = None \<longleftrightarrow> (\<forall>x\<in>set xs. \<not> p x)"
  by (induction xs) auto

lemma position_mem: "x \<in> set xs \<longleftrightarrow> position (\<lambda>c. c = x) xs \<noteq> None"
  by (auto simp: position_eq_None)

lemma data_cf_offset_roundtrip: "data_cf_offset cf = Ok i \<Longrightarrow> cf \<noteq> [] \<Longrightarrow> offset_to_cf i = Ok cf"
  by (auto simp: data_cf_offset_def offset_to_cf_def result_simps dest: position_Some)

subsection \<open>Errors of the engine\<close>

datatype error_header = StaleCommand | EpochNotMatch | FlashbackInProgress

datatype kv_error = KvRequest error_header | KvEmptyRequest

subsection \<open>Ordered maps\<close>

type_synonym ('k, 'v) btree = "('k \<times> 'v) list"
type_synonym tree = "(key, val) btree"

fun btree_insert :: "'k::linorder \<Rightarrow> 'v \<Rightarrow> ('k, 'v) btree \<Rightarrow> ('k, 'v) btree" where
  "btree_insert k v [] = [(k, v)]"
| "btree_insert k v ((k', v') # t) =
     (if k < k' then (k, v) # (k', v') # t
      else if k = k' then (k, v) # t
      else (k', v') # btree_insert k v t)"

fun btree_remove :: "'k \<Rightarrow> ('k, 'v) btree \<Rightarrow> ('k, 'v) btree" where
  "btree_remove k [] = []"
| "btree_remove k ((k', v') # t) = (if k = k' then t else (k', v') # btree_remove k t)"

definition btree_get :: "('k, 'v) btree \<Rightarrow> 'k \<Rightarrow> 'v option" where
  "btree_get t k = map_of t k"

definition tree_wf :: "('k::linorder, 'v) btree \<Rightarrow> bool" where
  "tree_wf t \<longleftrightarrow> sorted_wrt (<) (map fst t)"

datatype 'k bound = Included 'k | Excluded 'k | Unbounded

fun above_bound :: "'k::linorder bound \<Rightarrow> 'k \<Rightarrow> bool" where
  "above_bound (Included l) k \<longleftrightarrow> l \<le> k"
| "above_bound (Excluded l) k \<longleftrightarrow> l < k"
| "above_bound Unbounded k \<longleftrightarrow> True"

fun below_bound :: "'k::linorder bound \<Rightarrow> 'k \<Rightarrow> bool" where
  "below_bound (Included u) k \<longleftrightarrow> k \<le> u"
| "below_bound (Excluded u) k \<longleftrightarrow> k < u"
| "below_bound Unbounded k \<longleftrightarrow> True"

fun range_contains :: "'k::linorder bound \<times> 'k bound \<Rightarrow> 'k \<Rightarrow> bool" where
  "range_contains (l, u) k \<longleftrightarrow> above_bound l k \<and> below_bound u k"

text \<open>\<^verbatim>\<open>BTreeMap::range\<close> panics on an inverted range and on an empty one with both ends excluded.\<close>

fun range_ok :: "'k::linorder bound \<times> 'k bound \<Rightarrow> bool" where
  "range_ok (Excluded s, Excluded e) \<longleftrightarrow> s < e"
| "range_ok (Included s, Included e) \<longleftrightarrow> s \<le> e"
| "range_ok (Included s, Excluded e) \<longleftrightarrow> s \<le> e"
| "range_ok (Excluded s, Included e) \<longleftrightarrow> s \<le> e"
| "range_ok (Unbounded, u) \<longleftrightarrow> True"
| "range_ok (l, Unbounded) \<longleftrightarrow> True"

definition btree_range ::
  "('k::linorder, 'v) btree \<Rightarrow> 'k bound \<times> 'k bound \<Rightarrow> (('k, 'v) btree, 'e) result" where
  "btree_range t r = assert_then (range_ok r) (Ok (filter (\<lambda>e. range_contains r (fst e)) t))"

lemma range_ok_Unbounded [simp]: "range_ok (l, Unbounded)" "range_ok (Unbounded, u)"
  by (cases l; simp) (cases u; simp)

lemma tree_wf_Nil [simp]: "tree_wf []"
  by (simp add: tree_wf_def)

lemma tree_wf_Cons [simp]: "tree_wf (e # t) \<longleftrightarrow> (\<forall>x\<in>set t. fst e < fst x) \<and> tree_wf t"
  by (auto simp: tree_wf_def)

lemma tree_wf_append:
  "tree_wf (s @ t) \<longleftrightarrow> tree_wf s \<and> tree_wf t \<and> (\<forall>x\<in>set s. \<forall>y\<in>set t. fst x < fst y)"
  by (induction s) auto

lemma set_btree_insert: "tree_wf t \<Longrightarrow> set (btree_insert k v t) = insert (k, v) {e \<in> set t. fst e \<noteq> k}"
proof (induction k v t rule: btree_insert.induct)
  case (2 k v k' v' t)
  then have above: "\<forall>e\<in>set t. k' < fst e" by simp
  then have "k \<le> k' \<Longrightarrow> {e \<in> set t. fst e \<noteq> k} = set t" by fastforce
  moreover have "{e \<in> set ((k', v') # t). fst e \<noteq> k} =
    (if k' = k then {} else {(k', v')}) \<union> {e \<in> set t. fst e \<noteq> k}" by auto
  ultimately show ?case
    using 2 by (cases k k' rule: linorder_cases)
      (simp_all add: insert_commute less_imp_neq less_imp_neq [symmetric] less_imp_not_less)
qed simp

lemma set_btree_remove: "tree_wf t \<Longrightarrow> set (btree_remove k t) = {e \<in> set t. fst e \<noteq> k}"
  by (induction k t rule: btree_remove.induct) auto

lemma tree_wf_insert: "tree_wf t \<Longrightarrow> tree_wf (btree_insert k v t)"
  by (induction k v t rule: btree_insert.induct) (auto simp: set_btree_insert)

lemma tree_wf_remove: "tree_wf t \<Longrightarrow> tree_wf (btree_remove k t)"
  by (induction k t rule: btree_remove.induct) (auto simp: set_btree_remove)

lemma tree_wf_distinct: "tree_wf t \<Longrightarrow> distinct (map fst t)"
  by (auto simp: tree_wf_def strict_sorted_iff)

lemma btree_get_eq_Some: "tree_wf t \<Longrightarrow> btree_get t k = Some v \<longleftrightarrow> (k, v) \<in> set t"
  by (simp add: btree_get_def tree_wf_distinct map_of_eq_Some_iff)

lemma btree_get_insert:
  "tree_wf t \<Longrightarrow> btree_get (btree_insert k v t) = (btree_get t)(k \<mapsto> v)"
  by (induction k v t rule: btree_insert.induct) (auto simp: btree_get_def fun_eq_iff)

lemma btree_get_remove:
  "tree_wf t \<Longrightarrow> btree_get (btree_remove k t) = (btree_get t)(k := None)"
  by (rule ext, rule option_eqI)
    (simp add: btree_get_eq_Some tree_wf_remove set_btree_remove)

subsection \<open>The contract of an ordered map\<close>

text \<open>
  What the engine relies on: an insertion and a removal keep the map well formed and change the
  lookup of their key only. A sequence of updates then acts as the same sequence on the map the
  tree stands for.
\<close>

datatype tree_update = Ins key val | Del key

primrec map_update :: "tree_update \<Rightarrow> (key \<rightharpoonup> val) \<Rightarrow> (key \<rightharpoonup> val)" where
  "map_update (Ins k v) m = m(k \<mapsto> v)"
| "map_update (Del k) m = m(k := None)"

locale ordered_map =
  fixes wf :: "'t \<Rightarrow> bool" and ins :: "key \<Rightarrow> val \<Rightarrow> 't \<Rightarrow> 't"
    and del :: "key \<Rightarrow> 't \<Rightarrow> 't" and get :: "'t \<Rightarrow> key \<Rightarrow> val option"
  assumes wf_ins: "wf t \<Longrightarrow> wf (ins k v t)"
    and wf_del: "wf t \<Longrightarrow> wf (del k t)"
    and get_ins: "wf t \<Longrightarrow> get (ins k v t) = (get t)(k \<mapsto> v)"
    and get_del: "wf t \<Longrightarrow> get (del k t) = (get t)(k := None)"
begin

primrec upd :: "tree_update \<Rightarrow> 't \<Rightarrow> 't" where
  "upd (Ins k v) t = ins k v t"
| "upd (Del k) t = del k t"

lemma upd_refines: "wf t \<Longrightarrow> wf (upd u t) \<and> get (upd u t) = map_update u (get t)"
  by (cases u) (simp_all add: wf_ins wf_del get_ins get_del)

lemma upds_refine: "wf t \<Longrightarrow> wf (fold upd us t) \<and> get (fold upd us t) = fold map_update us (get t)"
  by (induction us arbitrary: t) (simp_all add: upd_refines)

end

interpretation btree: ordered_map tree_wf btree_insert btree_remove btree_get
  by unfold_locales
    (simp_all add: tree_wf_insert tree_wf_remove btree_get_insert btree_get_remove)

subsection \<open>Batched modifications\<close>

datatype modify =
    ModDelete cf_name key
  | ModPut cf_name key val
  | ModPessimisticLock key pessimistic_lock
  | ModDeleteRange cf_name key key bool
  | ModIngest

fun modify_cf_size :: "cf_name \<Rightarrow> nat" where
  "modify_cf_size cf = (if cf = CF_DEFAULT then 0 else length cf)"

primrec modify_size :: "modify \<Rightarrow> (nat, 'e) result" where
  "modify_size (ModDelete cf k) = Ok (modify_cf_size cf + length k)"
| "modify_size (ModPut cf k v) = Ok (modify_cf_size cf + length k + length v)"
| "modify_size (ModPessimisticLock k l) = Ok (modify_cf_size CF_LOCK + length k)"
| "modify_size (ModDeleteRange cf s e n) = Panic"
| "modify_size ModIngest = Panic"

primrec modify_key :: "modify \<Rightarrow> (key, 'e) result" where
  "modify_key (ModDelete cf k) = Ok k"
| "modify_key (ModPut cf k v) = Ok k"
| "modify_key (ModPessimisticLock k l) = Ok k"
| "modify_key (ModDeleteRange cf s e n) = Panic"
| "modify_key ModIngest = Panic"

definition as_pair :: "modify \<Rightarrow> (key \<times> pessimistic_lock, 'e) result" where
  "as_pair m = (case m of ModPessimisticLock k l \<Rightarrow> Ok (k, l) | _ \<Rightarrow> Panic)"

fun write_data_size :: "modify list \<Rightarrow> (nat, 'e) result" where
  "write_data_size [] = Ok 0"
| "write_data_size (m # ms) =
     and_then (modify_size m) (\<lambda>n. map_ok (\<lambda>total. n + total) (write_data_size ms))"

subsection \<open>The in-memory engine\<close>

record btree_engine =
  be_cf_names :: "cf_name list"
  be_cf_contents :: "tree list"

definition btree_engine_new :: "cf_name list \<Rightarrow> btree_engine" where
  "btree_engine_new cfs =
     (let names = (if list_ex (\<lambda>c. c = CF_DEFAULT) cfs then [] else [CF_DEFAULT]) @ cfs in
      \<lparr>be_cf_names = names, be_cf_contents = map (\<lambda>_. []) names\<rparr>)"

definition btree_engine_default :: btree_engine where
  "btree_engine_default = btree_engine_new [CF_WRITE, CF_DEFAULT, CF_LOCK]"

definition get_cf :: "btree_engine \<Rightarrow> cf_name \<Rightarrow> (tree, 'e) result" where
  "get_cf e cf =
     and_then (unwrap (position (\<lambda>c. c = cf) (be_cf_names e)))
       (\<lambda>index. if index < length (be_cf_contents e) then Ok (be_cf_contents e ! index) else Panic)"

text \<open>A write through the shared tree that \<^verbatim>\<open>get_cf\<close> hands out.\<close>

definition write_cf :: "btree_engine \<Rightarrow> cf_name \<Rightarrow> (tree \<Rightarrow> tree) \<Rightarrow> (btree_engine, 'e) result" where
  "write_cf e cf f =
     and_then (unwrap (position (\<lambda>c. c = cf) (be_cf_names e)))
       (\<lambda>index.
          if index < length (be_cf_contents e)
          then Ok (e\<lparr>be_cf_contents := (be_cf_contents e)[index := f (be_cf_contents e ! index)]\<rparr>)
          else Panic)"

primrec write_modify :: "btree_engine \<Rightarrow> modify \<Rightarrow> (btree_engine, kv_error) result" where
  "write_modify e (ModDelete cf k) = write_cf e cf (btree_remove k)"
| "write_modify e (ModPut cf k v) = write_cf e cf (btree_insert k v)"
| "write_modify e (ModPessimisticLock k l) =
     (let v = lock_to_bytes (into_lock l) in write_cf e CF_LOCK (btree_insert k v))"
| "write_modify e (ModDeleteRange cf s t n) = Panic"
| "write_modify e ModIngest = Panic"

fun write_modifies :: "btree_engine \<Rightarrow> modify list \<Rightarrow> (btree_engine, kv_error) result" where
  "write_modifies e [] = Ok e"
| "write_modifies e (m # ms) = and_then (write_modify e m) (\<lambda>e. write_modifies e ms)"

definition async_write :: "btree_engine \<Rightarrow> modify list \<Rightarrow> (btree_engine, kv_error) result" where
  "async_write e modifies =
     (if modifies = [] then Err KvEmptyRequest else write_modifies e modifies)"

definition snapshot_get_cf :: "btree_engine \<Rightarrow> cf_name \<Rightarrow> key \<Rightarrow> (val option, kv_error) result" where
  "snapshot_get_cf e cf k = map_ok (\<lambda>t. btree_get t k) (get_cf e cf)"

definition snapshot_get :: "btree_engine \<Rightarrow> key \<Rightarrow> (val option, kv_error) result" where
  "snapshot_get e k = snapshot_get_cf e CF_DEFAULT k"

subsection \<open>Writing a batch is a sequence of map updates\<close>

definition engine_wf :: "btree_engine \<Rightarrow> bool" where
  "engine_wf e \<longleftrightarrow>
     length (be_cf_contents e) = length (be_cf_names e) \<and> list_all tree_wf (be_cf_contents e)"

definition engine_tree :: "btree_engine \<Rightarrow> cf_name \<Rightarrow> tree" where
  "engine_tree e cf =
     (case position (\<lambda>c. c = cf) (be_cf_names e) of Some i \<Rightarrow> be_cf_contents e ! i | None \<Rightarrow> [])"

definition engine_map :: "btree_engine \<Rightarrow> cf_name \<Rightarrow> key \<rightharpoonup> val" where
  "engine_map e cf = btree_get (engine_tree e cf)"

primrec modify_update :: "modify \<Rightarrow> (cf_name \<times> tree_update) option" where
  "modify_update (ModDelete cf k) = Some (cf, Del k)"
| "modify_update (ModPut cf k v) = Some (cf, Ins k v)"
| "modify_update (ModPessimisticLock k l) = Some (CF_LOCK, Ins k (lock_to_bytes (into_lock l)))"
| "modify_update (ModDeleteRange cf s e n) = None"
| "modify_update ModIngest = None"

definition modify_ok :: "btree_engine \<Rightarrow> modify \<Rightarrow> bool" where
  "modify_ok e m \<longleftrightarrow>
     (case modify_update m of Some (cf, _) \<Rightarrow> cf \<in> set (be_cf_names e) | None \<Rightarrow> False)"

definition apply_modify ::
  "modify \<Rightarrow> (cf_name \<Rightarrow> key \<rightharpoonup> val) \<Rightarrow> (cf_name \<Rightarrow> key \<rightharpoonup> val)" where
  "apply_modify m M =
     (case modify_update m of Some (cf, u) \<Rightarrow> M(cf := map_update u (M cf)) | None \<Rightarrow> M)"

lemma engine_wf_default [simp]: "engine_wf btree_engine_default"
  by (simp add: engine_wf_def btree_engine_default_def btree_engine_new_def)

lemma engine_tree_wf: "engine_wf e \<Longrightarrow> tree_wf (engine_tree e cf)"
  by (auto simp: engine_wf_def engine_tree_def list_all_length split: option.splits
      dest: position_Some)

lemma get_cf_eq:
  "engine_wf e \<Longrightarrow>
     get_cf e cf = (if cf \<in> set (be_cf_names e) then Ok (engine_tree e cf) else Panic)"
  by (cases "position (\<lambda>c. c = cf) (be_cf_names e)")
    (auto simp: get_cf_def engine_tree_def engine_wf_def position_mem dest: position_Some)

lemma snapshot_get_cf_eq:
  "engine_wf e \<Longrightarrow> cf \<in> set (be_cf_names e) \<Longrightarrow> snapshot_get_cf e cf k = Ok (engine_map e cf k)"
  by (simp add: snapshot_get_cf_def get_cf_eq engine_map_def)

lemma write_cf_eq:
  assumes w: "engine_wf e" and f: "\<And>t. tree_wf t \<Longrightarrow> tree_wf (f t)"
  shows "if cf \<in> set (be_cf_names e)
     then \<exists>e'. write_cf e cf f = Ok e' \<and> engine_wf e' \<and> be_cf_names e' = be_cf_names e \<and>
       engine_tree e' = (engine_tree e)(cf := f (engine_tree e cf))
     else write_cf e cf f = Panic"
proof (cases "position (\<lambda>c. c = cf) (be_cf_names e)")
  case (Some i)
  let ?e = "e\<lparr>be_cf_contents := (be_cf_contents e)[i := f (be_cf_contents e ! i)]\<rparr>"
  from Some have i: "i < length (be_cf_contents e)" "be_cf_names e ! i = cf"
    using w by (auto simp: engine_wf_def dest: position_Some)
  then have "engine_wf ?e"
    using w f by (auto simp: engine_wf_def list_all_length nth_list_update)
  moreover have "engine_tree ?e = (engine_tree e)(cf := f (engine_tree e cf))"
    using Some i
    by (auto simp: engine_tree_def fun_eq_iff nth_list_update split: option.splits
        dest: position_Some)
  ultimately show ?thesis
    using Some i by (simp add: write_cf_def position_mem)
qed (auto simp: write_cf_def position_mem)

lemma btree_upd_eq: "btree_insert k v = btree.upd (Ins k v)" "btree_remove k = btree.upd (Del k)"
  by (simp_all add: fun_eq_iff)

lemma write_cf_upd:
  assumes "engine_wf e" "cf \<in> set (be_cf_names e)"
  shows "\<exists>e'. write_cf e cf (btree.upd u) = Ok e' \<and> engine_wf e' \<and>
    be_cf_names e' = be_cf_names e \<and>
    engine_map e' = (engine_map e)(cf := map_update u (engine_map e cf))"
  using write_cf_eq [of e "btree.upd u" cf] assms btree.upd_refines [OF engine_tree_wf [of e cf]]
  by (auto simp: engine_map_def fun_eq_iff btree.upd_refines)

lemma write_modify_eq:
  assumes "engine_wf e"
  shows "if modify_ok e m
     then \<exists>e'. write_modify e m = Ok e' \<and> engine_wf e' \<and> be_cf_names e' = be_cf_names e \<and>
       engine_map e' = apply_modify m (engine_map e)
     else write_modify e m = Panic"
proof (cases "modify_update m")
  case (Some p)
  obtain cf u where p: "p = (cf, u)" by (cases p)
  have m: "write_modify e m = write_cf e cf (btree.upd u)"
    using Some p by (cases m) (auto simp: btree_upd_eq)
  have "write_cf e cf (btree.upd u) = Panic" if "cf \<notin> set (be_cf_names e)"
    using that write_cf_eq [OF assms, of "btree.upd u" cf] by (simp add: btree.upd_refines)
  then show ?thesis
    using Some p m write_cf_upd [OF assms, of cf u] by (auto simp: modify_ok_def apply_modify_def)
next
  case None
  then show ?thesis by (cases m) (auto simp: modify_ok_def)
qed

lemma modify_ok_cong: "be_cf_names e' = be_cf_names e \<Longrightarrow> modify_ok e' = modify_ok e"
  by (auto simp: modify_ok_def fun_eq_iff split: option.splits)

lemma write_modifies_eq:
  assumes "engine_wf e"
  shows "if list_all (modify_ok e) ms
     then \<exists>e'. write_modifies e ms = Ok e' \<and> engine_wf e' \<and> be_cf_names e' = be_cf_names e \<and>
       engine_map e' = fold apply_modify ms (engine_map e)
     else write_modifies e ms = Panic"
  using assms
proof (induction ms arbitrary: e)
  case (Cons m ms)
  show ?case
  proof (cases "modify_ok e m")
    case True
    then obtain e' where e': "write_modify e m = Ok e'" "engine_wf e'"
      "be_cf_names e' = be_cf_names e" "engine_map e' = apply_modify m (engine_map e)"
      using write_modify_eq [OF Cons.prems, of m] by auto
    then show ?thesis
      using Cons.IH [OF e'(2)] True modify_ok_cong [OF e'(3)] by (simp split: if_splits)
  next
    case False
    then show ?thesis using write_modify_eq [OF Cons.prems, of m] by simp
  qed
qed simp

text \<open>
  C27: Writing a batch of modifications to a well-formed engine (\<^verbatim>\<open>write_modifies\<close>) panics exactly
  when the batch has a range deletion, an ingestion or an unknown column family; otherwise it
  succeeds, keeps the engine well formed, and the map every column family stands for is changed by
  the batch's puts, deletes and pessimistic locks, in their order, and by nothing else.
\<close>

theorem write_modifies_refines:
  assumes "engine_wf e"
  shows "if list_all (modify_ok e) ms
     then \<exists>e'. write_modifies e ms = Ok e' \<and> engine_wf e' \<and> be_cf_names e' = be_cf_names e \<and>
       engine_map e' = fold apply_modify ms (engine_map e)
     else write_modifies e ms = Panic"
  by (rule write_modifies_eq [OF assms])

theorem write_modifies_refines_witness:
  "\<exists>e'. write_modifies btree_engine_default
         [ModPut CF_WRITE [1] [2], ModPut CF_LOCK [3] [4], ModDelete CF_WRITE [1], ModPut CF_DEFAULT [1] [5]]
       = Ok e' \<and> engine_map e' CF_WRITE [1] = None \<and> engine_map e' CF_LOCK [3] = Some [4]"
proof -
  have "list_all (modify_ok btree_engine_default)
    [ModPut CF_WRITE [1] [2], ModPut CF_LOCK [3] [4], ModDelete CF_WRITE [1], ModPut CF_DEFAULT [1] [5]]"
    by (simp add: modify_ok_def btree_engine_default_def btree_engine_new_def)
  then show ?thesis
    using write_modifies_refines [of btree_engine_default
      "[ModPut CF_WRITE [1] [2], ModPut CF_LOCK [3] [4], ModDelete CF_WRITE [1], ModPut CF_DEFAULT [1] [5]]"]
    by (auto simp: apply_modify_def)
qed

end
