(* ===== verification/Cursor.thy ===== *)
theory Cursor
  imports Engine
begin

text \<open>
  The iterator of the in-memory engine (\<^verbatim>\<open>components/tikv_kv/src/btree_engine.rs\<close>) and the cursor
  every reader uses (\<^verbatim>\<open>components/tikv_kv/src/cursor.rs\<close>), with its near seeks: a few steps from
  the current position before a full seek, and the remembered ends of the data. The counters of
  \<^verbatim>\<open>CfStatistics\<close> are kept, since the last-change estimate reads them; bytes read, tombstones and
  the has-read flags only feed metrics and are left out.
\<close>

subsection \<open>Iterators of the in-memory engine\<close>

record btree_iterator =
  bi_tree :: tree
  bi_cur_key :: "key option"
  bi_cur_value :: "val option"
  bi_valid :: bool
  bi_bounds :: "key bound \<times> key bound"

definition btree_iterator_new :: "tree \<Rightarrow> bytes option \<Rightarrow> bytes option \<Rightarrow> btree_iterator" where
  "btree_iterator_new tree lower upper =
     (let lower_bound = (case lower of None \<Rightarrow> Unbounded | Some key \<Rightarrow> Included (from_raw key));
          upper_bound = (case upper of None \<Rightarrow> Unbounded | Some key \<Rightarrow> Excluded (from_raw key)) in
      \<lparr>bi_tree = tree, bi_cur_key = None, bi_cur_value = None, bi_valid = False,
       bi_bounds = (lower_bound, upper_bound)\<rparr>)"

definition seek_to_range_endpoint ::
  "btree_iterator \<Rightarrow> key bound \<times> key bound \<Rightarrow> bool \<Rightarrow> (bool \<times> btree_iterator, kv_error) result" where
  "seek_to_range_endpoint it rg left =
     and_then (btree_range (bi_tree it) rg) (\<lambda>r.
       let item = (if r = [] then None else Some (if left then hd r else last r));
           it = (case item of
                   Some (k, v) \<Rightarrow>
                     if range_contains (bi_bounds it) k
                     then it\<lparr>bi_cur_key := Some k, bi_cur_value := Some v, bi_valid := True\<rparr>
                     else it\<lparr>bi_valid := False\<rparr>
                 | None \<Rightarrow> it\<lparr>bi_valid := False\<rparr>) in
       Ok (bi_valid it, it))"

definition it_next :: "btree_iterator \<Rightarrow> (bool \<times> btree_iterator, kv_error) result" where
  "it_next it = and_then (unwrap (bi_cur_key it))
     (\<lambda>k. seek_to_range_endpoint it (Excluded k, Unbounded) True)"

definition it_prev :: "btree_iterator \<Rightarrow> (bool \<times> btree_iterator, kv_error) result" where
  "it_prev it = and_then (unwrap (bi_cur_key it))
     (\<lambda>k. seek_to_range_endpoint it (Unbounded, Excluded k) False)"

definition it_seek :: "btree_iterator \<Rightarrow> key \<Rightarrow> (bool \<times> btree_iterator, kv_error) result" where
  "it_seek it key = seek_to_range_endpoint it (Included key, Unbounded) True"

definition it_seek_for_prev ::
  "btree_iterator \<Rightarrow> key \<Rightarrow> (bool \<times> btree_iterator, kv_error) result" where
  "it_seek_for_prev it key = seek_to_range_endpoint it (Unbounded, Included key) False"

definition it_seek_to_first :: "btree_iterator \<Rightarrow> (bool \<times> btree_iterator, kv_error) result" where
  "it_seek_to_first it = seek_to_range_endpoint it (bi_bounds it) True"

definition it_seek_to_last :: "btree_iterator \<Rightarrow> (bool \<times> btree_iterator, kv_error) result" where
  "it_seek_to_last it = seek_to_range_endpoint it (bi_bounds it) False"

definition it_key :: "btree_iterator \<Rightarrow> (key, kv_error) result" where
  "it_key it = assert_then (bi_valid it) (unwrap (bi_cur_key it))"

definition it_value :: "btree_iterator \<Rightarrow> (val, kv_error) result" where
  "it_value it = assert_then (bi_valid it) (unwrap (bi_cur_value it))"

subsection \<open>Statistics\<close>

record cf_statistics =
  st_processed_keys :: u64
  st_get :: u64
  st_next :: u64
  st_prev :: u64
  st_seek :: u64
  st_seek_for_prev :: u64
  st_over_seek_bound :: u64

definition cf_statistics_default :: cf_statistics where
  "cf_statistics_default =
     \<lparr>st_processed_keys = 0, st_get = 0, st_next = 0, st_prev = 0, st_seek = 0,
      st_seek_for_prev = 0, st_over_seek_bound = 0\<rparr>"

definition total_op_count :: "cf_statistics \<Rightarrow> u64" where
  "total_op_count st = st_get st + st_next st + st_prev st + st_seek st + st_seek_for_prev st"

definition cf_statistics_add :: "cf_statistics \<Rightarrow> cf_statistics \<Rightarrow> cf_statistics" where
  "cf_statistics_add st other =
     \<lparr>st_processed_keys = saturating_add (st_processed_keys st) (st_processed_keys other),
      st_get = saturating_add (st_get st) (st_get other),
      st_next = saturating_add (st_next st) (st_next other),
      st_prev = saturating_add (st_prev st) (st_prev other),
      st_seek = saturating_add (st_seek st) (st_seek other),
      st_seek_for_prev = saturating_add (st_seek_for_prev st) (st_seek_for_prev other),
      st_over_seek_bound = saturating_add (st_over_seek_bound st) (st_over_seek_bound other)\<rparr>"

subsection \<open>Cursors\<close>

definition SEEK_BOUND :: nat where "SEEK_BOUND = 8"

datatype scan_mode = Forward | Backward | Mixed

record cursor =
  c_iter :: btree_iterator
  c_scan_mode :: scan_mode
  c_prefix_seek :: bool
  c_min_key :: "key option"
  c_max_key :: "key option"

type_synonym cs = "cursor \<times> cf_statistics"

definition cursor_new :: "btree_iterator \<Rightarrow> scan_mode \<Rightarrow> bool \<Rightarrow> cursor" where
  "cursor_new iter mode prefix_seek =
     \<lparr>c_iter = iter, c_scan_mode = mode, c_prefix_seek = prefix_seek,
      c_min_key = None, c_max_key = None\<rparr>"

text \<open>
  \<^verbatim>\<open>CursorBuilder::build\<close> over a snapshot: the cache, timestamp and key-only options are hints to
  the storage and do not change what a cursor of this engine sees.
\<close>

definition build_cursor ::
  "btree_engine \<Rightarrow> cf_name \<Rightarrow> scan_mode \<Rightarrow> bool \<Rightarrow> key option \<Rightarrow> key option \<Rightarrow>
     (cursor, kv_error) result" where
  "build_cursor snapshot cf mode prefix_seek lower upper =
     map_ok (\<lambda>t. cursor_new (btree_iterator_new t lower upper) mode prefix_seek)
       (get_cf snapshot cf)"

definition cursor_valid :: "cursor \<Rightarrow> bool" where "cursor_valid c = bi_valid (c_iter c)"
definition cursor_key :: "cursor \<Rightarrow> (key, kv_error) result" where "cursor_key c = it_key (c_iter c)"
definition cursor_value :: "cursor \<Rightarrow> (val, kv_error) result" where
  "cursor_value c = it_value (c_iter c)"

text \<open>The guard of \<^verbatim>\<open>StatsCollector\<close> counts the operation when the iterator call returns.\<close>

fun moved ::
  "cursor \<Rightarrow> cf_statistics \<Rightarrow> (bool \<times> btree_iterator, kv_error) result \<Rightarrow>
     (bool \<times> cs, kv_error) result" where
  "moved c st r = map_ok (\<lambda>(b, it). (b, (c\<lparr>c_iter := it\<rparr>, st))) r"

fun cursor_next :: "cs \<Rightarrow> (bool \<times> cs, kv_error) result" where
  "cursor_next (c, st) = moved c (st\<lparr>st_next := st_next st + 1\<rparr>) (it_next (c_iter c))"

fun cursor_prev :: "cs \<Rightarrow> (bool \<times> cs, kv_error) result" where
  "cursor_prev (c, st) = moved c (st\<lparr>st_prev := st_prev st + 1\<rparr>) (it_prev (c_iter c))"

fun internal_seek :: "key \<Rightarrow> cs \<Rightarrow> (bool \<times> cs, kv_error) result" where
  "internal_seek key (c, st) = moved c (st\<lparr>st_seek := st_seek st + 1\<rparr>) (it_seek (c_iter c) key)"

fun internal_seek_for_prev :: "key \<Rightarrow> cs \<Rightarrow> (bool \<times> cs, kv_error) result" where
  "internal_seek_for_prev key (c, st) =
     moved c (st\<lparr>st_seek_for_prev := st_seek_for_prev st + 1\<rparr>) (it_seek_for_prev (c_iter c) key)"

fun seek_to_first :: "cs \<Rightarrow> (bool \<times> cs, kv_error) result" where
  "seek_to_first (c, st) = assert_then (\<not> c_prefix_seek c)
     (moved c (st\<lparr>st_seek := st_seek st + 1\<rparr>) (it_seek_to_first (c_iter c)))"

fun seek_to_last :: "cs \<Rightarrow> (bool \<times> cs, kv_error) result" where
  "seek_to_last (c, st) = assert_then (\<not> c_prefix_seek c)
     (moved c (st\<lparr>st_seek := st_seek st + 1\<rparr>) (it_seek_to_last (c_iter c)))"

definition beyond_max :: "cursor \<Rightarrow> key \<Rightarrow> bool" where
  "beyond_max c key = (case c_max_key c of None \<Rightarrow> False | Some k \<Rightarrow> k \<le> key)"

definition beyond_min :: "cursor \<Rightarrow> key \<Rightarrow> bool" where
  "beyond_min c key = (case c_min_key c of None \<Rightarrow> False | Some k \<Rightarrow> key \<le> k)"

definition set_max_key :: "key \<Rightarrow> cs \<Rightarrow> cs" where
  "set_max_key key = (\<lambda>(c, st). (if c_prefix_seek c then c else c\<lparr>c_max_key := Some key\<rparr>, st))"

definition set_min_key :: "key \<Rightarrow> cs \<Rightarrow> cs" where
  "set_min_key key = (\<lambda>(c, st). (if c_prefix_seek c then c else c\<lparr>c_min_key := Some key\<rparr>, st))"

fun cursor_seek :: "key \<Rightarrow> cs \<Rightarrow> (bool \<times> cs, kv_error) result" where
  "cursor_seek key (c, st) =
     assert_then (c_scan_mode c \<noteq> Backward)
       (if beyond_max c key then Ok (False, (c, st))
        else
          and_then
            (if c_scan_mode c = Forward \<and> cursor_valid c
             then map_ok (\<lambda>k. key \<le> k) (cursor_key c) else Ok False)
            (\<lambda>there.
               if there then Ok (True, (c, st))
               else
                 and_then (internal_seek key (c, st)) (\<lambda>(found, cs).
                   if \<not> found then Ok (False, set_max_key key cs) else Ok (True, cs))))"

fun seek_for_prev :: "key \<Rightarrow> cs \<Rightarrow> (bool \<times> cs, kv_error) result" where
  "seek_for_prev key (c, st) =
     assert_then (c_scan_mode c \<noteq> Forward)
       (if beyond_min c key then Ok (False, (c, st))
        else
          and_then
            (if c_scan_mode c = Backward \<and> cursor_valid c
             then map_ok (\<lambda>k. k \<le> key) (cursor_key c) else Ok False)
            (\<lambda>there.
               if there then Ok (True, (c, st))
               else
                 and_then (internal_seek_for_prev key (c, st)) (\<lambda>(found, cs).
                   if \<not> found then Ok (False, set_min_key key cs) else Ok (True, cs))))"

text \<open>
  \<^verbatim>\<open>near_loop!\<close>: run the condition, which moves the cursor, until it fails; the answer is true when
  the bound was reached and the caller returns the fallback instead.
\<close>

function near_loop ::
  "(cs \<Rightarrow> (bool \<times> cs, kv_error) result) \<Rightarrow> nat \<Rightarrow> cs \<Rightarrow> (bool \<times> cs, kv_error) result" where
  "near_loop cond cnt cs =
     and_then (cond cs) (\<lambda>(b, cs).
       if \<not> b then Ok (False, cs)
       else if cnt + 1 \<ge> SEEK_BOUND
       then (case cs of (c, st) \<Rightarrow> Ok (True, (c, st\<lparr>st_over_seek_bound := st_over_seek_bound st + 1\<rparr>)))
       else near_loop cond (cnt + 1) cs)"
  by pat_completeness auto

termination near_loop
  by (relation "measure (\<lambda>(cond, cnt, cs). SEEK_BOUND - cnt)") auto

definition prev_while_greater :: "key \<Rightarrow> cs \<Rightarrow> (bool \<times> cs, kv_error) result" where
  "prev_while_greater key cs = and_then (cursor_prev cs) (\<lambda>(b, cs).
     if \<not> b then Ok (False, cs) else map_ok (\<lambda>k. (key < k, cs)) (cursor_key (fst cs)))"

definition next_while_less :: "key \<Rightarrow> cs \<Rightarrow> (bool \<times> cs, kv_error) result" where
  "next_while_less key cs = and_then (cursor_next cs) (\<lambda>(b, cs).
     if \<not> b then Ok (False, cs) else map_ok (\<lambda>k. (k < key, cs)) (cursor_key (fst cs)))"

definition near_seek_end :: "key \<Rightarrow> cs \<Rightarrow> (bool \<times> cs, kv_error) result" where
  "near_seek_end key cs =
     (if \<not> cursor_valid (fst cs) then Ok (False, set_max_key key cs) else Ok (True, cs))"

fun near_seek :: "key \<Rightarrow> cs \<Rightarrow> (bool \<times> cs, kv_error) result" where
  "near_seek key (c, st) =
     assert_then (c_scan_mode c \<noteq> Backward)
       (if \<not> cursor_valid c then cursor_seek key (c, st)
        else and_then (cursor_key c) (\<lambda>k.
          if k = key \<or> c_scan_mode c = Forward \<and> key < k then Ok (True, (c, st))
          else if beyond_max c key then Ok (False, (c, st))
          else if key < k then
            and_then (near_loop (prev_while_greater key) 0 (c, st)) (\<lambda>(over, cs).
              if over then cursor_seek key cs
              else if cursor_valid (fst cs) then
                and_then (cursor_key (fst cs)) (\<lambda>k.
                  if k < key then and_then (cursor_next cs) (\<lambda>(_, cs). near_seek_end key cs)
                  else near_seek_end key cs)
              else if c_prefix_seek (fst cs) then cursor_seek key cs
              else and_then (seek_to_first cs) (\<lambda>(b, cs). assert_then b (Ok (True, cs))))
          else
            and_then (near_loop (next_while_less key) 0 (c, st)) (\<lambda>(over, cs).
              if over then cursor_seek key cs else near_seek_end key cs)))"

definition near_prev_end :: "key \<Rightarrow> cs \<Rightarrow> (bool \<times> cs, kv_error) result" where
  "near_prev_end key cs =
     (if \<not> cursor_valid (fst cs) then Ok (False, set_min_key key cs) else Ok (True, cs))"

fun near_seek_for_prev :: "key \<Rightarrow> cs \<Rightarrow> (bool \<times> cs, kv_error) result" where
  "near_seek_for_prev key (c, st) =
     assert_then (c_scan_mode c \<noteq> Forward)
       (if \<not> cursor_valid c then seek_for_prev key (c, st)
        else and_then (cursor_key c) (\<lambda>k.
          if k = key \<or> c_scan_mode c = Backward \<and> k < key then Ok (True, (c, st))
          else if beyond_min c key then Ok (False, (c, st))
          else if k < key then
            and_then (near_loop (next_while_less key) 0 (c, st)) (\<lambda>(over, cs).
              if over then seek_for_prev key cs
              else if cursor_valid (fst cs) then
                and_then (cursor_key (fst cs)) (\<lambda>k.
                  if key < k then and_then (cursor_prev cs) (\<lambda>(_, cs). near_prev_end key cs)
                  else near_prev_end key cs)
              else if c_prefix_seek (fst cs) then seek_for_prev key cs
              else and_then (seek_to_last cs) (\<lambda>(b, cs). assert_then b (Ok (True, cs))))
          else
            and_then (near_loop (prev_while_greater key) 0 (c, st)) (\<lambda>(over, cs).
              if over then seek_for_prev key cs else near_prev_end key cs)))"

text \<open>\<^verbatim>\<open>Cursor::get\<close>, and the seeks to the last key strictly below the given one.\<close>

definition value_if_at :: "key \<Rightarrow> bool \<times> cs \<Rightarrow> (val option \<times> cs, kv_error) result" where
  "value_if_at key = (\<lambda>(found, cs).
     if \<not> found then Ok (None, cs)
     else and_then (cursor_key (fst cs)) (\<lambda>k.
       if k = key then map_ok (\<lambda>v. (Some v, cs)) (cursor_value (fst cs)) else Ok (None, cs)))"

fun cursor_get :: "key \<Rightarrow> cs \<Rightarrow> (val option \<times> cs, kv_error) result" where
  "cursor_get key (c, st) =
     and_then
       (if c_scan_mode c \<noteq> Backward then near_seek key (c, st) else near_seek_for_prev key (c, st))
       (value_if_at key)"

definition prev_if_at :: "key \<Rightarrow> bool \<times> cs \<Rightarrow> (bool \<times> cs, kv_error) result" where
  "prev_if_at key = (\<lambda>(found, cs).
     if \<not> found then Ok (False, cs)
     else and_then (cursor_key (fst cs)) (\<lambda>k. if k = key then cursor_prev cs else Ok (True, cs)))"

definition reverse_seek :: "key \<Rightarrow> cs \<Rightarrow> (bool \<times> cs, kv_error) result" where
  "reverse_seek key cs = and_then (seek_for_prev key cs) (prev_if_at key)"

definition near_reverse_seek :: "key \<Rightarrow> cs \<Rightarrow> (bool \<times> cs, kv_error) result" where
  "near_reverse_seek key cs = and_then (near_seek_for_prev key cs) (prev_if_at key)"

declare near_loop.simps [simp del]

subsection \<open>Positions\<close>

text \<open>
  The entry an iterator stands on, and the entries the moves lead to. The moves are described for
  iterators without bounds, which is what the transaction readers build.
\<close>

definition iter_pos :: "btree_iterator \<Rightarrow> (key \<times> val) option" where
  "iter_pos it =
     (if bi_valid it
      then (case (bi_cur_key it, bi_cur_value it) of (Some k, Some v) \<Rightarrow> Some (k, v) | _ \<Rightarrow> None)
      else None)"

definition iter_ok :: "btree_iterator \<Rightarrow> bool" where
  "iter_ok it \<longleftrightarrow>
     tree_wf (bi_tree it) \<and> bi_bounds it = (Unbounded, Unbounded) \<and>
     (bi_valid it \<longrightarrow> iter_pos it \<noteq> None) \<and>
     (case iter_pos it of None \<Rightarrow> True | Some e \<Rightarrow> e \<in> set (bi_tree it))"

definition move_to :: "(key \<times> val) option \<Rightarrow> btree_iterator \<Rightarrow> btree_iterator" where
  "move_to p it =
     (case p of
        Some (k, v) \<Rightarrow> it\<lparr>bi_cur_key := Some k, bi_cur_value := Some v, bi_valid := True\<rparr>
      | None \<Rightarrow> it\<lparr>bi_valid := False\<rparr>)"

definition first_ge :: "tree \<Rightarrow> key \<Rightarrow> (key \<times> val) option" where
  "first_ge t k = find (\<lambda>e. k \<le> fst e) t"

definition first_gt :: "tree \<Rightarrow> key \<Rightarrow> (key \<times> val) option" where
  "first_gt t k = find (\<lambda>e. k < fst e) t"

definition last_le :: "tree \<Rightarrow> key \<Rightarrow> (key \<times> val) option" where
  "last_le t k = find (\<lambda>e. fst e \<le> k) (rev t)"

definition last_lt :: "tree \<Rightarrow> key \<Rightarrow> (key \<times> val) option" where
  "last_lt t k = find (\<lambda>e. fst e < k) (rev t)"

lemma find_filter: "(if filter p t = [] then None else Some (hd (filter p t))) = find p t"
  by (induction t) auto

lemma find_rev_filter: "(if filter p t = [] then None else Some (last (filter p t))) = find p (rev t)"
  by (induction t rule: rev_induct) auto

lemma tree_find_Some:
  "tree_wf t \<Longrightarrow> find (\<lambda>e. p (fst e)) t = Some e \<longleftrightarrow>
     e \<in> set t \<and> p (fst e) \<and> (\<forall>x\<in>set t. p (fst x) \<longrightarrow> fst e \<le> fst x)"
  by (induction t) (auto dest: less_le_not_le [THEN iffD1])

lemma tree_find_rev_Some:
  "tree_wf t \<Longrightarrow> find (\<lambda>e. p (fst e)) (rev t) = Some e \<longleftrightarrow>
     e \<in> set t \<and> p (fst e) \<and> (\<forall>x\<in>set t. p (fst x) \<longrightarrow> fst x \<le> fst e)"
proof (induction t rule: rev_induct)
  case (snoc x t)
  then show ?case
    by (auto simp: tree_wf_append dest: less_le_not_le [THEN iffD1])
qed simp

lemma find_None: "find p t = None \<longleftrightarrow> (\<forall>e\<in>set t. \<not> p e)"
  by (induction t) auto

lemmas pos_defs = first_ge_def first_gt_def last_le_def last_lt_def

lemma pos_None:
  "first_ge t k = None \<longleftrightarrow> (\<forall>e\<in>set t. fst e < k)"
  "first_gt t k = None \<longleftrightarrow> (\<forall>e\<in>set t. fst e \<le> k)"
  "last_le t k = None \<longleftrightarrow> (\<forall>e\<in>set t. k < fst e)"
  "last_lt t k = None \<longleftrightarrow> (\<forall>e\<in>set t. k \<le> fst e)"
  by (auto simp: pos_defs find_None not_le not_less)

lemma first_ge_Some:
  "tree_wf t \<Longrightarrow> first_ge t k = Some e \<longleftrightarrow>
     e \<in> set t \<and> k \<le> fst e \<and> (\<forall>x\<in>set t. k \<le> fst x \<longrightarrow> fst e \<le> fst x)"
  unfolding first_ge_def by (rule tree_find_Some)

lemma first_gt_Some:
  "tree_wf t \<Longrightarrow> first_gt t k = Some e \<longleftrightarrow>
     e \<in> set t \<and> k < fst e \<and> (\<forall>x\<in>set t. k < fst x \<longrightarrow> fst e \<le> fst x)"
  unfolding first_gt_def by (rule tree_find_Some)

lemma last_le_Some:
  "tree_wf t \<Longrightarrow> last_le t k = Some e \<longleftrightarrow>
     e \<in> set t \<and> fst e \<le> k \<and> (\<forall>x\<in>set t. fst x \<le> k \<longrightarrow> fst x \<le> fst e)"
  unfolding last_le_def by (rule tree_find_rev_Some)

lemma last_lt_Some:
  "tree_wf t \<Longrightarrow> last_lt t k = Some e \<longleftrightarrow>
     e \<in> set t \<and> fst e < k \<and> (\<forall>x\<in>set t. fst x < k \<longrightarrow> fst x \<le> fst e)"
  unfolding last_lt_def by (rule tree_find_rev_Some)

lemmas pos_Some = first_ge_Some first_gt_Some last_le_Some last_lt_Some

lemma move_to_simps [simp]:
  "iter_pos (move_to p it) = p" "bi_tree (move_to p it) = bi_tree it"
  "bi_bounds (move_to p it) = bi_bounds it" "bi_valid (move_to p it) \<longleftrightarrow> p \<noteq> None"
  by (auto simp: move_to_def iter_pos_def split: option.splits)

lemma iter_ok_move_to:
  "iter_ok it \<Longrightarrow> (\<And>e. p = Some e \<Longrightarrow> e \<in> set (bi_tree it)) \<Longrightarrow> iter_ok (move_to p it)"
  by (auto simp: iter_ok_def split: option.splits)

lemma seek_to_range_endpoint_eq:
  assumes "bi_bounds it = (Unbounded, Unbounded)" and "range_ok r"
  shows "seek_to_range_endpoint it r left =
     (let p = find (\<lambda>e. range_contains r (fst e)) (if left then bi_tree it else rev (bi_tree it)) in
      Ok (p \<noteq> None, move_to p it))"
  using assms find_filter [of "\<lambda>e. range_contains r (fst e)" "bi_tree it"]
    find_rev_filter [of "\<lambda>e. range_contains r (fst e)" "bi_tree it"]
  by (auto simp: seek_to_range_endpoint_def btree_range_def move_to_def Let_def
      split: option.splits if_splits)

lemma iter_ok_bounds: "iter_ok it \<Longrightarrow> bi_bounds it = (Unbounded, Unbounded)"
  by (simp add: iter_ok_def)

lemma iter_ok_tree: "iter_ok it \<Longrightarrow> tree_wf (bi_tree it)"
  by (simp add: iter_ok_def)

lemma iter_ok_mem: "iter_ok it \<Longrightarrow> iter_pos it = Some e \<Longrightarrow> e \<in> set (bi_tree it)"
  by (simp add: iter_ok_def)

lemma iter_ok_valid: "iter_ok it \<Longrightarrow> bi_valid it \<longleftrightarrow> iter_pos it \<noteq> None"
  by (auto simp: iter_ok_def iter_pos_def)

lemma iter_pos_Some:
  "iter_pos it = Some (k, v) \<longleftrightarrow> bi_valid it \<and> bi_cur_key it = Some k \<and> bi_cur_value it = Some v"
  by (auto simp: iter_pos_def split: option.splits)

lemma it_moves:
  assumes "iter_ok it"
  shows "it_seek it k = Ok (first_ge (bi_tree it) k \<noteq> None, move_to (first_ge (bi_tree it) k) it)"
    and "it_seek_for_prev it k = Ok (last_le (bi_tree it) k \<noteq> None, move_to (last_le (bi_tree it) k) it)"
    and "iter_pos it = Some (k, v) \<Longrightarrow>
      it_next it = Ok (first_gt (bi_tree it) k \<noteq> None, move_to (first_gt (bi_tree it) k) it)"
    and "iter_pos it = Some (k, v) \<Longrightarrow>
      it_prev it = Ok (last_lt (bi_tree it) k \<noteq> None, move_to (last_lt (bi_tree it) k) it)"
  using iter_ok_bounds [OF assms]
  by (simp_all add: it_seek_def it_seek_for_prev_def it_next_def it_prev_def Let_def pos_defs
      seek_to_range_endpoint_eq iter_pos_Some)

lemma it_ends:
  assumes "iter_ok it"
  shows "it_seek_to_first it =
      Ok (find (\<lambda>_. True) (bi_tree it) \<noteq> None, move_to (find (\<lambda>_. True) (bi_tree it)) it)"
    and "it_seek_to_last it =
      Ok (find (\<lambda>_. True) (rev (bi_tree it)) \<noteq> None, move_to (find (\<lambda>_. True) (rev (bi_tree it))) it)"
  using iter_ok_bounds [OF assms]
  by (simp_all add: it_seek_to_first_def it_seek_to_last_def Let_def seek_to_range_endpoint_eq)

lemma find_mem: "find p t = Some e \<Longrightarrow> e \<in> set t"
  by (induction t) (auto split: if_splits)

subsection \<open>What a cursor promises\<close>

text \<open>
  A cursor stands on an entry of its tree, and the remembered ends are ends: no entry is at or
  above the maximum key, none at or below the minimum key.
\<close>

definition cur_tree :: "cs \<Rightarrow> tree" where "cur_tree cs = bi_tree (c_iter (fst cs))"
definition cur_pos :: "cs \<Rightarrow> (key \<times> val) option" where "cur_pos cs = iter_pos (c_iter (fst cs))"

definition cursor_ok :: "cs \<Rightarrow> bool" where
  "cursor_ok cs \<longleftrightarrow>
     iter_ok (c_iter (fst cs)) \<and>
     (\<forall>e\<in>set (cur_tree cs). \<not> beyond_max (fst cs) (fst e) \<and> \<not> beyond_min (fst cs) (fst e))"

definition mixed_ok :: "cs \<Rightarrow> bool" where
  "mixed_ok cs \<longleftrightarrow> cursor_ok cs \<and> c_scan_mode (fst cs) = Mixed"

text \<open>
  The contract of a seek: it succeeds, answers whether the wanted entry exists, leaves the cursor
  on it if it does, and keeps the data and the invariant.
\<close>

locale seekable =
  fixes seek :: "key \<Rightarrow> 's \<Rightarrow> (bool \<times> 's, kv_error) result" and ok :: "'s \<Rightarrow> bool"
    and data :: "'s \<Rightarrow> tree" and pos :: "'s \<Rightarrow> (key \<times> val) option"
    and target :: "tree \<Rightarrow> key \<Rightarrow> (key \<times> val) option"
  assumes seek_total: "ok s \<Longrightarrow> \<exists>b s'. seek k s = Ok (b, s')"
    and seek_inv: "ok s \<Longrightarrow> seek k s = Ok (b, s') \<Longrightarrow> ok s'"
    and seek_data: "ok s \<Longrightarrow> seek k s = Ok (b, s') \<Longrightarrow> data s' = data s"
    and seek_found: "ok s \<Longrightarrow> seek k s = Ok (b, s') \<Longrightarrow> b \<longleftrightarrow> target (data s) k \<noteq> None"
    and seek_pos: "ok s \<Longrightarrow> seek k s = Ok (True, s') \<Longrightarrow> pos s' = target (data s) k"
begin

lemma seek_cases:
  assumes "ok s"
  obtains (missing) s' where "seek k s = Ok (False, s')" "ok s'" "data s' = data s"
      "target (data s) k = None"
    | (found) s' e where "seek k s = Ok (True, s')" "ok s'" "data s' = data s"
      "target (data s) k = Some e" "pos s' = Some e"
proof -
  obtain b s' where s': "seek k s = Ok (b, s')"
    using seek_total [OF assms] by blast
  note facts = seek_inv [OF assms s'] seek_data [OF assms s'] seek_found [OF assms s']
  show thesis
  proof (cases b)
    case True
    then show thesis
      using found s' facts seek_pos [OF assms, of k s'] by auto
  next
    case False
    then show thesis using missing s' facts by (auto simp del: not_None_eq)
  qed
qed

end

lemma seekableI:
  assumes "\<And>k s. ok s \<Longrightarrow> \<exists>s'. seek k s = Ok (target (data s) k \<noteq> None, s') \<and> ok s' \<and>
    data s' = data s \<and> (target (data s) k \<noteq> None \<longrightarrow> pos s' = target (data s) k)"
  shows "seekable seek ok data pos target"
proof unfold_locales
  fix k s b s' assume i: "ok s"
  obtain t where t: "seek k s = Ok (target (data s) k \<noteq> None, t)" "ok t" "data t = data s"
    "target (data s) k \<noteq> None \<longrightarrow> pos t = target (data s) k"
    using assms [OF i] by blast
  show "\<exists>b s'. seek k s = Ok (b, s')" using t by blast
  show "ok s'" "data s' = data s" "b \<longleftrightarrow> target (data s) k \<noteq> None" if "seek k s = Ok (b, s')"
    using that t by auto
  show "pos s' = target (data s) k" if "seek k s = Ok (True, s')"
    using that t by auto
qed

subsection \<open>Full seeks\<close>

lemma mixed_ok_moved:
  assumes "mixed_ok cs" and "\<And>e. p = Some e \<Longrightarrow> e \<in> set (cur_tree cs)"
  shows "mixed_ok ((fst cs)\<lparr>c_iter := move_to p (c_iter (fst cs))\<rparr>, st)"
  using assms iter_ok_move_to [of "c_iter (fst cs)" p]
  by (auto simp: mixed_ok_def cursor_ok_def cur_tree_def beyond_max_def beyond_min_def)

lemma mixed_ok_tree: "mixed_ok cs \<Longrightarrow> tree_wf (cur_tree cs)"
  by (simp add: mixed_ok_def cursor_ok_def cur_tree_def iter_ok_tree)

lemma mixed_ok_iter: "mixed_ok cs \<Longrightarrow> iter_ok (c_iter (fst cs))"
  by (simp add: mixed_ok_def cursor_ok_def)

lemma mixed_ok_mem: "mixed_ok cs \<Longrightarrow> cur_pos cs = Some e \<Longrightarrow> e \<in> set (cur_tree cs)"
  unfolding cur_pos_def cur_tree_def by (rule iter_ok_mem [OF mixed_ok_iter])

lemma mixed_ok_valid: "mixed_ok cs \<Longrightarrow> cursor_valid (fst cs) \<longleftrightarrow> cur_pos cs \<noteq> None"
  unfolding cursor_valid_def cur_pos_def by (rule iter_ok_valid [OF mixed_ok_iter])

lemma cursor_key_at: "cur_pos cs = Some (k, v) \<Longrightarrow> cursor_key (fst cs) = Ok k"
  by (simp add: cursor_key_def it_key_def cur_pos_def iter_pos_Some)

lemma cursor_value_at: "cur_pos cs = Some (k, v) \<Longrightarrow> cursor_value (fst cs) = Ok v"
  by (simp add: cursor_value_def it_value_def cur_pos_def iter_pos_Some)

lemma mixed_ok_set_max:
  "mixed_ok cs \<Longrightarrow> first_ge (cur_tree cs) k = None \<Longrightarrow> mixed_ok (set_max_key k cs)"
  by (auto simp: mixed_ok_def cursor_ok_def cur_tree_def set_max_key_def beyond_max_def beyond_min_def
      pos_None not_le split: prod.splits)

lemma mixed_ok_set_min:
  "mixed_ok cs \<Longrightarrow> last_le (cur_tree cs) k = None \<Longrightarrow> mixed_ok (set_min_key k cs)"
  by (auto simp: mixed_ok_def cursor_ok_def cur_tree_def set_min_key_def beyond_max_def beyond_min_def
      pos_None not_le split: prod.splits)

lemma cur_tree_set [simp]:
  "cur_tree (set_max_key k cs) = cur_tree cs" "cur_tree (set_min_key k cs) = cur_tree cs"
  by (auto simp: cur_tree_def set_max_key_def set_min_key_def split: prod.splits)

lemma beyond_max_first_ge: "mixed_ok cs \<Longrightarrow> beyond_max (fst cs) k \<Longrightarrow> first_ge (cur_tree cs) k = None"
  by (force simp: mixed_ok_def cursor_ok_def beyond_max_def pos_None not_le split: option.splits)

lemma beyond_min_last_le: "mixed_ok cs \<Longrightarrow> beyond_min (fst cs) k \<Longrightarrow> last_le (cur_tree cs) k = None"
  by (force simp: mixed_ok_def cursor_ok_def beyond_min_def pos_None not_le split: option.splits)

lemma pos_mem:
  "first_ge t k = Some e \<Longrightarrow> e \<in> set t" "first_gt t k = Some e \<Longrightarrow> e \<in> set t"
  "last_le t k = Some e \<Longrightarrow> e \<in> set t" "last_lt t k = Some e \<Longrightarrow> e \<in> set t"
  by (auto simp: pos_defs dest: find_mem)

definition moved_to :: "cs \<Rightarrow> (key \<times> val) option \<Rightarrow> (bool \<times> cs, kv_error) result \<Rightarrow> bool" where
  "moved_to cs p r \<longleftrightarrow>
     (\<exists>cs'. r = Ok (p \<noteq> None, cs') \<and> mixed_ok cs' \<and> cur_tree cs' = cur_tree cs \<and> cur_pos cs' = p \<and>
       c_prefix_seek (fst cs') = c_prefix_seek (fst cs))"

lemma moved_toI:
  assumes "mixed_ok (c, st)" and "\<And>e. p = Some e \<Longrightarrow> e \<in> set (bi_tree (c_iter c))"
    and "r = Ok (p \<noteq> None, move_to p (c_iter c))"
  shows "moved_to (c, st) p (moved c st' r)"
  using assms mixed_ok_moved [OF assms(1), of p st']
  by (auto simp: moved_to_def cur_tree_def cur_pos_def)

lemma moved_toE:
  assumes "moved_to cs p r"
  obtains cs' where "r = Ok (p \<noteq> None, cs')" "mixed_ok cs'" "cur_tree cs' = cur_tree cs"
    "cur_pos cs' = p" "c_prefix_seek (fst cs') = c_prefix_seek (fst cs)"
  using assms by (auto simp: moved_to_def)

lemma cursor_moves:
  assumes "mixed_ok cs"
  shows "moved_to cs (first_ge (cur_tree cs) k) (internal_seek k cs)"
    and "moved_to cs (last_le (cur_tree cs) k) (internal_seek_for_prev k cs)"
    and "cur_pos cs = Some (k, v) \<Longrightarrow> moved_to cs (first_gt (cur_tree cs) k) (cursor_next cs)"
    and "cur_pos cs = Some (k, v) \<Longrightarrow> moved_to cs (last_lt (cur_tree cs) k) (cursor_prev cs)"
proof -
  obtain c st where cs: "cs = (c, st)" by (cases cs)
  note it = it_moves [OF mixed_ok_iter [OF assms], unfolded cs fst_conv]
    and I = moved_toI [OF assms [unfolded cs]]
  show "moved_to cs (first_ge (cur_tree cs) k) (internal_seek k cs)"
    unfolding cs internal_seek.simps cur_tree_def fst_conv by (rule I [OF pos_mem(1) it(1)])
  show "moved_to cs (last_le (cur_tree cs) k) (internal_seek_for_prev k cs)"
    unfolding cs internal_seek_for_prev.simps cur_tree_def fst_conv by (rule I [OF pos_mem(3) it(2)])
  assume "cur_pos cs = Some (k, v)"
  then have p: "iter_pos (c_iter c) = Some (k, v)" by (simp add: cs cur_pos_def)
  show "moved_to cs (first_gt (cur_tree cs) k) (cursor_next cs)"
    unfolding cs cursor_next.simps cur_tree_def fst_conv by (rule I [OF pos_mem(2) it(3) [OF p]])
  show "moved_to cs (last_lt (cur_tree cs) k) (cursor_prev cs)"
    unfolding cs cursor_prev.simps cur_tree_def fst_conv by (rule I [OF pos_mem(4) it(4) [OF p]])
qed

lemma cursor_ends:
  assumes "mixed_ok cs" "\<not> c_prefix_seek (fst cs)"
  shows "moved_to cs (find (\<lambda>_. True) (cur_tree cs)) (seek_to_first cs)"
    and "moved_to cs (find (\<lambda>_. True) (rev (cur_tree cs))) (seek_to_last cs)"
proof -
  obtain c st where cs: "cs = (c, st)" by (cases cs)
  note it = it_ends [OF mixed_ok_iter [OF assms(1)], unfolded cs fst_conv]
    and I = moved_toI [OF assms(1) [unfolded cs]]
  have np: "c_prefix_seek c = False" using assms cs by simp
  show "moved_to cs (find (\<lambda>_. True) (cur_tree cs)) (seek_to_first cs)"
    unfolding cs seek_to_first.simps np cur_tree_def fst_conv not_False_eq_True assert_then_True
    by (rule I [OF find_mem it(1)])
  show "moved_to cs (find (\<lambda>_. True) (rev (cur_tree cs))) (seek_to_last cs)"
    unfolding cs seek_to_last.simps np cur_tree_def fst_conv not_False_eq_True assert_then_True
    by (rule I [OF _ it(2)]) (metis find_mem set_rev)
qed

lemma mixed_seek_contract:
  assumes "mixed_ok cs"
  shows "\<exists>cs'. cursor_seek k cs = Ok (first_ge (cur_tree cs) k \<noteq> None, cs') \<and> mixed_ok cs' \<and>
    cur_tree cs' = cur_tree cs \<and>
    (first_ge (cur_tree cs) k \<noteq> None \<longrightarrow> cur_pos cs' = first_ge (cur_tree cs) k)"
proof -
  obtain c st where cs: "cs = (c, st)" by (cases cs)
  have m: "c_scan_mode c = Mixed" using assms by (simp add: mixed_ok_def cs)
  show ?thesis
  proof (cases "beyond_max c k")
    case True
    then have "first_ge (cur_tree cs) k = None"
      using beyond_max_first_ge [OF assms] by (simp add: cs)
    then show ?thesis using True assms by (simp add: cs m)
  next
    case False
    obtain cs' where "internal_seek k cs = Ok (first_ge (cur_tree cs) k \<noteq> None, cs')" "mixed_ok cs'"
      "cur_tree cs' = cur_tree cs" "cur_pos cs' = first_ge (cur_tree cs) k"
      using cursor_moves(1) [OF assms, of k] unfolding moved_to_def by blast
    then show ?thesis
      using False mixed_ok_set_max [of cs' k]
      by (cases "first_ge (cur_tree cs) k") (simp_all add: cs m del: internal_seek.simps)
  qed
qed

lemma mixed_seek_for_prev_contract:
  assumes "mixed_ok cs"
  shows "\<exists>cs'. seek_for_prev k cs = Ok (last_le (cur_tree cs) k \<noteq> None, cs') \<and> mixed_ok cs' \<and>
    cur_tree cs' = cur_tree cs \<and>
    (last_le (cur_tree cs) k \<noteq> None \<longrightarrow> cur_pos cs' = last_le (cur_tree cs) k)"
proof -
  obtain c st where cs: "cs = (c, st)" by (cases cs)
  have m: "c_scan_mode c = Mixed" using assms by (simp add: mixed_ok_def cs)
  show ?thesis
  proof (cases "beyond_min c k")
    case True
    then have "last_le (cur_tree cs) k = None"
      using beyond_min_last_le [OF assms] by (simp add: cs)
    then show ?thesis using True assms by (simp add: cs m)
  next
    case False
    obtain cs' where "internal_seek_for_prev k cs = Ok (last_le (cur_tree cs) k \<noteq> None, cs')"
      "mixed_ok cs'" "cur_tree cs' = cur_tree cs" "cur_pos cs' = last_le (cur_tree cs) k"
      using cursor_moves(2) [OF assms, of k] unfolding moved_to_def by blast
    then show ?thesis
      using False mixed_ok_set_min [of cs' k]
      by (cases "last_le (cur_tree cs) k") (simp_all add: cs m del: internal_seek_for_prev.simps)
  qed
qed

interpretation full_seek: seekable cursor_seek mixed_ok cur_tree cur_pos first_ge
  by (rule seekableI [OF mixed_seek_contract])

interpretation full_seek_prev: seekable seek_for_prev mixed_ok cur_tree cur_pos last_le
  by (rule seekableI [OF mixed_seek_for_prev_contract])

subsection \<open>Near seeks\<close>

lemma near_loop_inv:
  assumes "P cs"
    and step: "\<And>cs. P cs \<Longrightarrow> \<exists>b cs'. cond cs = Ok (b, cs') \<and> (if b then P cs' else Q cs')"
    and count: "\<And>c st n. P (c, st) \<Longrightarrow> P (c, st\<lparr>st_over_seek_bound := n\<rparr>)"
  shows "\<exists>over cs'. near_loop cond cnt cs = Ok (over, cs') \<and> (if over then P cs' else Q cs')"
  using assms(1)
proof (induction "SEEK_BOUND - cnt" arbitrary: cnt cs rule: less_induct)
  case less
  obtain b c st where b: "cond cs = Ok (b, (c, st))" "if b then P (c, st) else Q (c, st)"
    using step [OF less.prems] by auto
  show ?case
  proof (cases "b \<and> cnt + 1 < SEEK_BOUND")
    case True
    then have eq: "near_loop cond cnt cs = near_loop cond (cnt + 1) (c, st)"
      using b by (subst near_loop.simps) simp
    show ?thesis unfolding eq by (rule less.hyps) (use b True in auto)
  next
    case False
    then show ?thesis using b count [of c st] by (subst near_loop.simps) auto
  qed
qed

lemma prev_while_greater_step:
  assumes "mixed_ok cs" "cur_tree cs = t" "cur_pos cs = Some (k, v)" "key < k"
  shows "\<exists>b cs'. prev_while_greater key cs = Ok (b, cs') \<and> mixed_ok cs' \<and> cur_tree cs' = t \<and>
    (if b then \<exists>k v. cur_pos cs' = Some (k, v) \<and> key < k
     else (case cur_pos cs' of
             None \<Rightarrow> \<forall>e\<in>set t. key < fst e
           | Some e \<Rightarrow> fst e \<le> key \<and> (\<forall>x\<in>set t. fst e < fst x \<longrightarrow> key < fst x)))"
proof -
  obtain cs' where cs': "cursor_prev cs = Ok (last_lt t k \<noteq> None, cs')" "mixed_ok cs'"
    "cur_tree cs' = t" "cur_pos cs' = last_lt t k"
    using cursor_moves(4) [OF assms(1,3)] assms(2) unfolding moved_to_def by blast
  have t: "tree_wf t" using mixed_ok_tree [OF assms(1)] assms(2) by simp
  show ?thesis
  proof (cases "last_lt t k")
    case None
    then have "\<forall>e\<in>set t. key < fst e" using assms(4) by (auto simp: pos_None)
    then show ?thesis using None cs' by (auto simp: prev_while_greater_def)
  next
    case (Some e)
    then have "\<forall>x\<in>set t. fst e < fst x \<longrightarrow> key < fst x"
      using last_lt_Some [OF t] assms(4) by (meson leD not_le_imp_less order.strict_trans2)
    moreover have "prev_while_greater key cs = Ok (key < fst e, cs')"
      using Some cs' cursor_key_at [of cs' "fst e" "snd e"] by (simp add: prev_while_greater_def)
    ultimately show ?thesis
      using Some cs' by (intro exI [of _ "key < fst e"] exI [of _ cs']) (cases e; simp add: not_less)
  qed
qed

lemma next_while_less_step:
  assumes "mixed_ok cs" "cur_tree cs = t" "cur_pos cs = Some (k, v)" "k < key"
  shows "\<exists>b cs'. next_while_less key cs = Ok (b, cs') \<and> mixed_ok cs' \<and> cur_tree cs' = t \<and>
    (if b then \<exists>k v. cur_pos cs' = Some (k, v) \<and> k < key
     else (case cur_pos cs' of
             None \<Rightarrow> \<forall>e\<in>set t. fst e < key
           | Some e \<Rightarrow> key \<le> fst e \<and> (\<forall>x\<in>set t. fst x < fst e \<longrightarrow> fst x < key)))"
proof -
  obtain cs' where cs': "cursor_next cs = Ok (first_gt t k \<noteq> None, cs')" "mixed_ok cs'"
    "cur_tree cs' = t" "cur_pos cs' = first_gt t k"
    using cursor_moves(3) [OF assms(1,3)] assms(2) unfolding moved_to_def by blast
  have t: "tree_wf t" using mixed_ok_tree [OF assms(1)] assms(2) by simp
  show ?thesis
  proof (cases "first_gt t k")
    case None
    then have "\<forall>e\<in>set t. fst e < key" using assms(4) by (auto simp: pos_None)
    then show ?thesis using None cs' by (auto simp: next_while_less_def)
  next
    case (Some e)
    then have "\<forall>x\<in>set t. fst x < fst e \<longrightarrow> fst x < key"
      using first_gt_Some [OF t] assms(4) by (meson leD not_le_imp_less order.strict_trans1)
    moreover have "next_while_less key cs = Ok (fst e < key, cs')"
      using Some cs' cursor_key_at [of cs' "fst e" "snd e"] by (simp add: next_while_less_def)
    ultimately show ?thesis
      using Some cs' by (intro exI [of _ "fst e < key"] exI [of _ cs']) (cases e; simp add: not_less)
  qed
qed

text \<open>Where the two loops of the near seeks leave the cursor.\<close>

lemma near_loop_prev:
  assumes "mixed_ok cs" "cur_tree cs = t" "cur_pos cs = Some (k, v)" "key < k"
  obtains over cs' where "near_loop (prev_while_greater key) 0 cs = Ok (over, cs')"
    "mixed_ok cs'" "cur_tree cs' = t"
    "\<not> over \<Longrightarrow> cur_pos cs' = None \<Longrightarrow> \<forall>e\<in>set t. key < fst e"
    "\<And>e. \<not> over \<Longrightarrow> cur_pos cs' = Some e \<Longrightarrow>
       fst e \<le> key \<and> (\<forall>x\<in>set t. fst e < fst x \<longrightarrow> key < fst x)"
proof -
  let ?P = "\<lambda>cs. mixed_ok cs \<and> cur_tree cs = t \<and> (\<exists>k v. cur_pos cs = Some (k, v) \<and> key < k)"
  let ?Q = "\<lambda>cs. mixed_ok cs \<and> cur_tree cs = t \<and>
    (case cur_pos cs of None \<Rightarrow> \<forall>e\<in>set t. key < fst e
     | Some e \<Rightarrow> fst e \<le> key \<and> (\<forall>x\<in>set t. fst e < fst x \<longrightarrow> key < fst x))"
  have step: "\<exists>b cs'. prev_while_greater key cs = Ok (b, cs') \<and> (if b then ?P cs' else ?Q cs')"
    if p: "?P cs" for cs
  proof -
    obtain k v where "mixed_ok cs" "cur_tree cs = t" "cur_pos cs = Some (k, v)" "key < k"
      using p by blast
    then obtain b cs' where "prev_while_greater key cs = Ok (b, cs')" "if b then ?P cs' else ?Q cs'"
      using prev_while_greater_step [of cs t k v key] by (auto split: if_splits)
    then show ?thesis by blast
  qed
  have count: "?P (c, st\<lparr>st_over_seek_bound := n\<rparr>)" if "?P (c, st)" for c st n
    using that by (auto simp: mixed_ok_def cursor_ok_def cur_tree_def cur_pos_def)
  have "?P cs" using assms by blast
  then obtain over cs' where "near_loop (prev_while_greater key) 0 cs = Ok (over, cs')"
    "if over then ?P cs' else ?Q cs'"
    using near_loop_inv [where P = ?P and Q = ?Q and cond = "prev_while_greater key", OF _ step count]
    by blast
  then show thesis by (intro that [of over cs']) (auto split: if_splits)
qed

lemma near_loop_next:
  assumes "mixed_ok cs" "cur_tree cs = t" "cur_pos cs = Some (k, v)" "k < key"
  obtains over cs' where "near_loop (next_while_less key) 0 cs = Ok (over, cs')"
    "mixed_ok cs'" "cur_tree cs' = t"
    "\<not> over \<Longrightarrow> cur_pos cs' = None \<Longrightarrow> \<forall>e\<in>set t. fst e < key"
    "\<And>e. \<not> over \<Longrightarrow> cur_pos cs' = Some e \<Longrightarrow>
       key \<le> fst e \<and> (\<forall>x\<in>set t. fst x < fst e \<longrightarrow> fst x < key)"
proof -
  let ?P = "\<lambda>cs. mixed_ok cs \<and> cur_tree cs = t \<and> (\<exists>k v. cur_pos cs = Some (k, v) \<and> k < key)"
  let ?Q = "\<lambda>cs. mixed_ok cs \<and> cur_tree cs = t \<and>
    (case cur_pos cs of None \<Rightarrow> \<forall>e\<in>set t. fst e < key
     | Some e \<Rightarrow> key \<le> fst e \<and> (\<forall>x\<in>set t. fst x < fst e \<longrightarrow> fst x < key))"
  have step: "\<exists>b cs'. next_while_less key cs = Ok (b, cs') \<and> (if b then ?P cs' else ?Q cs')"
    if p: "?P cs" for cs
  proof -
    obtain k v where "mixed_ok cs" "cur_tree cs = t" "cur_pos cs = Some (k, v)" "k < key"
      using p by blast
    then obtain b cs' where "next_while_less key cs = Ok (b, cs')" "if b then ?P cs' else ?Q cs'"
      using next_while_less_step [of cs t k v key] by (auto split: if_splits)
    then show ?thesis by blast
  qed
  have count: "?P (c, st\<lparr>st_over_seek_bound := n\<rparr>)" if "?P (c, st)" for c st n
    using that by (auto simp: mixed_ok_def cursor_ok_def cur_tree_def cur_pos_def)
  have "?P cs" using assms by blast
  then obtain over cs' where "near_loop (next_while_less key) 0 cs = Ok (over, cs')"
    "if over then ?P cs' else ?Q cs'"
    using near_loop_inv [where P = ?P and Q = ?Q and cond = "next_while_less key", OF _ step count]
    by blast
  then show thesis by (intro that [of over cs']) (auto split: if_splits)
qed

definition seeked :: "tree \<Rightarrow> (key \<times> val) option \<Rightarrow> (bool \<times> cs, kv_error) result \<Rightarrow> bool" where
  "seeked t p r \<longleftrightarrow>
     (\<exists>cs'. r = Ok (p \<noteq> None, cs') \<and> mixed_ok cs' \<and> cur_tree cs' = t \<and> (p \<noteq> None \<longrightarrow> cur_pos cs' = p))"

lemma seeked_here: "mixed_ok cs \<Longrightarrow> cur_tree cs = t \<Longrightarrow> cur_pos cs = Some e \<Longrightarrow> seeked t (Some e) (Ok (True, cs))"
  by (simp add: seeked_def)

lemma seeked_missing: "mixed_ok cs \<Longrightarrow> cur_tree cs = t \<Longrightarrow> seeked t None (Ok (False, cs))"
  by (simp add: seeked_def)

lemma seeked_seek: "mixed_ok cs \<Longrightarrow> cur_tree cs = t \<Longrightarrow> seeked t (first_ge t k) (cursor_seek k cs)"
  using mixed_seek_contract [of cs k] by (simp add: seeked_def)

lemma seeked_seek_for_prev:
  "mixed_ok cs \<Longrightarrow> cur_tree cs = t \<Longrightarrow> seeked t (last_le t k) (seek_for_prev k cs)"
  using mixed_seek_for_prev_contract [of cs k] by (simp add: seeked_def)

lemma seeked_near_seek_end:
  assumes "mixed_ok cs" "cur_tree cs = t" "cur_pos cs = first_ge t k"
  shows "seeked t (first_ge t k) (near_seek_end k cs)"
  using assms mixed_ok_set_max [of cs k] mixed_ok_valid [OF assms(1)]
  by (cases "first_ge t k") (auto simp: near_seek_end_def seeked_def)

lemma seeked_near_prev_end:
  assumes "mixed_ok cs" "cur_tree cs = t" "cur_pos cs = last_le t k"
  shows "seeked t (last_le t k) (near_prev_end k cs)"
  using assms mixed_ok_set_min [of cs k] mixed_ok_valid [OF assms(1)]
  by (cases "last_le t k") (auto simp: near_prev_end_def seeked_def)

text \<open>Which entry is wanted, seen from the place where a loop stopped.\<close>

lemma first_ge_from:
  assumes "tree_wf t"
  shows "(key, v) \<in> set t \<Longrightarrow> first_ge t key = Some (key, v)"
    and "\<forall>x\<in>set t. k < fst x \<longrightarrow> key < fst x \<Longrightarrow> k < key \<Longrightarrow> first_gt t k = first_ge t key"
    and "\<forall>x\<in>set t. key < fst x \<Longrightarrow> find (\<lambda>_. True) t = first_ge t key"
    and "e \<in> set t \<Longrightarrow> key \<le> fst e \<Longrightarrow> \<forall>x\<in>set t. fst x < fst e \<longrightarrow> fst x < key \<Longrightarrow> first_ge t key = Some e"
    and "\<forall>x\<in>set t. fst x < key \<Longrightarrow> first_ge t key = None"
proof -
  show "(key, v) \<in> set t \<Longrightarrow> first_ge t key = Some (key, v)"
    using assms by (simp add: first_ge_Some)
  show "first_gt t k = first_ge t key" if "\<forall>x\<in>set t. k < fst x \<longrightarrow> key < fst x" "k < key"
    unfolding pos_defs using that by (intro find_cong) (auto dest: less_le_trans less_imp_le)
  show "find (\<lambda>_. True) t = first_ge t key" if "\<forall>x\<in>set t. key < fst x"
    unfolding pos_defs using that by (intro find_cong) (auto intro: less_imp_le)
  show "first_ge t key = Some e"
    if "e \<in> set t" "key \<le> fst e" "\<forall>x\<in>set t. fst x < fst e \<longrightarrow> fst x < key"
    using assms that by (simp add: first_ge_Some) (meson leD leI)
  show "\<forall>x\<in>set t. fst x < key \<Longrightarrow> first_ge t key = None"
    by (simp add: pos_None)
qed

lemma last_le_from:
  assumes "tree_wf t"
  shows "(key, v) \<in> set t \<Longrightarrow> last_le t key = Some (key, v)"
    and "\<forall>x\<in>set t. fst x < k \<longrightarrow> fst x < key \<Longrightarrow> key < k \<Longrightarrow> last_lt t k = last_le t key"
    and "\<forall>x\<in>set t. fst x < key \<Longrightarrow> find (\<lambda>_. True) (rev t) = last_le t key"
    and "e \<in> set t \<Longrightarrow> fst e \<le> key \<Longrightarrow> \<forall>x\<in>set t. fst e < fst x \<longrightarrow> key < fst x \<Longrightarrow> last_le t key = Some e"
    and "\<forall>x\<in>set t. key < fst x \<Longrightarrow> last_le t key = None"
proof -
  show "(key, v) \<in> set t \<Longrightarrow> last_le t key = Some (key, v)"
    using assms by (simp add: last_le_Some)
  show "last_lt t k = last_le t key" if "\<forall>x\<in>set t. fst x < k \<longrightarrow> fst x < key" "key < k"
    unfolding pos_defs using that by (intro find_cong) (auto dest: le_less_trans less_imp_le)
  show "find (\<lambda>_. True) (rev t) = last_le t key" if "\<forall>x\<in>set t. fst x < key"
    unfolding pos_defs using that by (intro find_cong) (auto intro: less_imp_le)
  show "last_le t key = Some e"
    if "e \<in> set t" "fst e \<le> key" "\<forall>x\<in>set t. fst e < fst x \<longrightarrow> key < fst x"
    using assms that by (simp add: last_le_Some) (meson leD leI)
  show "\<forall>x\<in>set t. key < fst x \<Longrightarrow> last_le t key = None"
    by (simp add: pos_None)
qed

text \<open>Backing up to the wanted entry, and walking forward to it.\<close>

lemma near_seek_back:
  assumes "mixed_ok cs" and t: "cur_tree cs = t" and kv: "cur_pos cs = Some (k, v)" "key < k"
  shows "seeked t (first_ge t key)
    (and_then (near_loop (prev_while_greater key) 0 cs) (\<lambda>(over, cs).
       if over then cursor_seek key cs
       else if cursor_valid (fst cs) then
         and_then (cursor_key (fst cs)) (\<lambda>k.
           if k < key then and_then (cursor_next cs) (\<lambda>(_, cs). near_seek_end key cs)
           else near_seek_end key cs)
       else if c_prefix_seek (fst cs) then cursor_seek key cs
       else and_then (seek_to_first cs) (\<lambda>(b, cs). assert_then b (Ok (True, cs)))))"
proof -
  have wf: "tree_wf t" using mixed_ok_tree [OF assms(1)] t by simp
  obtain over cs' where l: "near_loop (prev_while_greater key) 0 cs = Ok (over, cs')"
    "mixed_ok cs'" "cur_tree cs' = t"
    "\<not> over \<Longrightarrow> cur_pos cs' = None \<Longrightarrow> \<forall>e\<in>set t. key < fst e"
    "\<And>e. \<not> over \<Longrightarrow> cur_pos cs' = Some e \<Longrightarrow>
       fst e \<le> key \<and> (\<forall>x\<in>set t. fst e < fst x \<longrightarrow> key < fst x)"
    using near_loop_prev [OF assms] by blast
  note valid = mixed_ok_valid [OF l(2)]
  consider "over" | e where "\<not> over" "cur_pos cs' = Some e" "fst e = key"
    | e where "\<not> over" "cur_pos cs' = Some e" "fst e < key"
    | "\<not> over" "cur_pos cs' = None" "c_prefix_seek (fst cs')"
    | "\<not> over" "cur_pos cs' = None" "\<not> c_prefix_seek (fst cs')"
    using l(5) by (cases over; cases "cur_pos cs'") (auto simp: le_less)
  then show ?thesis
  proof cases
    case 1
    then show ?thesis using l seeked_seek [OF l(2,3)] by simp
  next
    case (2 e)
    then have "cur_pos cs' = first_ge t key"
      using first_ge_from(1) [OF wf, of key "snd e"] mixed_ok_mem [OF l(2)] l(3)
      by (cases e) auto
    moreover have "cursor_valid (fst cs')" "cursor_key (fst cs') = Ok key"
      using 2 valid cursor_key_at [of cs' key "snd e"] by (auto simp: prod_eq_iff)
    ultimately show ?thesis using 2 l(1) seeked_near_seek_end [OF l(2,3)] by simp
  next
    case (3 e)
    obtain cs'' where n: "cursor_next cs' = Ok (first_gt t (fst e) \<noteq> None, cs'')" "mixed_ok cs''"
      "cur_tree cs'' = t" "cur_pos cs'' = first_gt t (fst e)"
      using cursor_moves(3) [OF l(2), of "fst e" "snd e"] 3 l(3) unfolding moved_to_def by auto
    have "first_gt t (fst e) = first_ge t key"
      using first_ge_from(2) [OF wf] l(5) 3 by blast
    then show ?thesis
      using 3 l n seeked_near_seek_end [OF n(2,3)] valid cursor_key_at [of cs' "fst e" "snd e"]
      by (cases e) simp
  next
    case 4
    then show ?thesis using l seeked_seek [OF l(2,3)] valid by simp
  next
    case 5
    have f: "find (\<lambda>_. True) t = first_ge t key" and "first_ge t key \<noteq> None"
      using first_ge_from(3) [OF wf] l(4) 5 mixed_ok_mem [OF assms(1) kv(1)] t
      by (auto simp: pos_None dest: less_asym)
    then show ?thesis
      using cursor_ends(1) [OF l(2)] 5 l valid by (auto simp: moved_to_def seeked_def)
  qed
qed

lemma near_seek_ahead:
  assumes "mixed_ok cs" and t: "cur_tree cs = t" and kv: "cur_pos cs = Some (k, v)" "k < key"
  shows "seeked t (first_ge t key)
    (and_then (near_loop (next_while_less key) 0 cs) (\<lambda>(over, cs).
       if over then cursor_seek key cs else near_seek_end key cs))"
proof -
  have wf: "tree_wf t" using mixed_ok_tree [OF assms(1)] t by simp
  obtain over cs' where l: "near_loop (next_while_less key) 0 cs = Ok (over, cs')"
    "mixed_ok cs'" "cur_tree cs' = t"
    "\<not> over \<Longrightarrow> cur_pos cs' = None \<Longrightarrow> \<forall>e\<in>set t. fst e < key"
    "\<And>e. \<not> over \<Longrightarrow> cur_pos cs' = Some e \<Longrightarrow>
       key \<le> fst e \<and> (\<forall>x\<in>set t. fst x < fst e \<longrightarrow> fst x < key)"
    using near_loop_next [OF assms] by blast
  have "cur_pos cs' = first_ge t key" if "\<not> over"
  proof (cases "cur_pos cs'")
    case None
    then show ?thesis using l(4) that first_ge_from(5) [OF wf] by simp
  next
    case (Some e)
    then show ?thesis
      using l(5) [OF that Some] mixed_ok_mem [OF l(2) Some] l(3) first_ge_from(4) [OF wf, of e key]
      by simp
  qed
  then show ?thesis
    using l seeked_seek [OF l(2,3), of key] seeked_near_seek_end [OF l(2,3), of key]
    by (cases over) simp_all
qed

lemma seeked_near_seek:
  assumes "mixed_ok cs" and t: "cur_tree cs = t"
  shows "seeked t (first_ge t key) (near_seek key cs)"
proof -
  obtain c st where cs: "cs = (c, st)" by (cases cs)
  have m: "c_scan_mode c = Mixed" using assms by (simp add: mixed_ok_def cs)
  have wf: "tree_wf t" using mixed_ok_tree [OF assms(1)] t by simp
  show ?thesis
  proof (cases "cur_pos cs")
    case None
    then show ?thesis
      using mixed_ok_valid [OF assms(1)] seeked_seek [OF assms, of key]
      by (simp add: cs m del: cursor_seek.simps)
  next
    case (Some e)
    then obtain k v where kv: "cur_pos cs = Some (k, v)" by (cases e) auto
    have mem: "(k, v) \<in> set t" using mixed_ok_mem [OF assms(1) kv] t by simp
    have valid: "cursor_valid c" and k: "cursor_key c = Ok k"
      using mixed_ok_valid [OF assms(1)] cursor_key_at [OF kv] kv by (simp_all add: cs)
    consider "k = key" | "k \<noteq> key" "beyond_max c key" | "key < k" "\<not> beyond_max c key"
      | "k < key" "\<not> beyond_max c key"
      by (meson neqE)
    then show ?thesis
    proof cases
      case 1
      then show ?thesis
        using seeked_here [OF assms kv] first_ge_from(1) [OF wf, of key v] mem valid k m
        by (simp add: cs)
    next
      case 2
      then show ?thesis
        using beyond_max_first_ge [OF assms(1), of key] seeked_missing [OF assms] valid k t m
        by (simp add: cs)
    next
      case 3
      then show ?thesis
        using near_seek_back [OF assms kv 3(1)] valid k m
        by (auto simp: cs simp del: cursor_seek.simps cursor_next.simps seek_to_first.simps)
    next
      case 4
      then show ?thesis
        using near_seek_ahead [OF assms kv 4(1)] valid k m
        by (auto simp: cs simp del: cursor_seek.simps)
    qed
  qed
qed

text \<open>The same for the largest entry that is not above the key.\<close>

lemma near_seek_for_prev_ahead:
  assumes "mixed_ok cs" and t: "cur_tree cs = t" and kv: "cur_pos cs = Some (k, v)" "k < key"
  shows "seeked t (last_le t key)
    (and_then (near_loop (next_while_less key) 0 cs) (\<lambda>(over, cs).
       if over then seek_for_prev key cs
       else if cursor_valid (fst cs) then
         and_then (cursor_key (fst cs)) (\<lambda>k.
           if key < k then and_then (cursor_prev cs) (\<lambda>(_, cs). near_prev_end key cs)
           else near_prev_end key cs)
       else if c_prefix_seek (fst cs) then seek_for_prev key cs
       else and_then (seek_to_last cs) (\<lambda>(b, cs). assert_then b (Ok (True, cs)))))"
proof -
  have wf: "tree_wf t" using mixed_ok_tree [OF assms(1)] t by simp
  obtain over cs' where l: "near_loop (next_while_less key) 0 cs = Ok (over, cs')"
    "mixed_ok cs'" "cur_tree cs' = t"
    "\<not> over \<Longrightarrow> cur_pos cs' = None \<Longrightarrow> \<forall>e\<in>set t. fst e < key"
    "\<And>e. \<not> over \<Longrightarrow> cur_pos cs' = Some e \<Longrightarrow>
       key \<le> fst e \<and> (\<forall>x\<in>set t. fst x < fst e \<longrightarrow> fst x < key)"
    using near_loop_next [OF assms] by blast
  note valid = mixed_ok_valid [OF l(2)]
  consider "over" | e where "\<not> over" "cur_pos cs' = Some e" "fst e = key"
    | e where "\<not> over" "cur_pos cs' = Some e" "key < fst e"
    | "\<not> over" "cur_pos cs' = None" "c_prefix_seek (fst cs')"
    | "\<not> over" "cur_pos cs' = None" "\<not> c_prefix_seek (fst cs')"
    using l(5) by (cases over; cases "cur_pos cs'") (auto simp: le_less)
  then show ?thesis
  proof cases
    case 1
    then show ?thesis using l seeked_seek_for_prev [OF l(2,3)] by simp
  next
    case (2 e)
    then have "cur_pos cs' = last_le t key"
      using last_le_from(1) [OF wf, of key "snd e"] mixed_ok_mem [OF l(2)] l(3)
      by (cases e) auto
    moreover have "cursor_valid (fst cs')" "cursor_key (fst cs') = Ok key"
      using 2 valid cursor_key_at [of cs' key "snd e"] by (auto simp: prod_eq_iff)
    ultimately show ?thesis using 2 l(1) seeked_near_prev_end [OF l(2,3)] by simp
  next
    case (3 e)
    obtain cs'' where n: "cursor_prev cs' = Ok (last_lt t (fst e) \<noteq> None, cs'')" "mixed_ok cs''"
      "cur_tree cs'' = t" "cur_pos cs'' = last_lt t (fst e)"
      using cursor_moves(4) [OF l(2), of "fst e" "snd e"] 3 l(3) unfolding moved_to_def by auto
    have "last_lt t (fst e) = last_le t key"
      using last_le_from(2) [OF wf] l(5) 3 by blast
    then show ?thesis
      using 3 l n seeked_near_prev_end [OF n(2,3)] valid cursor_key_at [of cs' "fst e" "snd e"]
      by (cases e) simp
  next
    case 4
    then show ?thesis using l seeked_seek_for_prev [OF l(2,3)] valid by simp
  next
    case 5
    have f: "find (\<lambda>_. True) (rev t) = last_le t key" and "last_le t key \<noteq> None"
      using last_le_from(3) [OF wf] l(4) 5 mixed_ok_mem [OF assms(1) kv(1)] t
      by (auto simp: pos_None dest: less_asym)
    then show ?thesis
      using cursor_ends(2) [OF l(2)] 5 l valid by (auto simp: moved_to_def seeked_def)
  qed
qed

lemma near_seek_for_prev_back:
  assumes "mixed_ok cs" and t: "cur_tree cs = t" and kv: "cur_pos cs = Some (k, v)" "key < k"
  shows "seeked t (last_le t key)
    (and_then (near_loop (prev_while_greater key) 0 cs) (\<lambda>(over, cs).
       if over then seek_for_prev key cs else near_prev_end key cs))"
proof -
  have wf: "tree_wf t" using mixed_ok_tree [OF assms(1)] t by simp
  obtain over cs' where l: "near_loop (prev_while_greater key) 0 cs = Ok (over, cs')"
    "mixed_ok cs'" "cur_tree cs' = t"
    "\<not> over \<Longrightarrow> cur_pos cs' = None \<Longrightarrow> \<forall>e\<in>set t. key < fst e"
    "\<And>e. \<not> over \<Longrightarrow> cur_pos cs' = Some e \<Longrightarrow>
       fst e \<le> key \<and> (\<forall>x\<in>set t. fst e < fst x \<longrightarrow> key < fst x)"
    using near_loop_prev [OF assms] by blast
  have "cur_pos cs' = last_le t key" if "\<not> over"
  proof (cases "cur_pos cs'")
    case None
    then show ?thesis using l(4) that last_le_from(5) [OF wf] by simp
  next
    case (Some e)
    then show ?thesis
      using l(5) [OF that Some] mixed_ok_mem [OF l(2) Some] l(3) last_le_from(4) [OF wf, of e key]
      by simp
  qed
  then show ?thesis
    using l seeked_seek_for_prev [OF l(2,3), of key] seeked_near_prev_end [OF l(2,3), of key]
    by (cases over) simp_all
qed

lemma seeked_near_prev:
  assumes "mixed_ok cs" and t: "cur_tree cs = t"
  shows "seeked t (last_le t key) (near_seek_for_prev key cs)"
proof -
  obtain c st where cs: "cs = (c, st)" by (cases cs)
  have m: "c_scan_mode c = Mixed" using assms by (simp add: mixed_ok_def cs)
  have wf: "tree_wf t" using mixed_ok_tree [OF assms(1)] t by simp
  show ?thesis
  proof (cases "cur_pos cs")
    case None
    then show ?thesis
      using mixed_ok_valid [OF assms(1)] seeked_seek_for_prev [OF assms, of key]
      by (simp add: cs m del: seek_for_prev.simps)
  next
    case (Some e)
    then obtain k v where kv: "cur_pos cs = Some (k, v)" by (cases e) auto
    have mem: "(k, v) \<in> set t" using mixed_ok_mem [OF assms(1) kv] t by simp
    have valid: "cursor_valid c" and k: "cursor_key c = Ok k"
      using mixed_ok_valid [OF assms(1)] cursor_key_at [OF kv] kv by (simp_all add: cs)
    consider "k = key" | "k \<noteq> key" "beyond_min c key" | "k < key" "\<not> beyond_min c key"
      | "key < k" "\<not> beyond_min c key"
      by (meson neqE)
    then show ?thesis
    proof cases
      case 1
      then show ?thesis
        using seeked_here [OF assms kv] last_le_from(1) [OF wf, of key v] mem valid k m
        by (simp add: cs)
    next
      case 2
      then show ?thesis
        using beyond_min_last_le [OF assms(1), of key] seeked_missing [OF assms] valid k t m
        by (simp add: cs)
    next
      case 3
      then show ?thesis
        using near_seek_for_prev_ahead [OF assms kv 3(1)] valid k m
        by (auto simp: cs simp del: seek_for_prev.simps cursor_prev.simps seek_to_last.simps)
    next
      case 4
      then show ?thesis
        using near_seek_for_prev_back [OF assms kv 4(1)] valid k m
        by (auto simp: cs simp del: seek_for_prev.simps)
    qed
  qed
qed

interpretation near: seekable near_seek mixed_ok cur_tree cur_pos first_ge
  by (rule seekableI) (rule seeked_near_seek [OF _ refl, unfolded seeked_def])

interpretation near_prev: seekable near_seek_for_prev mixed_ok cur_tree cur_pos last_le
  by (rule seekableI) (rule seeked_near_prev [OF _ refl, unfolded seeked_def])

lemma mixed_ok_build:
  assumes "engine_wf e" "cf \<in> set (be_cf_names e)"
  shows "\<exists>c. build_cursor e cf Mixed prefix None None = Ok c \<and> mixed_ok (c, st) \<and>
    cur_tree (c, st) = engine_tree e cf \<and> cur_pos (c, st) = None"
  using assms engine_tree_wf [OF assms(1), of cf]
  by (simp add: build_cursor_def get_cf_eq mixed_ok_def cursor_ok_def cur_tree_def cur_pos_def
      cursor_new_def btree_iterator_new_def iter_ok_def iter_pos_def beyond_max_def beyond_min_def)

lemma near_seek_seek:
  assumes "mixed_ok cs"
  shows "\<exists>b cs1 cs2. near_seek k cs = Ok (b, cs1) \<and> cursor_seek k cs = Ok (b, cs2) \<and>
      (b \<longleftrightarrow> (\<exists>e\<in>set (cur_tree cs). k \<le> fst e)) \<and>
      (b \<longrightarrow> cur_pos cs1 = first_ge (cur_tree cs) k \<and> cur_pos cs2 = first_ge (cur_tree cs) k) \<and>
      mixed_ok cs1 \<and> mixed_ok cs2 \<and> cur_tree cs1 = cur_tree cs \<and> cur_tree cs2 = cur_tree cs"
    and "\<exists>b cs1 cs2. near_seek_for_prev k cs = Ok (b, cs1) \<and> seek_for_prev k cs = Ok (b, cs2) \<and>
      (b \<longleftrightarrow> (\<exists>e\<in>set (cur_tree cs). fst e \<le> k)) \<and>
      (b \<longrightarrow> cur_pos cs1 = last_le (cur_tree cs) k \<and> cur_pos cs2 = last_le (cur_tree cs) k) \<and>
      mixed_ok cs1 \<and> mixed_ok cs2 \<and> cur_tree cs1 = cur_tree cs \<and> cur_tree cs2 = cur_tree cs"
proof -
  have ex: "first_ge (cur_tree cs) k \<noteq> None \<longleftrightarrow> (\<exists>e\<in>set (cur_tree cs). k \<le> fst e)"
    "last_le (cur_tree cs) k \<noteq> None \<longleftrightarrow> (\<exists>e\<in>set (cur_tree cs). fst e \<le> k)"
    by (simp_all add: pos_None not_less del: not_None_eq)
  obtain cs1 cs2 where "near_seek k cs = Ok (first_ge (cur_tree cs) k \<noteq> None, cs1)"
    "cursor_seek k cs = Ok (first_ge (cur_tree cs) k \<noteq> None, cs2)"
    "mixed_ok cs1" "mixed_ok cs2" "cur_tree cs1 = cur_tree cs" "cur_tree cs2 = cur_tree cs"
    "first_ge (cur_tree cs) k \<noteq> None \<longrightarrow>
      cur_pos cs1 = first_ge (cur_tree cs) k \<and> cur_pos cs2 = first_ge (cur_tree cs) k"
    using seeked_near_seek [OF assms refl, of k] seeked_seek [OF assms refl, of k]
    unfolding seeked_def by blast
  then show "\<exists>b cs1 cs2. near_seek k cs = Ok (b, cs1) \<and> cursor_seek k cs = Ok (b, cs2) \<and>
      (b \<longleftrightarrow> (\<exists>e\<in>set (cur_tree cs). k \<le> fst e)) \<and>
      (b \<longrightarrow> cur_pos cs1 = first_ge (cur_tree cs) k \<and> cur_pos cs2 = first_ge (cur_tree cs) k) \<and>
      mixed_ok cs1 \<and> mixed_ok cs2 \<and> cur_tree cs1 = cur_tree cs \<and> cur_tree cs2 = cur_tree cs"
    using ex(1) by blast
  obtain cs1 cs2 where "near_seek_for_prev k cs = Ok (last_le (cur_tree cs) k \<noteq> None, cs1)"
    "seek_for_prev k cs = Ok (last_le (cur_tree cs) k \<noteq> None, cs2)"
    "mixed_ok cs1" "mixed_ok cs2" "cur_tree cs1 = cur_tree cs" "cur_tree cs2 = cur_tree cs"
    "last_le (cur_tree cs) k \<noteq> None \<longrightarrow>
      cur_pos cs1 = last_le (cur_tree cs) k \<and> cur_pos cs2 = last_le (cur_tree cs) k"
    using seeked_near_prev [OF assms refl, of k] seeked_seek_for_prev [OF assms refl, of k]
    unfolding seeked_def by blast
  then show "\<exists>b cs1 cs2. near_seek_for_prev k cs = Ok (b, cs1) \<and> seek_for_prev k cs = Ok (b, cs2) \<and>
      (b \<longleftrightarrow> (\<exists>e\<in>set (cur_tree cs). fst e \<le> k)) \<and>
      (b \<longrightarrow> cur_pos cs1 = last_le (cur_tree cs) k \<and> cur_pos cs2 = last_le (cur_tree cs) k) \<and>
      mixed_ok cs1 \<and> mixed_ok cs2 \<and> cur_tree cs1 = cur_tree cs \<and> cur_tree cs2 = cur_tree cs"
    using ex(2) by blast
qed

text \<open>
  C25: The near seeks agree with the full seeks, whatever position the cursor has. On a cursor without
  bounds in mixed mode, \<^verbatim>\<open>near_seek\<close> (walk at most \<^verbatim>\<open>SEEK_BOUND\<close> entries, then fall back) and
  \<^verbatim>\<open>seek\<close> neither fail nor panic, give the same answer, true exactly when there is an entry at or
  above the key, and then both leave the cursor on the least such entry; \<^verbatim>\<open>near_seek_for_prev\<close> and
  \<^verbatim>\<open>seek_for_prev\<close> likewise with the greatest entry at or below the key. All keep the data and the
  remembered ends valid.
\<close>

theorem near_seek_agrees:
  assumes "mixed_ok cs"
  shows "(\<exists>b cs1 cs2. near_seek k cs = Ok (b, cs1) \<and> cursor_seek k cs = Ok (b, cs2) \<and>
       (b \<longleftrightarrow> (\<exists>e\<in>set (cur_tree cs). k \<le> fst e)) \<and>
       (b \<longrightarrow> cur_pos cs1 = first_ge (cur_tree cs) k \<and> cur_pos cs2 = first_ge (cur_tree cs) k) \<and>
       mixed_ok cs1 \<and> mixed_ok cs2 \<and> cur_tree cs1 = cur_tree cs \<and> cur_tree cs2 = cur_tree cs) \<and>
    (\<exists>b cs1 cs2. near_seek_for_prev k cs = Ok (b, cs1) \<and> seek_for_prev k cs = Ok (b, cs2) \<and>
       (b \<longleftrightarrow> (\<exists>e\<in>set (cur_tree cs). fst e \<le> k)) \<and>
       (b \<longrightarrow> cur_pos cs1 = last_le (cur_tree cs) k \<and> cur_pos cs2 = last_le (cur_tree cs) k) \<and>
       mixed_ok cs1 \<and> mixed_ok cs2 \<and> cur_tree cs1 = cur_tree cs \<and> cur_tree cs2 = cur_tree cs)"
  by (intro conjI near_seek_seek [OF assms])

definition witness_cursor :: cs where
  "witness_cursor =
     (cursor_new \<lparr>bi_tree = [([1], [10]), ([3], [30]), ([5], [50])], bi_cur_key = Some [5],
        bi_cur_value = Some [50], bi_valid = True, bi_bounds = (Unbounded, Unbounded)\<rparr> Mixed False,
      cf_statistics_default)"

lemma witness_cursor_ok: "mixed_ok witness_cursor"
  by (simp add: witness_cursor_def mixed_ok_def cursor_ok_def iter_ok_def iter_pos_def cur_tree_def
      cursor_new_def beyond_max_def beyond_min_def)

theorem near_seek_agrees_witness:
  "mixed_ok witness_cursor \<and>
   (\<exists>cs1 cs2. near_seek [2] witness_cursor = Ok (True, cs1) \<and>
      cursor_seek [2] witness_cursor = Ok (True, cs2) \<and> cur_pos cs1 = Some ([3], [30]))"
  using witness_cursor_ok near_seek_agrees [OF witness_cursor_ok, of "[2]"]
  by (auto simp: witness_cursor_def cur_tree_def cursor_new_def first_ge_def
      simp del: near_seek.simps cursor_seek.simps)

definition entry_value :: "key \<Rightarrow> (key \<times> val) option \<Rightarrow> val option" where
  "entry_value k p = (case p of Some (k', v) \<Rightarrow> if k' = k then Some v else None | None \<Rightarrow> None)"

lemma entry_value_Some: "entry_value k p = Some v \<longleftrightarrow> p = Some (k, v)"
  by (auto simp: entry_value_def split: option.splits)

lemma entry_value_get:
  assumes "tree_wf t"
  shows "entry_value k (first_ge t k) = btree_get t k" and "entry_value k (last_le t k) = btree_get t k"
  by (rule option_eqI,
      use assms in \<open>auto simp: entry_value_Some btree_get_eq_Some first_ge_Some last_le_Some\<close>)+

lemma value_if_at_eq:
  assumes "seeked t p r"
  shows "\<exists>cs'. and_then r (value_if_at k) = Ok (entry_value k p, cs') \<and> mixed_ok cs' \<and> cur_tree cs' = t"
proof -
  obtain cs' where cs': "r = Ok (p \<noteq> None, cs')" "mixed_ok cs'" "cur_tree cs' = t"
    "p \<noteq> None \<longrightarrow> cur_pos cs' = p"
    using assms by (auto simp: seeked_def)
  then have "and_then r (value_if_at k) = Ok (entry_value k p, cs')"
    using cursor_key_at [of cs'] cursor_value_at [of cs']
    by (cases p) (auto simp: value_if_at_def entry_value_def)
  then show ?thesis using cs' by blast
qed

lemma mixed_get:
  assumes "mixed_ok cs"
  shows "\<exists>cs'. cursor_get k cs = Ok (btree_get (cur_tree cs) k, cs') \<and> mixed_ok cs' \<and>
    cur_tree cs' = cur_tree cs"
proof -
  have "cursor_get k cs = and_then (near_seek k cs) (value_if_at k)"
    using assms by (cases cs) (simp add: mixed_ok_def del: near_seek.simps)
  then show ?thesis
    using value_if_at_eq [OF seeked_near_seek [OF assms refl], of k k]
      entry_value_get(1) [OF mixed_ok_tree [OF assms]] by simp
qed

lemma prev_if_at_eq:
  assumes "seeked t (last_le t k) r" and "tree_wf t"
  shows "seeked t (last_lt t k) (and_then r (prev_if_at k))"
proof -
  obtain cs' where cs': "r = Ok (last_le t k \<noteq> None, cs')" "mixed_ok cs'" "cur_tree cs' = t"
    "last_le t k \<noteq> None \<longrightarrow> cur_pos cs' = last_le t k"
    using assms(1) by (auto simp: seeked_def)
  show ?thesis
  proof (cases "last_le t k")
    case None
    then have "last_lt t k = None" by (auto simp: pos_None intro: less_imp_le)
    then show ?thesis using None cs' by (simp add: prev_if_at_def seeked_def)
  next
    case (Some e)
    show ?thesis
    proof (cases "fst e = k")
      case True
      then have "moved_to cs' (last_lt t k) (cursor_prev cs')"
        using cursor_moves(4) [OF cs'(2), of k "snd e"] Some cs' by (cases e) simp
      then show ?thesis
        using True Some cs' cursor_key_at [of cs' k "snd e"]
        by (cases e) (auto simp: prev_if_at_def seeked_def moved_to_def)
    next
      case False
      have "last_lt t k = Some e"
        using Some False by (auto simp: last_le_Some [OF assms(2)] last_lt_Some [OF assms(2)] less_le)
      then show ?thesis
        using False Some cs' cursor_key_at [of cs' "fst e" "snd e"]
        by (cases e) (auto simp: prev_if_at_def seeked_def)
    qed
  qed
qed

text \<open>
  C26: \<^verbatim>\<open>Cursor::get\<close> is the lookup of the column family, from whatever position the cursor has, and
  \<^verbatim>\<open>reverse_seek\<close> and \<^verbatim>\<open>near_reverse_seek\<close> find the greatest entry strictly below the key, on a cursor
  without bounds in mixed mode.
\<close>

theorem cursor_get_correct:
  assumes "mixed_ok cs"
  shows "(\<exists>cs'. cursor_get k cs = Ok (btree_get (cur_tree cs) k, cs') \<and> mixed_ok cs' \<and>
      cur_tree cs' = cur_tree cs) \<and>
    seeked (cur_tree cs) (last_lt (cur_tree cs) k) (reverse_seek k cs) \<and>
    seeked (cur_tree cs) (last_lt (cur_tree cs) k) (near_reverse_seek k cs)"
  using mixed_get [OF assms] prev_if_at_eq [OF seeked_seek_for_prev [OF assms refl] mixed_ok_tree [OF assms]]
    prev_if_at_eq [OF seeked_near_prev [OF assms refl] mixed_ok_tree [OF assms]]
  by (simp add: reverse_seek_def near_reverse_seek_def)

theorem cursor_get_correct_witness:
  "mixed_ok witness_cursor \<and>
   (\<exists>cs'. cursor_get [3] witness_cursor = Ok (Some [30], cs')) \<and>
   (\<exists>cs'. cursor_get [2] witness_cursor = Ok (None, cs')) \<and>
   (\<exists>cs'. reverse_seek [3] witness_cursor = Ok (True, cs') \<and> cur_pos cs' = Some ([1], [10]))"
  using witness_cursor_ok cursor_get_correct [OF witness_cursor_ok, of "[3]"]
    cursor_get_correct [OF witness_cursor_ok, of "[2]"]
  by (auto simp: witness_cursor_def cur_tree_def cursor_new_def btree_get_def last_lt_def seeked_def
      simp del: cursor_get.simps)

end
