(* ===== verification/Pessimistic_Table.thy ===== *)
theory Pessimistic_Table
  imports Engine
begin

text \<open>
  The in-memory pessimistic lock table of a region's leader
  (\<^verbatim>\<open>components/raftstore/src/store/txn_ext.rs\<close>): inserting under the memory limits, removing,
  moving the locks to the new regions when a region splits, and scanning a range. The table is an
  ordered map from keys to locks with a mark that a write in flight deletes the lock. The memory of
  all tables is counted in the process-wide \<^verbatim>\<open>INSTANCE_MEM_SIZE\<close>, which the operations take and
  return. Of \<^verbatim>\<open>metapb::Region\<close> only the key range is read.
\<close>

subsection \<open>The table\<close>

datatype locks_status = LsNormal | LsTransferringLeader | LsMergingRegion | LsNotLeader | LsIsInFlashback

type_synonym lock_map = "(key, pessimistic_lock \<times> bool) btree"

record peer_pessimistic_locks =
  pl_map :: lock_map
  pl_status :: locks_status
  pl_term :: u64
  pl_version :: u64
  pl_memory_size :: u64

record region_range =
  rg_start_key :: bytes
  rg_end_key :: bytes

definition is_max_ts_synced :: "u64 \<Rightarrow> bool" where
  "is_max_ts_synced status \<longleftrightarrow> status AND 1 = 1"

definition ppl_default :: peer_pessimistic_locks where
  "ppl_default = \<lparr>pl_map = [], pl_status = LsNormal, pl_term = 0, pl_version = 0, pl_memory_size = 0\<rparr>"

text \<open>The size of \<^verbatim>\<open>PessimisticLock\<close> itself (a boxed slice, four numbers, a flag and the last change, as its unit test fixes it) and of its primary key.\<close>

definition PESSIMISTIC_LOCK_SIZE :: nat where "PESSIMISTIC_LOCK_SIZE = 16 + 5 * 8 + 24"

definition lock_memory_size :: "pessimistic_lock \<Rightarrow> u64" where
  "lock_memory_size l = of_nat (length (p_primary l) + PESSIMISTIC_LOCK_SIZE)"

definition entry_size :: "key \<Rightarrow> pessimistic_lock \<Rightarrow> u64" where
  "entry_size key l = of_nat (length key) + lock_memory_size l"

fun insert_incr :: "lock_map \<Rightarrow> (key \<times> pessimistic_lock) list \<Rightarrow> u64" where
  "insert_incr m [] = 0"
| "insert_incr m ((key, l) # pairs) =
     (if btree_get m key = None then entry_size key l else 0) + insert_incr m pairs"

fun insert_pairs :: "(key \<times> pessimistic_lock) list \<Rightarrow> lock_map \<Rightarrow> lock_map" where
  "insert_pairs [] m = m"
| "insert_pairs ((key, l) # pairs) m = insert_pairs pairs (btree_insert key (l, False) m)"

definition ppl_insert ::
  "peer_pessimistic_locks \<Rightarrow> u64 \<Rightarrow> (key \<times> pessimistic_lock) list \<Rightarrow> u64 \<Rightarrow> u64 \<Rightarrow>
     (peer_pessimistic_locks \<times> u64, (key \<times> pessimistic_lock) list) result" where
  "ppl_insert self instance_mem pairs peer_mem_size_limit instance_mem_size_limit =
     (let incr = insert_incr (pl_map self) pairs in
      if pl_memory_size self + incr > peer_mem_size_limit
         \<or> instance_mem + incr > instance_mem_size_limit
      then Err pairs
      else Ok (self\<lparr>pl_map := insert_pairs pairs (pl_map self),
                    pl_memory_size := pl_memory_size self + incr\<rparr>,
               instance_mem + incr))"

definition ppl_remove ::
  "peer_pessimistic_locks \<Rightarrow> u64 \<Rightarrow> key \<Rightarrow> peer_pessimistic_locks \<times> u64" where
  "ppl_remove self instance_mem key =
     (case btree_get (pl_map self) key of
        Some (l, _) \<Rightarrow>
          let desc = entry_size key l in
          (self\<lparr>pl_map := btree_remove key (pl_map self), pl_memory_size := pl_memory_size self - desc\<rparr>,
           instance_mem - desc)
      | None \<Rightarrow> (self, instance_mem))"

definition ppl_clear :: "peer_pessimistic_locks \<Rightarrow> u64 \<Rightarrow> peer_pessimistic_locks \<times> u64" where
  "ppl_clear self instance_mem =
     (self\<lparr>pl_map := [], pl_memory_size := 0\<rparr>, instance_mem - pl_memory_size self)"

text \<open>Dropping a table gives its memory back.\<close>

definition ppl_drop :: "peer_pessimistic_locks \<Rightarrow> u64 \<Rightarrow> u64" where
  "ppl_drop self instance_mem = instance_mem - pl_memory_size self"

definition is_writable :: "peer_pessimistic_locks \<Rightarrow> bool" where
  "is_writable self \<longleftrightarrow> pl_status self = LsNormal"

definition ppl_get :: "peer_pessimistic_locks \<Rightarrow> key \<Rightarrow> (pessimistic_lock \<times> bool) option" where
  "ppl_get self key = btree_get (pl_map self) key"

subsection \<open>Splitting a region\<close>

definition in_region :: "region_range \<Rightarrow> key \<Rightarrow> bool" where
  "in_region r key \<longleftrightarrow> \<not> (key < rg_start_key r \<or> rg_end_key r \<noteq> [] \<and> rg_end_key r \<le> key)"

text \<open>
  \<^verbatim>\<open>binary_search_by_key\<close> over the start keys, which are sorted: the region that starts at the key,
  or else the one before the place where the key would be inserted. Before the first region there
  is none, and the index \<^verbatim>\<open>0 - 1\<close> is out of range.
\<close>

definition region_index :: "region_range list \<Rightarrow> key \<Rightarrow> (nat, 'e) result" where
  "region_index regions key =
     (case position (\<lambda>r. rg_start_key r = key) regions of
        Some idx \<Rightarrow> Ok idx
      | None \<Rightarrow>
          let idx = length (takeWhile (\<lambda>r. rg_start_key r < key) regions) in
          if idx = 0 then Panic else Ok (idx - 1))"

fun group_loop ::
  "region_range list \<Rightarrow> lock_map \<Rightarrow> peer_pessimistic_locks \<Rightarrow> peer_pessimistic_locks list \<Rightarrow>
     (peer_pessimistic_locks \<times> peer_pessimistic_locks list, 'e) result" where
  "group_loop regions [] self res = Ok (self, res)"
| "group_loop regions ((key, (l, _)) # removed) self res =
     and_then (region_index regions key) (\<lambda>idx.
       let size = entry_size key l;
           r = res ! idx in
       group_loop regions removed (self\<lparr>pl_memory_size := pl_memory_size self - size\<rparr>)
         (res[idx := r\<lparr>pl_map := btree_insert key (l, False) (pl_map r),
                       pl_memory_size := pl_memory_size r + size\<rparr>]))"

definition group_by_regions ::
  "peer_pessimistic_locks \<Rightarrow> region_range list \<Rightarrow> region_range \<Rightarrow>
     (peer_pessimistic_locks \<times> peer_pessimistic_locks list, 'e) result" where
  "group_by_regions self regions derived =
     (let res = map (\<lambda>_. ppl_default) regions;
          removed_locks = filter (\<lambda>e. \<not> in_region derived (fst e)) (pl_map self) in
      group_loop regions removed_locks
        (self\<lparr>pl_map := filter (\<lambda>e. in_region derived (fst e)) (pl_map self)\<rparr>) res)"

subsection \<open>Scanning\<close>

fun scan_loop ::
  "(key \<Rightarrow> pessimistic_lock \<Rightarrow> bool) \<Rightarrow> nat \<Rightarrow> lock_map \<Rightarrow> (key \<times> lock) list \<Rightarrow>
     (key \<times> lock) list \<times> bool" where
  "scan_loop flt limit [] locks = (locks, False)"
| "scan_loop flt limit ((key, (l, _)) # rest) locks =
     (let locks = (if flt key l then locks @ [(key, into_lock l)] else locks) in
      if limit > 0 \<and> length locks \<ge> limit then (locks, rest \<noteq> [])
      else scan_loop flt limit rest locks)"

definition ppl_scan_locks ::
  "peer_pessimistic_locks \<Rightarrow> key option \<Rightarrow> key option \<Rightarrow>
     (key \<Rightarrow> pessimistic_lock \<Rightarrow> bool) \<Rightarrow> nat \<Rightarrow> ((key \<times> lock) list \<times> bool, 'e) result" where
  "ppl_scan_locks self start end' flt limit =
     assert_then (case (start, end') of (Some s, Some e) \<Rightarrow> s \<le> e | _ \<Rightarrow> True)
       (and_then
          (btree_range (pl_map self)
             (case start of None \<Rightarrow> Unbounded | Some k \<Rightarrow> Included k,
              case end' of None \<Rightarrow> Unbounded | Some k \<Rightarrow> Excluded k))
          (\<lambda>entries. Ok (scan_loop flt limit entries [])))"

subsection \<open>The memory account\<close>

text \<open>
  A table is well formed when its keys are in order and its memory size is the sum of its entries.
\<close>

definition map_size :: "lock_map \<Rightarrow> u64" where
  "map_size m = sum_list (map (\<lambda>(k, (l, _)). entry_size k l) m)"

definition ppl_wf :: "peer_pessimistic_locks \<Rightarrow> bool" where
  "ppl_wf self \<longleftrightarrow> tree_wf (pl_map self) \<and> pl_memory_size self = map_size (pl_map self)"

definition size_at :: "lock_map \<Rightarrow> key \<Rightarrow> u64" where
  "size_at m k = (case btree_get m k of Some (l, _) \<Rightarrow> entry_size k l | None \<Rightarrow> 0)"

lemma map_size_simps [simp]:
  "map_size [] = 0" "map_size ((k, (l, b)) # m) = entry_size k l + map_size m"
  by (simp_all add: map_size_def)

lemma btree_get_above: "\<forall>e\<in>set m. k < fst e \<Longrightarrow> btree_get m (k :: key) = None"
  by (induction m) (auto simp: btree_get_def)

lemma map_size_insert:
  "tree_wf m \<Longrightarrow> map_size (btree_insert k (l, b) m) = map_size m + entry_size k l - size_at m k"
proof (induction k "(l, b)" m rule: btree_insert.induct)
  case (2 k k' v' t)
  have "btree_get t k = None" if "k \<le> k'"
    by (rule btree_get_above) (use 2(2) that in \<open>auto intro: le_less_trans\<close>)
  then show ?case
    using 2 by (cases k k' rule: linorder_cases; cases v')
      (auto simp: size_at_def btree_get_def less_imp_neq split: option.splits)
qed (simp add: size_at_def btree_get_def)

lemma map_size_remove:
  "tree_wf m \<Longrightarrow> map_size (btree_remove k m) = map_size m - size_at m k"
proof (induction k m rule: btree_remove.induct)
  case (2 k k' v' t)
  then show ?case by (cases v') (auto simp: size_at_def btree_get_def split: option.splits)
qed (simp add: size_at_def btree_get_def)

lemma insert_incr_insert:
  "tree_wf m \<Longrightarrow> key \<notin> fst ` set pairs \<Longrightarrow> insert_incr (btree_insert key v m) pairs = insert_incr m pairs"
  by (induction m pairs rule: insert_incr.induct) (auto simp: btree_get_insert)

text \<open>The primary of a lock does not change when the lock is overwritten.\<close>

definition same_primaries :: "lock_map \<Rightarrow> (key \<times> pessimistic_lock) list \<Rightarrow> bool" where
  "same_primaries m pairs \<longleftrightarrow>
     list_all (\<lambda>(k, l). case btree_get m k of
       Some (l', _) \<Rightarrow> p_primary l' = p_primary l | None \<Rightarrow> True) pairs"

lemma insert_pairs_size:
  assumes "tree_wf m" "distinct (map fst pairs)" "same_primaries m pairs"
  shows "tree_wf (insert_pairs pairs m) \<and>
    map_size (insert_pairs pairs m) = map_size m + insert_incr m pairs"
  using assms
proof (induction pairs m rule: insert_pairs.induct)
  case (2 key l pairs m)
  let ?m = "btree_insert key (l, False) m"
  have "same_primaries ?m pairs"
    using 2(3,4) btree_get_insert [OF 2(2), of key "(l, False)"]
    by (force simp: same_primaries_def list_all_iff)
  then have "tree_wf (insert_pairs pairs ?m) \<and>
    map_size (insert_pairs pairs ?m) = map_size ?m + insert_incr ?m pairs"
    using 2 tree_wf_insert [OF 2(2)] by simp
  moreover have "map_size ?m = map_size m + (if btree_get m key = None then entry_size key l else 0)"
    using map_size_insert [OF 2(2), of key l False] 2(4)
    by (auto simp: same_primaries_def size_at_def entry_size_def lock_memory_size_def
        split: option.splits)
  ultimately show ?case
    using insert_incr_insert [OF 2(2), of key pairs] 2(3) by simp
qed simp

lemma insert_pairs_get:
  assumes "tree_wf m" "distinct (map fst pairs)"
  shows "btree_get (insert_pairs pairs m) k =
    (case map_of pairs k of Some l \<Rightarrow> Some (l, False) | None \<Rightarrow> btree_get m k)"
  using assms
proof (induction pairs m rule: insert_pairs.induct)
  case (2 key l pairs m)
  then have "map_of pairs key = None" by (simp add: map_of_eq_None_iff)
  then show ?case
    using 2 tree_wf_insert [OF 2(2), of key "(l, False)"] btree_get_insert [OF 2(2), of key "(l, False)"]
    by (auto split: option.splits)
qed simp

text \<open>
  C22: Inserting pessimistic locks keeps the memory account exact: on a well-formed table, for
  distinct keys whose overwritten locks keep their primary, \<^verbatim>\<open>insert\<close> either refuses, because the new
  total of the table or of the process would exceed its limit, and gives the locks back; or the
  table stays well formed within its limit, the process-wide counter grows exactly by what the
  table grew and stays within its limit, the inserted keys hold their locks with the mark cleared
  and every other key is unchanged.
\<close>

theorem ppl_insert_correct:
  assumes "ppl_wf self" "distinct (map fst pairs)" "same_primaries (pl_map self) pairs"
  shows "case ppl_insert self inst pairs peer_limit inst_limit of
      Ok (self', inst') \<Rightarrow> ppl_wf self' \<and> inst' - inst = pl_memory_size self' - pl_memory_size self \<and>
        pl_memory_size self' \<le> peer_limit \<and> inst' \<le> inst_limit \<and>
        (\<forall>k. ppl_get self' k =
           (case map_of pairs k of Some l \<Rightarrow> Some (l, False) | None \<Rightarrow> ppl_get self k))
    | Err given \<Rightarrow> given = pairs \<and>
        (peer_limit < map_size (insert_pairs pairs (pl_map self)) \<or>
         inst_limit < inst + (map_size (insert_pairs pairs (pl_map self)) - map_size (pl_map self)))
    | Panic \<Rightarrow> False"
  using assms insert_pairs_size [of "pl_map self" pairs] insert_pairs_get [of "pl_map self" pairs]
  by (simp add: ppl_insert_def ppl_wf_def ppl_get_def Let_def not_less split: option.split)

definition witness_plock :: "bytes \<Rightarrow> pessimistic_lock" where
  "witness_plock primary =
     \<lparr>p_primary = primary, p_start_ts = 10, p_ttl = 3000, p_for_update_ts = 11, p_min_commit_ts = 12,
      p_last_change = LcUnknown, p_is_locked_with_conflict = False\<rparr>"

theorem ppl_insert_correct_witness:
  "\<exists>self'. ppl_insert ppl_default 0 [([1], witness_plock [1]), ([2], witness_plock [1])] 1000 1000 =
     Ok (self', 164) \<and> ppl_wf self' \<and> ppl_get self' [2] = Some (witness_plock [1], False)"
proof -
  let ?ps = "[([1], witness_plock [1]), ([2], witness_plock [1])] :: (key \<times> pessimistic_lock) list"
  have "ppl_wf ppl_default" "distinct (map fst ?ps)" "same_primaries (pl_map ppl_default) ?ps"
    by (simp_all add: ppl_wf_def ppl_default_def same_primaries_def btree_get_def)
  from ppl_insert_correct [OF this, of 0 1000 1000]
  show ?thesis
    by (simp add: ppl_insert_def ppl_default_def btree_get_def entry_size_def lock_memory_size_def
        witness_plock_def PESSIMISTIC_LOCK_SIZE_def)
qed

lemma ppl_remove_wf:
  assumes "ppl_wf self"
  shows "ppl_wf (fst (ppl_remove self inst key))"
    and "ppl_get (fst (ppl_remove self inst key)) = (ppl_get self)(key := None)"
    and "snd (ppl_remove self inst key) - inst =
      pl_memory_size (fst (ppl_remove self inst key)) - pl_memory_size self"
  using assms map_size_remove [of "pl_map self" key]
  by (auto simp: ppl_remove_def ppl_wf_def ppl_get_def size_at_def tree_wf_remove btree_get_remove
      Let_def fun_eq_iff split: option.splits)

subsection \<open>Where a split puts a lock\<close>

lemma sorted_takeWhile:
  assumes "sorted_wrt r xs" "\<And>x y. r x y \<Longrightarrow> p y \<Longrightarrow> p x" "j < length xs"
  shows "p (xs ! j) \<longleftrightarrow> j < length (takeWhile p xs)"
  using assms
proof (induction xs arbitrary: j)
  case (Cons x xs)
  show ?case
  proof (cases j)
    case (Suc i)
    then have "i < length xs" "r x (xs ! i)" using Cons.prems by auto
    then show ?thesis using Cons.IH [of i] Cons.prems(1) Cons.prems(2) [of x "xs ! i"] Cons.prems(2) Suc
      by (cases "p x") auto
  qed simp
qed simp

definition regions_sorted :: "region_range list \<Rightarrow> bool" where
  "regions_sorted regions \<longleftrightarrow> sorted_wrt (\<lambda>r s. rg_start_key r < rg_start_key s) regions"

lemma region_index_takeWhile:
  assumes "regions_sorted regions"
  shows "region_index regions key =
    (let n = length (takeWhile (\<lambda>r. rg_start_key r \<le> key) regions) in
     if n = 0 then Panic else Ok (n - 1))"
proof (cases "position (\<lambda>r. rg_start_key r = key) regions")
  case None
  then have "takeWhile (\<lambda>r. rg_start_key r < key) regions = takeWhile (\<lambda>r. rg_start_key r \<le> key) regions"
    by (intro takeWhile_cong) (auto simp: position_eq_None le_less)
  then show ?thesis using None by (simp add: region_index_def)
next
  case (Some i)
  note i = position_Some [OF Some] and s = assms [unfolded regions_sorted_def]
  let ?n = "length (takeWhile (\<lambda>r. rg_start_key r \<le> key) regions)"
  have below: "rg_start_key (regions ! j) \<le> key \<longleftrightarrow> j < ?n" if "j < length regions" for j
    by (rule sorted_takeWhile [OF s _ that]) auto
  have "i < ?n" using below [of i] i by simp
  moreover have "\<not> Suc i < ?n"
  proof
    assume l: "Suc i < ?n"
    moreover have "?n \<le> length regions" by (rule length_takeWhile_le)
    ultimately have "rg_start_key (regions ! Suc i) \<le> key" using below [of "Suc i"] by simp
    then show False
      using sorted_wrt_nth_less [OF s, of i "Suc i"] i l \<open>?n \<le> length regions\<close> by auto
  qed
  ultimately have "?n = Suc i" by linarith
  then show ?thesis using Some by (simp add: region_index_def)
qed

text \<open>The region a key belongs to by the start keys: the last one that does not start above it.\<close>

definition region_slot :: "region_range list \<Rightarrow> key \<Rightarrow> nat \<Rightarrow> bool" where
  "region_slot regions key i \<longleftrightarrow>
     i < length regions \<and> rg_start_key (regions ! i) \<le> key \<and>
     (Suc i < length regions \<longrightarrow> key < rg_start_key (regions ! Suc i))"

lemma region_index_slot:
  assumes "regions_sorted regions"
  shows "region_index regions key = Ok i \<longleftrightarrow> region_slot regions key i"
proof -
  let ?p = "\<lambda>r. rg_start_key r \<le> key" and ?n = "length (takeWhile (\<lambda>r. rg_start_key r \<le> key) regions)"
  have below: "?p (regions ! j) \<longleftrightarrow> j < ?n" if "j < length regions" for j
    by (rule sorted_takeWhile [OF assms [unfolded regions_sorted_def] _ that]) auto
  have le: "?n \<le> length regions" by (rule length_takeWhile_le)
  have "region_index regions key = Ok i \<longleftrightarrow> ?n = Suc i"
    by (auto simp: region_index_takeWhile [OF assms] Let_def)
  also have "\<dots> \<longleftrightarrow> i < length regions \<and> i < ?n \<and> (Suc i < length regions \<longrightarrow> \<not> Suc i < ?n)"
    using le by linarith
  also have "\<dots> \<longleftrightarrow> region_slot regions key i"
    unfolding region_slot_def not_le [symmetric] using below [of i] below [of "Suc i"] by auto
  finally show ?thesis .
qed

lemma region_index_Panic:
  assumes "regions_sorted regions"
  shows "region_index regions key = Panic \<longleftrightarrow> \<not> (\<exists>i. region_slot regions key i)"
  using region_index_slot [OF assms, of key] region_index_takeWhile [OF assms, of key]
  by (auto simp: Let_def split: if_splits)

lemma sum_list_update_group:
  fixes f :: "'a \<Rightarrow> 'b::ab_group_add"
  shows "i < length xs \<Longrightarrow> sum_list (map f (xs[i := y])) = sum_list (map f xs) + (f y - f (xs ! i))"
proof (induction xs arbitrary: i)
  case (Cons x xs)
  then show ?case by (cases i) (auto simp: algebra_simps)
qed simp

text \<open>The table of a new region after it took over one lock.\<close>

definition add_lock :: "peer_pessimistic_locks \<Rightarrow> key \<Rightarrow> pessimistic_lock \<Rightarrow> peer_pessimistic_locks" where
  "add_lock r key l =
     r\<lparr>pl_map := btree_insert key (l, False) (pl_map r), pl_memory_size := pl_memory_size r + entry_size key l\<rparr>"

lemma add_lock_wf:
  assumes "ppl_wf r" "ppl_get r key = None"
  shows "ppl_wf (add_lock r key l)" and "ppl_get (add_lock r key l) = (ppl_get r)(key \<mapsto> (l, False))"
  using assms map_size_insert [of "pl_map r" key l False]
  by (auto simp: add_lock_def ppl_wf_def ppl_get_def size_at_def tree_wf_insert btree_get_insert)

lemma group_loop_eq:
  assumes "regions_sorted regions" "\<forall>e\<in>set removed. \<exists>i. region_slot regions (fst e) i"
    and "length res = length regions" "tree_wf removed" "\<forall>r\<in>set res. ppl_wf r"
    and "\<forall>r\<in>set res. \<forall>e\<in>set removed. ppl_get r (fst e) = None"
  shows "\<exists>res'. (group_loop regions removed self res :: (_, 'e) result) =
      Ok (self\<lparr>pl_memory_size := pl_memory_size self - map_size removed\<rparr>, res') \<and>
    length res' = length regions \<and> (\<forall>r\<in>set res'. ppl_wf r) \<and>
    sum_list (map pl_memory_size res') = sum_list (map pl_memory_size res) + map_size removed \<and>
    (\<forall>i<length regions. \<forall>k. ppl_get (res' ! i) k =
       (case btree_get removed k of
          Some (l, _) \<Rightarrow> if region_slot regions k i then Some (l, False) else ppl_get (res ! i) k
        | None \<Rightarrow> ppl_get (res ! i) k))"
  using assms(2-)
proof (induction removed arbitrary: self res)
  case (Cons e removed)
  obtain key l b where e: "e = (key, (l, b))" by (cases e) auto
  obtain i where i: "region_slot regions key i" using Cons.prems(1) e by auto
  then have len: "i < length regions" "i < length res" and idx: "(region_index regions key :: (_, 'e) result) = Ok i"
    using Cons.prems(2) region_index_slot [OF assms(1)] by (auto simp: region_slot_def)
  let ?r = "add_lock (res ! i) key l" and ?self = "self\<lparr>pl_memory_size := pl_memory_size self - entry_size key l\<rparr>"
  let ?res = "res[i := ?r]"
  have above: "\<forall>x\<in>set removed. key < fst x" using Cons.prems(3) e by simp
  have old: "ppl_wf (res ! i)" "ppl_get (res ! i) key = None"
    using Cons.prems(4,5) len e by auto
  have new: "r \<in> set res \<or> r = ?r" if "r \<in> set ?res" for r
    using that set_update_subset_insert [of res i ?r] by auto
  have "\<forall>e\<in>set removed. \<exists>i. region_slot regions (fst e) i" "length ?res = length regions" "tree_wf removed"
    using Cons.prems(1-3) by auto
  moreover have "\<forall>r\<in>set ?res. ppl_wf r" using new Cons.prems(4) add_lock_wf(1) [OF old] by blast
  moreover have "\<forall>r\<in>set ?res. \<forall>e\<in>set removed. ppl_get r (fst e) = None"
  proof (intro ballI)
    fix r x assume r: "r \<in> set ?res" and x: "x \<in> set removed"
    then have "key \<noteq> fst x" using above by auto
    then show "ppl_get r (fst x) = None"
      using new [OF r] x Cons.prems(5) len add_lock_wf(2) [OF old, of l] by auto
  qed
  ultimately obtain res' where res': "(group_loop regions removed ?self ?res :: (_, 'e) result) =
      Ok (?self\<lparr>pl_memory_size := pl_memory_size ?self - map_size removed\<rparr>, res')"
    "length res' = length regions" "\<forall>r\<in>set res'. ppl_wf r"
    "sum_list (map pl_memory_size res') = sum_list (map pl_memory_size ?res) + map_size removed"
    "\<forall>j<length regions. \<forall>k. ppl_get (res' ! j) k =
       (case btree_get removed k of
          Some (l, _) \<Rightarrow> if region_slot regions k j then Some (l, False) else ppl_get (?res ! j) k
        | None \<Rightarrow> ppl_get (?res ! j) k)"
    using Cons.IH [of ?res ?self] by blast
  have sum: "sum_list (map pl_memory_size ?res) = sum_list (map pl_memory_size res) + entry_size key l"
    using sum_list_update_group [OF len(2), of pl_memory_size ?r] by (simp add: add_lock_def)
  have none: "btree_get removed key = None" by (rule btree_get_above [OF above])
  have slot: "region_slot regions key j \<longleftrightarrow> j = i" for j
    by (metis idx region_index_slot [OF assms(1)] result.inject(1))
  have "(group_loop regions (e # removed) self res :: (_, 'e) result) =
      Ok (self\<lparr>pl_memory_size := pl_memory_size self - map_size (e # removed)\<rparr>, res')"
    using idx res'(1) by (simp add: e add_lock_def Let_def algebra_simps)
  moreover have "ppl_get (res' ! j) k =
       (case btree_get (e # removed) k of
          Some (l, _) \<Rightarrow> if region_slot regions k j then Some (l, False) else ppl_get (res ! j) k
        | None \<Rightarrow> ppl_get (res ! j) k)" if "j < length regions" for j k
    using res'(5) that none slot [of j] len add_lock_wf(2) [OF old, of l]
    by (cases "k = key"; cases "j = i") (simp_all add: e btree_get_def split: option.splits)
  ultimately show ?case
    using res'(2-4) sum by (intro exI [of _ res']) (simp add: e add.assoc del: group_loop.simps)
qed (simp add: btree_get_def)

lemma map_size_filter: "map_size (filter p m) + map_size (filter (\<lambda>e. \<not> p e) m) = map_size m"
  by (induction m) (auto simp: algebra_simps)

lemma tree_wf_filter: "tree_wf m \<Longrightarrow> tree_wf (filter p m)"
  by (induction m) auto

lemma btree_get_filter:
  "tree_wf m \<Longrightarrow> btree_get (filter (\<lambda>e. p (fst e)) m) k = (if p k then btree_get m k else None)"
  by (rule option_eqI) (simp add: btree_get_eq_Some tree_wf_filter)

text \<open>
  C23: Splitting a region hands over the pessimistic locks without loss. For new regions sorted by
  start key that cover every lock outside the derived region, \<^verbatim>\<open>group_by_regions\<close> does not panic; the
  old table keeps exactly its locks inside the derived region; every other lock is in the table of
  the region its key belongs to, with the deletion mark cleared, and in no other; all the tables
  have exact memory sizes and together use what the old table used.
\<close>

theorem group_by_regions_correct:
  assumes "ppl_wf self" "regions_sorted regions"
    and "\<forall>k. ppl_get self k \<noteq> None \<longrightarrow> \<not> in_region derived k \<longrightarrow> (\<exists>i. region_slot regions k i)"
  shows "\<exists>self' res. (group_by_regions self regions derived :: (_, 'e) result) = Ok (self', res) \<and>
    ppl_wf self' \<and> (\<forall>r\<in>set res. ppl_wf r) \<and> length res = length regions \<and>
    pl_memory_size self' + sum_list (map pl_memory_size res) = pl_memory_size self \<and>
    (\<forall>k. ppl_get self' k = (if in_region derived k then ppl_get self k else None)) \<and>
    (\<forall>i<length regions. \<forall>k. ppl_get (res ! i) k =
       (if in_region derived k \<or> \<not> region_slot regions k i then None
        else map_option (\<lambda>(l, _). (l, False)) (ppl_get self k)))"
proof -
  let ?in = "\<lambda>e. in_region derived (fst e)"
  let ?removed = "filter (\<lambda>e. \<not> ?in e) (pl_map self)" and ?res = "map (\<lambda>_. ppl_default) regions"
  let ?self = "self\<lparr>pl_map := filter ?in (pl_map self)\<rparr>"
  have wf: "tree_wf (pl_map self)" "pl_memory_size self = map_size (pl_map self)"
    using assms(1) by (auto simp: ppl_wf_def)
  have "\<forall>e\<in>set ?removed. \<exists>i. region_slot regions (fst e) i"
    using assms(3) btree_get_eq_Some [OF wf(1)] by (auto simp: ppl_get_def)
  moreover have "length ?res = length regions" "tree_wf ?removed" "\<forall>r\<in>set ?res. ppl_wf r"
    "\<forall>r\<in>set ?res. \<forall>e\<in>set ?removed. ppl_get r (fst e) = None"
    using tree_wf_filter [OF wf(1)] by (auto simp: ppl_wf_def ppl_default_def ppl_get_def btree_get_def)
  ultimately obtain res where res:
    "(group_loop regions ?removed ?self ?res :: (_, 'e) result) =
       Ok (?self\<lparr>pl_memory_size := pl_memory_size ?self - map_size ?removed\<rparr>, res)"
    "length res = length regions" "\<forall>r\<in>set res. ppl_wf r"
    "sum_list (map pl_memory_size res) = sum_list (map pl_memory_size ?res) + map_size ?removed"
    "\<forall>i<length regions. \<forall>k. ppl_get (res ! i) k =
       (case btree_get ?removed k of
          Some (l, _) \<Rightarrow> if region_slot regions k i then Some (l, False) else ppl_get (?res ! i) k
        | None \<Rightarrow> ppl_get (?res ! i) k)"
    using group_loop_eq [OF assms(2), of ?removed ?res ?self] by blast
  let ?self' = "?self\<lparr>pl_memory_size := pl_memory_size ?self - map_size ?removed\<rparr>"
  have "(group_by_regions self regions derived :: (_, 'e) result) = Ok (?self', res)"
    using res(1) by (simp add: group_by_regions_def)
  moreover have "ppl_wf ?self'"
    using map_size_filter [of ?in "pl_map self"] wf tree_wf_filter [OF wf(1)]
    by (simp add: ppl_wf_def algebra_simps)
  moreover have "pl_memory_size ?self' + sum_list (map pl_memory_size res) = pl_memory_size self"
    using res(4) by (simp add: ppl_default_def comp_def)
  moreover have "\<forall>k. ppl_get ?self' k = (if in_region derived k then ppl_get self k else None)"
    using btree_get_filter [OF wf(1), of "in_region derived"] by (simp add: ppl_get_def)
  moreover have "\<forall>i<length regions. \<forall>k. ppl_get (res ! i) k =
       (if in_region derived k \<or> \<not> region_slot regions k i then None
        else map_option (\<lambda>(l, _). (l, False)) (ppl_get self k))"
    using res(5) btree_get_filter [OF wf(1), of "\<lambda>k. \<not> in_region derived k"]
    by (auto simp: ppl_get_def ppl_default_def btree_get_def split: option.splits)
  ultimately show ?thesis using res(2,3) by blast
qed

theorem group_by_regions_correct_witness:
  "\<exists>self' res. group_by_regions
      (ppl_default\<lparr>pl_map := [([1], (witness_plock [1], True)), ([5], (witness_plock [1], True))],
         pl_memory_size := 164\<rparr>)
      [\<lparr>rg_start_key = [], rg_end_key = [3]\<rparr>, \<lparr>rg_start_key = [3], rg_end_key = []\<rparr>]
      \<lparr>rg_start_key = [], rg_end_key = [3]\<rparr> = (Ok (self', res) :: (_, unit) result) \<and>
    ppl_get self' [1] = Some (witness_plock [1], True) \<and>
    ppl_get (res ! 1) [5] = Some (witness_plock [1], False)"
proof -
  let ?m = "[([1], (witness_plock [1], True)), ([5], (witness_plock [1], True))] :: lock_map"
  let ?self = "ppl_default\<lparr>pl_map := ?m, pl_memory_size := 164\<rparr>"
  let ?rs = "[\<lparr>rg_start_key = [], rg_end_key = [3]\<rparr>, \<lparr>rg_start_key = [3], rg_end_key = []\<rparr>]"
  let ?d = "\<lparr>rg_start_key = [], rg_end_key = [3]\<rparr>"
  have "ppl_wf ?self"
    by (simp add: ppl_wf_def entry_size_def lock_memory_size_def witness_plock_def
        PESSIMISTIC_LOCK_SIZE_def)
  moreover have "regions_sorted ?rs" by (simp add: regions_sorted_def)
  moreover have "region_slot ?rs k 1" if "\<not> in_region ?d k" for k
    using that by (auto simp: in_region_def region_slot_def)
  ultimately obtain self' res where r: "(group_by_regions ?self ?rs ?d :: (_, unit) result) = Ok (self', res)"
    "\<forall>k. ppl_get self' k = (if in_region ?d k then ppl_get ?self k else None)"
    "\<forall>i<length ?rs. \<forall>k. ppl_get (res ! i) k = (if in_region ?d k \<or> \<not> region_slot ?rs k i then None
        else map_option (\<lambda>(l, _). (l, False)) (ppl_get ?self k))"
    using group_by_regions_correct [of ?self ?rs ?d, where 'e = unit] by blast
  have "ppl_get self' [1] = Some (witness_plock [1], True)"
    using r(2) by (simp add: in_region_def ppl_get_def btree_get_def)
  moreover have "ppl_get (res ! 1) [5] = Some (witness_plock [1], False)"
    using r(3) by (simp add: in_region_def region_slot_def ppl_get_def btree_get_def)
  ultimately show ?thesis using r(1) by blast
qed

subsection \<open>What a scan returns\<close>

definition matching :: "(key \<Rightarrow> pessimistic_lock \<Rightarrow> bool) \<Rightarrow> lock_map \<Rightarrow> (key \<times> lock) list" where
  "matching flt entries =
     map (\<lambda>(k, (l, _)). (k, into_lock l)) (filter (\<lambda>(k, (l, _)). flt k l) entries)"

lemma matching_simps [simp]:
  "matching flt [] = []"
  "matching flt ((k, (l, b)) # m) = (if flt k l then [(k, into_lock l)] else []) @ matching flt m"
  by (simp_all add: matching_def)

lemma scan_loop_eq:
  assumes "limit = 0 \<or> length locks < limit"
  shows "\<exists>b. scan_loop flt limit entries locks =
      (if limit = 0 then locks @ matching flt entries else take limit (locks @ matching flt entries), b) \<and>
    (b \<or> limit = 0 \<or> length (locks @ matching flt entries) \<le> limit)"
  using assms
proof (induction flt limit entries locks rule: scan_loop.induct)
  case (2 flt limit key l b rest locks)
  let ?locks = "if flt key l then locks @ [(key, into_lock l)] else locks"
  show ?case
  proof (cases "limit > 0 \<and> length ?locks \<ge> limit")
    case True
    then have f: "flt key l" "length locks + 1 = limit" using 2(2) by (auto split: if_splits)
    then have "take limit (locks @ matching flt ((key, (l, b)) # rest)) = ?locks" by auto
    moreover have "scan_loop flt limit ((key, (l, b)) # rest) locks = (?locks, rest \<noteq> [])"
      using True by (simp add: Let_def)
    ultimately show ?thesis using True f by (intro exI [of _ "rest \<noteq> []"]) (cases rest; simp)
  next
    case False
    then have l: "limit = 0 \<or> length ?locks < limit" by auto
    have eq: "scan_loop flt limit ((key, (l, b)) # rest) locks = scan_loop flt limit rest ?locks"
      "locks @ matching flt ((key, (l, b)) # rest) = ?locks @ matching flt rest"
      using False by (auto simp: Let_def)
    show ?thesis unfolding eq by (rule 2(1) [OF refl False l])
  qed
next
  case (1 flt limit locks)
  then show ?case by (intro exI [of _ False]) auto
qed

text \<open>
  C24: Scanning the lock table returns, in key order, the locks of the range that pass the filter: all
  of them when no limit is set, else the first ones up to the limit; when it does not report that
  locks remain, none was left out. It panics exactly on a range whose end is below its start.
\<close>

theorem ppl_scan_locks_correct:
  "let entries = filter (\<lambda>e. (case start of None \<Rightarrow> True | Some s \<Rightarrow> s \<le> fst e) \<and>
         (case end' of None \<Rightarrow> True | Some e' \<Rightarrow> fst e < e')) (pl_map self)
   in if (\<exists>s e. start = Some s \<and> end' = Some e \<and> e < s)
      then ppl_scan_locks self start end' flt limit = (Panic :: (_, 'e) result)
      else \<exists>remain. ppl_scan_locks self start end' flt limit =
             (Ok (if limit = 0 then matching flt entries else take limit (matching flt entries), remain) :: (_, 'e) result) \<and>
           (remain \<or> limit = 0 \<or> length (matching flt entries) \<le> limit)"
proof -
  let ?r = "(case start of None \<Rightarrow> Unbounded | Some k \<Rightarrow> Included k,
    case end' of None \<Rightarrow> Unbounded | Some k \<Rightarrow> Excluded k)"
  have range: "range_contains ?r k \<longleftrightarrow> (case start of None \<Rightarrow> True | Some s \<Rightarrow> s \<le> k) \<and>
      (case end' of None \<Rightarrow> True | Some e' \<Rightarrow> k < e')" for k
    by (cases start; cases end') simp_all
  have ok: "(case (start, end') of (Some s, Some e) \<Rightarrow> s \<le> e | _ \<Rightarrow> True) \<longleftrightarrow>
      \<not> (\<exists>s e. start = Some s \<and> end' = Some e \<and> e < s)"
    by (cases start; cases end') (simp_all add: not_less)
  have rok: "range_ok ?r" if "case (start, end') of (Some s, Some e) \<Rightarrow> s \<le> e | _ \<Rightarrow> True"
    using that by (cases start; cases end') simp_all
  define entries where "entries = filter (\<lambda>e. (case start of None \<Rightarrow> True | Some s \<Rightarrow> s \<le> fst e) \<and>
         (case end' of None \<Rightarrow> True | Some e' \<Rightarrow> fst e < e')) (pl_map self)"
  have "filter (\<lambda>e. range_contains ?r (fst e)) (pl_map self) = entries"
    unfolding entries_def range ..
  then have "(ppl_scan_locks self start end' flt limit :: (_, 'e) result) =
    (if (\<exists>s e. start = Some s \<and> end' = Some e \<and> e < s) then Panic
     else Ok (scan_loop flt limit entries []))"
    using rok ok by (simp add: ppl_scan_locks_def btree_range_def assert_then_def del: range_contains.simps)
  then show ?thesis
    unfolding entries_def [symmetric] Let_def using scan_loop_eq [of limit "[]" flt entries] by auto
qed

end
