(* ===== verification/Mvcc_Txn.thy ===== *)
theory Mvcc_Txn
  imports Cursor Pessimistic_Table
begin

text \<open>
  What the transaction layer is made of: its errors (\<^verbatim>\<open>src/storage/mvcc/mod.rs\<close>), the record a
  transaction left on a key (\<^verbatim>\<open>src/storage/mvcc/reader/mod.rs\<close>) and \<^verbatim>\<open>MvccTxn\<close>, the batch of
  modifications a command collects (\<^verbatim>\<open>src/storage/mvcc/txn.rs\<close>). Error values carry the fields of
  the source. The concurrency manager that \<^verbatim>\<open>MvccTxn\<close> refers to is state of its own, and the guards
  are the keys they keep locked in memory.
\<close>

subsection \<open>Errors\<close>

datatype lock_not_found_reason =
    LockTsMismatch | LockMissingAmendFail | LockForUpdateTsMismatch | NonLockKeyConflict
  | FailpointInjected

datatype mvcc_error =
    MvKv kv_error
  | MvIo io_error_kind
  | MvCodec codec_error
  | MvKeyIsLocked lock_info
  | MvBadFormat txn_types_error
  | MvCommitted timestamp timestamp bytes
  | MvPessimisticLockRolledBack timestamp bytes
  | MvTxnLockNotFound timestamp timestamp bytes
  | MvTxnNotFound timestamp bytes
  | MvLockTypeNotMatch timestamp bytes bool
  | MvWriteConflict timestamp timestamp timestamp bytes bytes conflict_reason
  | MvDeadlock timestamp timestamp bytes u64
  | MvAlreadyExist bytes timestamp
  | MvDefaultNotFound bytes
  | MvCommitTsExpired timestamp timestamp bytes timestamp
  | MvKeyVersion
  | MvPessimisticLockNotFound timestamp bytes lock_not_found_reason
  | MvCommitTsTooLarge timestamp timestamp timestamp
  | MvAssertionFailed timestamp bytes assertion timestamp timestamp
  | MvLockIfExistsFailed timestamp bytes
  | MvPrimaryMismatch lock_info
  | MvGenerationOutOfOrder u64 key lock
  | MvInvalidMaxTsUpdate
  | MvOther

primrec mvcc_from_txn_types :: "txn_types_error \<Rightarrow> mvcc_error" where
  "mvcc_from_txn_types (TtIo e) = MvIo e"
| "mvcc_from_txn_types (TtCodec e) = MvCodec e"
| "mvcc_from_txn_types BadFormatLock = MvBadFormat BadFormatLock"
| "mvcc_from_txn_types BadFormatWrite = MvBadFormat BadFormatWrite"
| "mvcc_from_txn_types (TtKeyIsLocked info) = MvKeyIsLocked info"
| "mvcc_from_txn_types (TtWriteConflict s cs cc k p r) = MvWriteConflict s cs cc k p r"

text \<open>
  \<^verbatim>\<open>default_not_found_error\<close> with the switch that turns unexpected data into a panic in its default
  position, off.
\<close>

definition default_not_found_error :: "bytes \<Rightarrow> mvcc_error" where
  "default_not_found_error key = MvDefaultNotFound key"

subsection \<open>The record of a transaction on a key\<close>

record overlapped_write =
  ow_write :: write_record
  ow_gc_fence :: timestamp

datatype txn_commit_record =
    RecordNone "overlapped_write option"
  | SingleRecord timestamp write_record
  | OverlappedRollback timestamp

primrec record_exist :: "txn_commit_record \<Rightarrow> bool" where
  "record_exist (RecordNone ow) = False"
| "record_exist (SingleRecord commit_ts w) = True"
| "record_exist (OverlappedRollback commit_ts) = True"

primrec record_info :: "txn_commit_record \<Rightarrow> (timestamp \<times> write_type) option" where
  "record_info (RecordNone ow) = None"
| "record_info (SingleRecord commit_ts w) = Some (commit_ts, w_write_type w)"
| "record_info (OverlappedRollback commit_ts) = Some (commit_ts, WtRollback)"

definition unwrap_single_record :: "txn_commit_record \<Rightarrow> (timestamp \<times> write_type, 'e) result" where
  "unwrap_single_record r =
     (case r of SingleRecord commit_ts w \<Rightarrow> Ok (commit_ts, w_write_type w) | _ \<Rightarrow> Panic)"

definition unwrap_overlapped_rollback :: "txn_commit_record \<Rightarrow> (timestamp, 'e) result" where
  "unwrap_overlapped_rollback r = (case r of OverlappedRollback commit_ts \<Rightarrow> Ok commit_ts | _ \<Rightarrow> Panic)"

definition unwrap_none :: "txn_commit_record \<Rightarrow> (overlapped_write option, 'e) result" where
  "unwrap_none r = (case r of RecordNone ow \<Rightarrow> Ok ow | _ \<Rightarrow> Panic)"

subsection \<open>The batch of a command\<close>

definition MAX_TXN_WRITE_SIZE :: nat where "MAX_TXN_WRITE_SIZE = 32 * 1024"

record released_lock =
  rl_start_ts :: timestamp
  rl_commit_ts :: timestamp
  rl_key :: key
  rl_pessimistic :: bool

record mvcc_txn =
  t_start_ts :: timestamp
  t_write_size :: u64
  t_modifies :: "modify list"
  t_locks_for_1pc :: "(key \<times> lock \<times> bool) list"
  t_new_locks :: "lock_info list"
  t_guards :: "key list"

definition mvcc_txn_new :: "timestamp \<Rightarrow> mvcc_txn" where
  "mvcc_txn_new start_ts =
     \<lparr>t_start_ts = start_ts, t_write_size = 0, t_modifies = [], t_locks_for_1pc = [],
      t_new_locks = [], t_guards = []\<rparr>"

definition into_modifies :: "mvcc_txn \<Rightarrow> (modify list, 'e) result" where
  "into_modifies txn = assert_then (t_locks_for_1pc txn = []) (Ok (t_modifies txn))"

definition take_guards :: "mvcc_txn \<Rightarrow> key list \<times> mvcc_txn" where
  "take_guards txn = (t_guards txn, txn\<lparr>t_guards := []\<rparr>)"

definition take_new_locks :: "mvcc_txn \<Rightarrow> lock_info list \<times> mvcc_txn" where
  "take_new_locks txn = (t_new_locks txn, txn\<lparr>t_new_locks := []\<rparr>)"

definition txn_is_empty :: "mvcc_txn \<Rightarrow> bool" where
  "txn_is_empty txn \<longleftrightarrow> t_modifies txn = [] \<and> t_locks_for_1pc txn = []"

text \<open>Appending a put or a delete, with the size \<^verbatim>\<open>Modify::size\<close> gives it.\<close>

definition push_put :: "mvcc_txn \<Rightarrow> cf_name \<Rightarrow> key \<Rightarrow> val \<Rightarrow> mvcc_txn" where
  "push_put txn cf k v =
     txn\<lparr>t_write_size := t_write_size txn + of_nat (modify_cf_size cf + length k + length v),
         t_modifies := t_modifies txn @ [ModPut cf k v]\<rparr>"

definition push_delete :: "mvcc_txn \<Rightarrow> cf_name \<Rightarrow> key \<Rightarrow> mvcc_txn" where
  "push_delete txn cf k =
     txn\<lparr>t_write_size := t_write_size txn + of_nat (modify_cf_size cf + length k),
         t_modifies := t_modifies txn @ [ModDelete cf k]\<rparr>"

definition push_new_lock :: "mvcc_txn \<Rightarrow> key \<Rightarrow> lock \<Rightarrow> bool \<Rightarrow> (mvcc_txn, mvcc_error) result" where
  "push_new_lock txn key l is_new =
     (if is_new
      then map_ok (\<lambda>raw. txn\<lparr>t_new_locks := t_new_locks txn @ [into_lock_info l raw]\<rparr>)
             (unwrap_result (to_raw key))
      else Ok txn)"

definition put_lock :: "mvcc_txn \<Rightarrow> key \<Rightarrow> lock \<Rightarrow> bool \<Rightarrow> (mvcc_txn, mvcc_error) result" where
  "put_lock txn key l is_new =
     map_ok (\<lambda>txn. push_put txn CF_LOCK key (lock_to_bytes l)) (push_new_lock txn key l is_new)"

definition put_locks_for_1pc :: "mvcc_txn \<Rightarrow> key \<Rightarrow> lock \<Rightarrow> bool \<Rightarrow> mvcc_txn" where
  "put_locks_for_1pc txn key l remove_pessimistic_lock =
     txn\<lparr>t_locks_for_1pc := t_locks_for_1pc txn @ [(key, l, remove_pessimistic_lock)]\<rparr>"

definition put_pessimistic_lock ::
  "mvcc_txn \<Rightarrow> key \<Rightarrow> pessimistic_lock \<Rightarrow> bool \<Rightarrow> (mvcc_txn, mvcc_error) result" where
  "put_pessimistic_lock txn key l is_new =
     map_ok (\<lambda>txn. txn\<lparr>t_modifies := t_modifies txn @ [ModPessimisticLock key l]\<rparr>)
       (push_new_lock txn key (to_lock l) is_new)"

definition unlock_key :: "mvcc_txn \<Rightarrow> key \<Rightarrow> bool \<Rightarrow> timestamp \<Rightarrow> released_lock option \<times> mvcc_txn" where
  "unlock_key txn key pessimistic commit_ts =
     (Some \<lparr>rl_start_ts = t_start_ts txn, rl_commit_ts = commit_ts, rl_key = key,
            rl_pessimistic = pessimistic\<rparr>,
      push_delete txn CF_LOCK key)"

definition put_value :: "mvcc_txn \<Rightarrow> key \<Rightarrow> timestamp \<Rightarrow> val \<Rightarrow> mvcc_txn" where
  "put_value txn key ts v = push_put txn CF_DEFAULT (append_ts key ts) v"

definition delete_value :: "mvcc_txn \<Rightarrow> key \<Rightarrow> timestamp \<Rightarrow> mvcc_txn" where
  "delete_value txn key ts = push_delete txn CF_DEFAULT (append_ts key ts)"

definition put_write :: "mvcc_txn \<Rightarrow> key \<Rightarrow> timestamp \<Rightarrow> val \<Rightarrow> mvcc_txn" where
  "put_write txn key ts v = push_put txn CF_WRITE (append_ts key ts) v"

definition delete_write :: "mvcc_txn \<Rightarrow> key \<Rightarrow> timestamp \<Rightarrow> mvcc_txn" where
  "delete_write txn key ts = push_delete txn CF_WRITE (append_ts key ts)"

definition mark_rollback_on_mismatching_lock ::
  "mvcc_txn \<Rightarrow> key \<Rightarrow> lock \<Rightarrow> bool \<Rightarrow> (mvcc_txn, mvcc_error) result" where
  "mark_rollback_on_mismatching_lock txn key l protected =
     assert_then (l_ts l \<noteq> t_start_ts txn)
       (if \<not> protected then Ok txn
        else if t_start_ts txn < l_min_commit_ts l then Ok txn
        else if \<not> l_use_async_commit l then Ok txn
        else put_lock txn key (l\<lparr>l_rollback_ts := l_rollback_ts l @ [t_start_ts txn]\<rparr>) False)"

definition txn_clear :: "mvcc_txn \<Rightarrow> mvcc_txn" where
  "txn_clear txn =
     txn\<lparr>t_write_size := 0, t_modifies := [], t_new_locks := [], t_locks_for_1pc := [], t_guards := []\<rparr>"

subsection \<open>The size of the batch\<close>

text \<open>
  The counted size is the size of the modifications, as \<^verbatim>\<open>WriteData::size\<close> computes it, pessimistic
  locks apart, which are not counted when they are put.
\<close>

fun counted_size :: "modify list \<Rightarrow> u64" where
  "counted_size [] = 0"
| "counted_size (m # ms) =
     (case m of
        ModPut cf k v \<Rightarrow> of_nat (modify_cf_size cf + length k + length v)
      | ModDelete cf k \<Rightarrow> of_nat (modify_cf_size cf + length k)
      | _ \<Rightarrow> 0) + counted_size ms"

definition size_ok :: "mvcc_txn \<Rightarrow> bool" where
  "size_ok txn \<longleftrightarrow> t_write_size txn = counted_size (t_modifies txn)"

lemma counted_size_append [simp]: "counted_size (xs @ ys) = counted_size xs + counted_size ys"
  by (induction xs) (auto simp: add.assoc)

lemma size_ok_push [simp]:
  "size_ok txn \<Longrightarrow> size_ok (push_put txn cf k v)" "size_ok txn \<Longrightarrow> size_ok (push_delete txn cf k)"
  by (simp_all add: size_ok_def push_put_def push_delete_def)

lemma push_start_ts [simp]:
  "t_start_ts (push_put txn cf k v) = t_start_ts txn" "t_start_ts (push_delete txn cf k) = t_start_ts txn"
  by (simp_all add: push_put_def push_delete_def)

lemma push_modifies [simp]:
  "t_modifies (push_put txn cf k v) = t_modifies txn @ [ModPut cf k v]"
  "t_modifies (push_delete txn cf k) = t_modifies txn @ [ModDelete cf k]"
  by (simp_all add: push_put_def push_delete_def)

end
