(* ===== verification/Mvcc_Reader.thy ===== *)
theory Mvcc_Reader
  imports Mvcc_Txn
begin

text \<open>
  The reader of the multi-version store (\<^verbatim>\<open>src/storage/mvcc/reader/reader.rs\<close>): \<^verbatim>\<open>MvccReader\<close> with
  its lazily created cursors, and \<^verbatim>\<open>SnapshotReader\<close>, a reader with the start timestamp of a
  transaction. Every method is a function on the reader that also returns the reader, since
  cursors move and statistics count. A snapshot is the engine it was taken from and, on a leader, the
  in-memory pessimistic lock table. \<^verbatim>\<open>fill_cache\<close> and \<^verbatim>\<open>hint_min_ts\<close> only steer the storage and are
  left out, as are the metrics.
\<close>

subsection \<open>State\<close>

record snapshot =
  sn_engine :: btree_engine
  sn_txn_ext :: "peer_pessimistic_locks option"

record statistics =
  ss_lock :: cf_statistics
  ss_write :: cf_statistics
  ss_data :: cf_statistics

definition statistics_default :: statistics where
  "statistics_default =
     \<lparr>ss_lock = cf_statistics_default, ss_write = cf_statistics_default, ss_data = cf_statistics_default\<rparr>"

definition statistics_add :: "statistics \<Rightarrow> statistics \<Rightarrow> statistics" where
  "statistics_add st other =
     \<lparr>ss_lock = cf_statistics_add (ss_lock st) (ss_lock other),
      ss_write = cf_statistics_add (ss_write st) (ss_write other),
      ss_data = cf_statistics_add (ss_data st) (ss_data other)\<rparr>"

record mvcc_reader =
  mr_snapshot :: snapshot
  mr_statistics :: statistics
  mr_data_cursor :: "cursor option"
  mr_lock_cursor :: "cursor option"
  mr_write_cursor :: "cursor option"
  mr_lower_bound :: "key option"
  mr_upper_bound :: "key option"
  mr_scan_mode :: "scan_mode option"
  mr_current_key :: "key option"
  mr_term :: u64
  mr_version :: u64
  mr_allow_in_flashback :: bool

definition mvcc_reader_new :: "snapshot \<Rightarrow> scan_mode option \<Rightarrow> mvcc_reader" where
  "mvcc_reader_new snapshot scan_mode =
     \<lparr>mr_snapshot = snapshot, mr_statistics = statistics_default, mr_data_cursor = None,
      mr_lock_cursor = None, mr_write_cursor = None, mr_lower_bound = None, mr_upper_bound = None,
      mr_scan_mode = scan_mode, mr_current_key = None, mr_term = 0, mr_version = 0,
      mr_allow_in_flashback = False\<rparr>"

text \<open>The context gives the term and the region version the request was routed with.\<close>

definition mvcc_reader_new_with_ctx :: "snapshot \<Rightarrow> scan_mode option \<Rightarrow> u64 \<Rightarrow> u64 \<Rightarrow> mvcc_reader" where
  "mvcc_reader_new_with_ctx snapshot scan_mode term version =
     (mvcc_reader_new snapshot scan_mode)\<lparr>mr_term := term, mr_version := version\<rparr>"

definition set_range :: "mvcc_reader \<Rightarrow> key option \<Rightarrow> key option \<Rightarrow> mvcc_reader" where
  "set_range r lower upper = r\<lparr>mr_lower_bound := lower, mr_upper_bound := upper\<rparr>"

definition set_allow_in_flashback :: "mvcc_reader \<Rightarrow> bool \<Rightarrow> mvcc_reader" where
  "set_allow_in_flashback r b = r\<lparr>mr_allow_in_flashback := b\<rparr>"

definition get_scan_mode :: "mvcc_reader \<Rightarrow> bool \<Rightarrow> scan_mode" where
  "get_scan_mode r allow_backward =
     (case mr_scan_mode r of
        Some Forward \<Rightarrow> Forward
      | Some Backward \<Rightarrow> if allow_backward then Backward else Mixed
      | _ \<Rightarrow> Mixed)"

definition create_cursor :: "mvcc_reader \<Rightarrow> cf_name \<Rightarrow> bool \<Rightarrow> (cursor, mvcc_error) result" where
  "create_cursor r cf prefix_seek =
     map_err MvKv (build_cursor (sn_engine (mr_snapshot r)) cf (get_scan_mode r True) prefix_seek
       (mr_lower_bound r) (mr_upper_bound r))"

definition create_data_cursor :: "mvcc_reader \<Rightarrow> (mvcc_reader, mvcc_error) result" where
  "create_data_cursor r =
     (if mr_data_cursor r = None
      then map_ok (\<lambda>c. r\<lparr>mr_data_cursor := Some c\<rparr>) (create_cursor r CF_DEFAULT False) else Ok r)"

definition create_write_cursor :: "mvcc_reader \<Rightarrow> (mvcc_reader, mvcc_error) result" where
  "create_write_cursor r =
     (if mr_write_cursor r = None
      then map_ok (\<lambda>c. r\<lparr>mr_write_cursor := Some c\<rparr>)
             (create_cursor r CF_WRITE (mr_scan_mode r = None)) else Ok r)"

definition create_lock_cursor_if_not_exist :: "mvcc_reader \<Rightarrow> (mvcc_reader, mvcc_error) result" where
  "create_lock_cursor_if_not_exist r =
     (if mr_lock_cursor r = None
      then map_ok (\<lambda>c. r\<lparr>mr_lock_cursor := Some c\<rparr>) (create_cursor r CF_LOCK False) else Ok r)"

text \<open>Calling a cursor operation on the cursor of the reader and the statistics of its column family.\<close>

definition on_write_cursor ::
  "mvcc_reader \<Rightarrow> (cs \<Rightarrow> ('a \<times> cs, kv_error) result) \<Rightarrow> ('a \<times> mvcc_reader, mvcc_error) result" where
  "on_write_cursor r f =
     and_then (unwrap (mr_write_cursor r)) (\<lambda>c.
       map_ok (\<lambda>(x, (c, st)). (x, r\<lparr>mr_write_cursor := Some c,
                                    mr_statistics := (mr_statistics r)\<lparr>ss_write := st\<rparr>\<rparr>))
         (map_err MvKv (f (c, ss_write (mr_statistics r)))))"

definition on_lock_cursor ::
  "mvcc_reader \<Rightarrow> (cs \<Rightarrow> ('a \<times> cs, kv_error) result) \<Rightarrow> ('a \<times> mvcc_reader, mvcc_error) result" where
  "on_lock_cursor r f =
     and_then (unwrap (mr_lock_cursor r)) (\<lambda>c.
       map_ok (\<lambda>(x, (c, st)). (x, r\<lparr>mr_lock_cursor := Some c,
                                    mr_statistics := (mr_statistics r)\<lparr>ss_lock := st\<rparr>\<rparr>))
         (map_err MvKv (f (c, ss_lock (mr_statistics r)))))"

definition on_data_cursor ::
  "mvcc_reader \<Rightarrow> (cs \<Rightarrow> ('a \<times> cs, kv_error) result) \<Rightarrow> ('a \<times> mvcc_reader, mvcc_error) result" where
  "on_data_cursor r f =
     and_then (unwrap (mr_data_cursor r)) (\<lambda>c.
       map_ok (\<lambda>(x, (c, st)). (x, r\<lparr>mr_data_cursor := Some c,
                                    mr_statistics := (mr_statistics r)\<lparr>ss_data := st\<rparr>\<rparr>))
         (map_err MvKv (f (c, ss_data (mr_statistics r)))))"

definition cursor_entry :: "cursor option \<Rightarrow> (key \<times> val, mvcc_error) result" where
  "cursor_entry co =
     and_then (unwrap co) (\<lambda>c.
     and_then (map_err MvKv (cursor_key c)) (\<lambda>k.
     map_ok (\<lambda>v. (k, v)) (map_err MvKv (cursor_value c))))"

subsection \<open>Values and locks\<close>

definition count_get :: "cf_statistics \<Rightarrow> cf_statistics" where
  "count_get st = st\<lparr>st_get := st_get st + 1\<rparr>"

definition count_processed :: "nat \<Rightarrow> cf_statistics \<Rightarrow> cf_statistics" where
  "count_processed n st = st\<lparr>st_processed_keys := st_processed_keys st + of_nat n\<rparr>"

definition on_data_stats :: "(cf_statistics \<Rightarrow> cf_statistics) \<Rightarrow> mvcc_reader \<Rightarrow> mvcc_reader" where
  "on_data_stats f r =
     r\<lparr>mr_statistics := (mr_statistics r)\<lparr>ss_data := f (ss_data (mr_statistics r))\<rparr>\<rparr>"

definition on_lock_stats :: "(cf_statistics \<Rightarrow> cf_statistics) \<Rightarrow> mvcc_reader \<Rightarrow> mvcc_reader" where
  "on_lock_stats f r =
     r\<lparr>mr_statistics := (mr_statistics r)\<lparr>ss_lock := f (ss_lock (mr_statistics r))\<rparr>\<rparr>"

definition on_write_stats :: "(cf_statistics \<Rightarrow> cf_statistics) \<Rightarrow> mvcc_reader \<Rightarrow> mvcc_reader" where
  "on_write_stats f r =
     r\<lparr>mr_statistics := (mr_statistics r)\<lparr>ss_write := f (ss_write (mr_statistics r))\<rparr>\<rparr>"

definition get_value ::
  "mvcc_reader \<Rightarrow> key \<Rightarrow> timestamp \<Rightarrow> (val option \<times> mvcc_reader, mvcc_error) result" where
  "get_value r key start_ts =
     and_then (if mr_scan_mode r \<noteq> None then create_data_cursor r else Ok r) (\<lambda>r.
     let k = append_ts key start_ts in
     and_then
       (if mr_data_cursor r \<noteq> None then on_data_cursor r (cursor_get k)
        else map_ok (\<lambda>v. (v, on_data_stats count_get r))
               (map_err MvKv (snapshot_get (sn_engine (mr_snapshot r)) k)))
       (\<lambda>(v, r). Ok (v, if v \<noteq> None then on_data_stats (count_processed 1) r else r)))"

definition load_data ::
  "mvcc_reader \<Rightarrow> key \<Rightarrow> write_record \<Rightarrow> (val \<times> mvcc_reader, mvcc_error) result" where
  "load_data r key w =
     assert_then (w_write_type w = WtPut)
       (case w_short_value w of
          Some v \<Rightarrow> Ok (v, r)
        | None \<Rightarrow>
            and_then (get_value r key (w_start_ts w)) (\<lambda>(v, r).
              case v of
                Some v \<Rightarrow> Ok (v, r)
              | None \<Rightarrow> Err (default_not_found_error (append_ts key (w_start_ts w)))))"

definition check_term_version_status ::
  "mvcc_reader \<Rightarrow> peer_pessimistic_locks \<Rightarrow> (unit, mvcc_error) result" where
  "check_term_version_status r locks =
     (if mr_term r \<noteq> 0 \<and> pl_term locks \<noteq> mr_term r then Err (MvKv (KvRequest StaleCommand))
      else if mr_version r \<noteq> 0 \<and> pl_version locks \<noteq> mr_version r
      then Err (MvKv (KvRequest EpochNotMatch))
      else if pl_status locks = LsIsInFlashback \<and> \<not> mr_allow_in_flashback r
      then Err (MvKv (KvRequest FlashbackInProgress))
      else Ok ())"

definition load_in_memory_pessimistic_lock ::
  "mvcc_reader \<Rightarrow> key \<Rightarrow> (lock option, mvcc_error) result" where
  "load_in_memory_pessimistic_lock r key =
     (case sn_txn_ext (mr_snapshot r) of
        Some locks \<Rightarrow>
          and_then (check_term_version_status r locks) (\<lambda>_.
            Ok (map_option (\<lambda>(l, _). to_lock l) (ppl_get locks key)))
      | None \<Rightarrow> Ok None)"

definition parse_lock_opt :: "val option \<Rightarrow> (lock option, mvcc_error) result" where
  "parse_lock_opt v =
     (case v of
        Some v \<Rightarrow> map_ok Some (map_err mvcc_from_txn_types (lock_parse v))
      | None \<Rightarrow> Ok None)"

definition load_lock ::
  "mvcc_reader \<Rightarrow> key \<Rightarrow> (lock option \<times> mvcc_reader, mvcc_error) result" where
  "load_lock r key =
     and_then (load_in_memory_pessimistic_lock r key) (\<lambda>in_memory.
     if in_memory \<noteq> None then Ok (in_memory, r)
     else
       and_then (if mr_scan_mode r \<noteq> None then create_lock_cursor_if_not_exist r else Ok r) (\<lambda>r.
       and_then
         (if mr_lock_cursor r \<noteq> None then on_lock_cursor r (cursor_get key)
          else map_ok (\<lambda>v. (v, on_lock_stats count_get r))
                 (map_err MvKv (snapshot_get_cf (sn_engine (mr_snapshot r)) CF_LOCK key)))
         (\<lambda>(v, r). map_ok (\<lambda>l. (l, r)) (parse_lock_opt v))))"

subsection \<open>Versions\<close>

text \<open>
  The loops below follow a cursor over a finite column family. They carry a counter of the
  iterations that are left, started above the number of entries; running out of it is \<open>Panic\<close>, and the
  theorems show that it does not happen.
\<close>

definition seek_write ::
  "mvcc_reader \<Rightarrow> key \<Rightarrow> timestamp \<Rightarrow> ((timestamp \<times> write_record) option \<times> mvcc_reader, mvcc_error) result" where
  "seek_write r key ts =
     (let r = (if mr_scan_mode r = None \<and> mr_current_key r \<noteq> Some key
               then r\<lparr>mr_current_key := Some key, mr_write_cursor := None\<rparr> else r) in
      and_then (create_write_cursor r) (\<lambda>r.
      and_then (on_write_cursor r (near_seek (append_ts key ts))) (\<lambda>(found, r).
      if \<not> found then Ok (None, r)
      else
        and_then (cursor_entry (mr_write_cursor r)) (\<lambda>(write_key, v).
        and_then (map_err MvCodec (decode_ts_from write_key)) (\<lambda>commit_ts.
        if \<not> is_user_key_eq write_key key then Ok (None, r)
        else
          and_then (map_err mvcc_from_txn_types (write_parse v)) (\<lambda>w.
          Ok (Some (commit_ts, w), r)))))))"

definition write_fuel :: "mvcc_reader \<Rightarrow> nat" where
  "write_fuel r = length (engine_tree (sn_engine (mr_snapshot r)) CF_WRITE) + 3"

text \<open>The version a lock or rollback record points to, when it is worth a point lookup.\<close>

definition far_last_change :: "write_record \<Rightarrow> timestamp option" where
  "far_last_change w =
     (case w_last_change w of
        LcExist last_change_ts estimated \<Rightarrow>
          if SEEK_BOUND \<le> unat estimated then Some last_change_ts else None
      | _ \<Rightarrow> None)"

definition fenced :: "timestamp option \<Rightarrow> write_record \<Rightarrow> bool" where
  "fenced limit w =
     (case limit of Some l \<Rightarrow> \<not> check_gc_fence_as_latest_version w l | None \<Rightarrow> False)"

fun get_write_loop ::
  "nat \<Rightarrow> mvcc_reader \<Rightarrow> key \<Rightarrow> timestamp \<Rightarrow> timestamp option \<Rightarrow> (timestamp \<times> write_record) option \<Rightarrow>
     ((write_record \<times> timestamp) option \<times> mvcc_reader, mvcc_error) result" where
  "get_write_loop 0 r key ts limit seek_res = Panic"
| "get_write_loop (Suc n) r key ts limit seek_res =
     (case seek_res of
        None \<Rightarrow> Ok (None, r)
      | Some (commit_ts, w) \<Rightarrow>
          if fenced limit w then Ok (None, r)
          else if w_write_type w = WtPut then Ok (Some (w, commit_ts), r)
          else if w_write_type w = WtDelete then Ok (None, r)
          else if w_last_change w = LcNotExist then Ok (None, r)
          else
            (case far_last_change w of
               Some last_change_ts \<Rightarrow>
                 and_then (map_err MvKv (snapshot_get_cf (sn_engine (mr_snapshot r)) CF_WRITE
                   (append_ts key last_change_ts))) (\<lambda>v.
                 case v of
                   None \<Rightarrow> Ok (None, r)
                 | Some v \<Rightarrow>
                     let r = on_write_stats count_get r in
                     and_then (map_err mvcc_from_txn_types (write_parse v)) (\<lambda>w.
                     assert_then (w_write_type w = WtPut \<or> w_write_type w = WtDelete)
                       (get_write_loop n r key ts limit (Some (last_change_ts, w)))))
             | None \<Rightarrow>
                 if ts_is_zero ts then Ok (None, r)
                 else
                   and_then (ts_prev commit_ts) (\<lambda>ts.
                   and_then (seek_write r key ts) (\<lambda>(seek_res, r).
                   get_write_loop n r key ts limit seek_res))))"

definition get_write_with_commit_ts ::
  "mvcc_reader \<Rightarrow> key \<Rightarrow> timestamp \<Rightarrow> timestamp option \<Rightarrow>
     ((write_record \<times> timestamp) option \<times> mvcc_reader, mvcc_error) result" where
  "get_write_with_commit_ts r key ts limit =
     and_then (seek_write r key ts) (\<lambda>(seek_res, r).
     get_write_loop (write_fuel r) r key ts limit seek_res)"

definition get_write ::
  "mvcc_reader \<Rightarrow> key \<Rightarrow> timestamp \<Rightarrow> timestamp option \<Rightarrow>
     (write_record option \<times> mvcc_reader, mvcc_error) result" where
  "get_write r key ts limit =
     map_ok (\<lambda>(res, r). (map_option fst res, r)) (get_write_with_commit_ts r key ts limit)"

definition reader_get ::
  "mvcc_reader \<Rightarrow> key \<Rightarrow> timestamp \<Rightarrow> timestamp option \<Rightarrow>
     (val option \<times> mvcc_reader, mvcc_error) result" where
  "reader_get r key ts limit =
     and_then (get_write r key ts limit) (\<lambda>(w, r).
       case w of
         Some w \<Rightarrow> map_ok (\<lambda>(v, r). (Some v, r)) (load_data r key w)
       | None \<Rightarrow> Ok (None, r))"

fun commit_record_loop ::
  "nat \<Rightarrow> mvcc_reader \<Rightarrow> key \<Rightarrow> timestamp \<Rightarrow> timestamp \<Rightarrow> timestamp \<Rightarrow>
     (txn_commit_record \<times> mvcc_reader, mvcc_error) result" where
  "commit_record_loop 0 r key start_ts seek_ts gc_fence = Panic"
| "commit_record_loop (Suc n) r key start_ts seek_ts gc_fence =
     and_then (seek_write r key seek_ts) (\<lambda>(res, r).
       case res of
         None \<Rightarrow> Ok (RecordNone None, r)
       | Some (commit_ts, w) \<Rightarrow>
           if w_start_ts w = start_ts then Ok (SingleRecord commit_ts w, r)
           else if commit_ts = start_ts
           then
             if w_has_overlapped_rollback w then Ok (OverlappedRollback commit_ts, r)
             else Ok (RecordNone (Some \<lparr>ow_write = w, ow_gc_fence = gc_fence\<rparr>), r)
           else
             let gc_fence =
                   (if w_write_type w = WtPut \<or> w_write_type w = WtDelete then commit_ts else gc_fence) in
             if commit_ts < start_ts then Ok (RecordNone None, r)
             else
               and_then (ts_prev commit_ts) (\<lambda>seek_ts.
               commit_record_loop n r key start_ts seek_ts gc_fence))"

definition get_txn_commit_record ::
  "mvcc_reader \<Rightarrow> key \<Rightarrow> timestamp \<Rightarrow> (txn_commit_record \<times> mvcc_reader, mvcc_error) result" where
  "get_txn_commit_record r key start_ts =
     commit_record_loop (write_fuel r) r key start_ts ts_max 0"

definition old_value_of :: "write_record \<Rightarrow> old_value" where
  "old_value_of w = (case w_short_value w of Some v \<Rightarrow> OvValue v | None \<Rightarrow> OvValueTimeStamp (w_start_ts w))"

definition get_old_value ::
  "mvcc_reader \<Rightarrow> key \<Rightarrow> timestamp \<Rightarrow> bool \<Rightarrow> write_record option \<Rightarrow>
     (old_value \<times> mvcc_reader, mvcc_error) result" where
  "get_old_value r key start_ts prev_write_loaded prev_write =
     (let by_read = map_ok (\<lambda>(w, r). (case w of Some w \<Rightarrow> old_value_of w | None \<Rightarrow> OvNone, r))
                      (get_write r key start_ts (Some start_ts)) in
      if prev_write_loaded \<and> prev_write = None then Ok (OvNone, r)
      else
        (case prev_write of
           Some w \<Rightarrow>
             if \<not> check_gc_fence_as_latest_version w start_ts then Ok (OvNone, r)
             else if w_write_type w = WtPut then Ok (old_value_of w, r)
             else if w_write_type w = WtDelete then Ok (OvNone, r)
             else by_read
         | None \<Rightarrow> by_read))"

subsection \<open>The version list of a key\<close>

text \<open>
  What the write column family says about a user key: its commit records, newest first. The store
  is well formed when its keys are encoded user keys with a timestamp and its values are write
  records.
\<close>

definition version_of :: "key \<times> val \<Rightarrow> (timestamp \<times> write_record) option" where
  "version_of e =
     (case decode_ts_from (fst e) of
        Ok ts \<Rightarrow> (case write_parse (snd e) of Ok w \<Rightarrow> Some (ts, w) | _ \<Rightarrow> None)
      | _ \<Rightarrow> None)"

definition versions_in :: "tree \<Rightarrow> key \<Rightarrow> (timestamp \<times> write_record) list" where
  "versions_in t key = List.map_filter version_of (filter (\<lambda>e. is_user_key_eq (fst e) key) t)"

definition versions :: "btree_engine \<Rightarrow> key \<Rightarrow> (timestamp \<times> write_record) list" where
  "versions e key = versions_in (engine_tree e CF_WRITE) key"

definition write_entry_ok :: "key \<times> val \<Rightarrow> bool" where
  "write_entry_ok e \<longleftrightarrow>
     (\<exists>raw ts w. e = (append_ts (from_raw raw) ts, write_to_bytes w) \<and> write_wf w)"

definition write_tree_ok :: "tree \<Rightarrow> bool" where
  "write_tree_ok t \<longleftrightarrow> tree_wf t \<and> (\<forall>e\<in>set t. write_entry_ok e)"

definition latest :: "(timestamp \<times> write_record) list \<Rightarrow> timestamp \<Rightarrow> (timestamp \<times> write_record) option" where
  "latest vs ts = find (\<lambda>(c, w). c \<le> ts) vs"

definition newest_first :: "(timestamp \<times> write_record) list \<Rightarrow> bool" where
  "newest_first vs \<longleftrightarrow> sorted_wrt (\<lambda>a b. fst b < fst a) vs"

lemma version_of_entry [simp]:
  "write_wf w \<Longrightarrow> version_of (append_ts key ts, write_to_bytes w) = Some (ts, w)"
  by (simp add: version_of_def write_parse_to_bytes)

lemma set_versions_in:
  assumes "write_tree_ok t"
  shows "(c, w) \<in> set (versions_in t key) \<longleftrightarrow> (append_ts key c, write_to_bytes w) \<in> set t \<and> write_wf w"
proof
  assume "(c, w) \<in> set (versions_in t key)"
  then obtain e where e: "e \<in> set t" "is_user_key_eq (fst e) key" "version_of e = Some (c, w)"
    by (auto simp: versions_in_def map_filter_def split: option.splits)
  then obtain raw ts w' where w': "e = (append_ts (from_raw raw) ts, write_to_bytes w')" "write_wf w'"
    using assms by (auto simp: write_tree_ok_def write_entry_ok_def)
  then show "(append_ts key c, write_to_bytes w) \<in> set t \<and> write_wf w"
    using e by auto
next
  assume "(append_ts key c, write_to_bytes w) \<in> set t \<and> write_wf w"
  then show "(c, w) \<in> set (versions_in t key)"
    by (force simp: versions_in_def map_filter_def)
qed

lemma versions_in_simps [simp]:
  "versions_in [] key = []"
  "versions_in (e # t) key =
     (case version_of e of
        Some v \<Rightarrow> if is_user_key_eq (fst e) key then v # versions_in t key else versions_in t key
      | None \<Rightarrow> versions_in t key)"
  by (auto simp: versions_in_def map_filter_def split: option.splits)

lemma newest_first_simps [simp]:
  "newest_first []" "newest_first (v # vs) \<longleftrightarrow> (\<forall>x\<in>set vs. fst x < fst v) \<and> newest_first vs"
  by (auto simp: newest_first_def)

lemma newest_first_distinct: "newest_first vs \<Longrightarrow> distinct (map fst vs)"
  by (induction vs) auto

lemma newest_first_versions_in:
  assumes "write_tree_ok t"
  shows "newest_first (versions_in t key)"
  using assms
proof (induction t)
  case (Cons e t)
  then have ok: "write_tree_ok t" by (simp add: write_tree_ok_def)
  obtain raw ts w where e: "e = (append_ts (from_raw raw) ts, write_to_bytes w)" "write_wf w"
    using Cons.prems by (auto simp: write_tree_ok_def write_entry_ok_def)
  have "fst x < ts" if x: "x \<in> set (versions_in t key)" "from_raw raw = key" for x
  proof -
    have "(append_ts key (fst x), write_to_bytes (snd x)) \<in> set t"
      using set_versions_in [OF ok, of "fst x" "snd x" key] x(1) by simp
    then have "append_ts key ts < append_ts key (fst x)"
      using Cons.prems e x(2) by (auto simp: write_tree_ok_def)
    then show ?thesis by simp
  qed
  then show ?case using Cons.IH [OF ok] e by simp
qed simp

lemma latest_simps [simp]:
  "latest [] ts = None" "latest (v # vs) ts = (if fst v \<le> ts then Some v else latest vs ts)"
  by (cases v; simp add: latest_def)+

lemma latest_Some:
  assumes "newest_first vs"
  shows "latest vs ts = Some v \<longleftrightarrow>
    v \<in> set vs \<and> fst v \<le> ts \<and> (\<forall>x\<in>set vs. fst x \<le> ts \<longrightarrow> fst x \<le> fst v)"
  using assms
proof (induction vs)
  case (Cons x vs)
  then show ?case by (cases "fst x \<le> ts") (auto dest: less_le_not_le [THEN iffD1])
qed simp

lemma latest_None: "latest vs ts = None \<longleftrightarrow> (\<forall>v\<in>set vs. ts < fst v)"
  by (induction vs) (auto simp: not_le)

lemma first_ge_latest:
  fixes raw :: bytes
  assumes "write_tree_ok t"
  defines "key \<equiv> from_raw raw"
  shows "(case first_ge t (append_ts key ts) of
      Some e \<Rightarrow> if is_user_key_eq (fst e) key then version_of e else None
    | None \<Rightarrow> None) = latest (versions_in t key) ts"
proof (cases "latest (versions_in t key) ts")
  case (Some v)
  obtain c w where v: "v = (c, w)" by (cases v)
  note nf = newest_first_versions_in [OF assms(1), of key]
  have l: "(c, w) \<in> set (versions_in t key)" "c \<le> ts"
    "\<forall>x\<in>set (versions_in t key). fst x \<le> ts \<longrightarrow> fst x \<le> c"
    using Some latest_Some [OF nf] v by auto
  then have mem: "(append_ts key c, write_to_bytes w) \<in> set t" "write_wf w"
    using set_versions_in [OF assms(1)] by auto
  have "append_ts key c \<le> fst x" if x: "x \<in> set t" "append_ts key ts \<le> fst x" for x
  proof -
    obtain raw' ts' w' where x': "x = (append_ts (from_raw raw') ts', write_to_bytes w')" "write_wf w'"
      using assms(1) x(1) by (auto simp: write_tree_ok_def write_entry_ok_def)
    show ?thesis
    proof (cases "raw' = raw")
      case True
      then have "(ts', w') \<in> set (versions_in t key)"
        using set_versions_in [OF assms(1)] x(1) x' by (simp add: key_def)
      then show ?thesis using l(3) x(2) x' True by (force simp: key_def)
    next
      case False
      then show ?thesis
        using x(2) x' by (auto simp: key_def le_less append_ts_from_raw_less)
    qed
  qed
  moreover have "tree_wf t" using assms(1) by (simp add: write_tree_ok_def)
  ultimately have "first_ge t (append_ts key ts) = Some (append_ts key c, write_to_bytes w)"
    using mem l(2) by (simp add: first_ge_Some)
  then show ?thesis using Some v mem(2) by simp
next
  case None
  have "version_of e = None" if e: "first_ge t (append_ts key ts) = Some e" "is_user_key_eq (fst e) key" for e
  proof (rule ccontr)
    assume "version_of e \<noteq> None"
    have "e \<in> set t" using e(1) by (rule pos_mem)
    then obtain raw' c w where x: "e = (append_ts (from_raw raw') c, write_to_bytes w)" "write_wf w"
      using assms(1) by (auto simp: write_tree_ok_def write_entry_ok_def)
    then have "(c, w) \<in> set (versions_in t key)"
      using \<open>e \<in> set t\<close> e(2) set_versions_in [OF assms(1)] by simp
    then have "ts < c" using None latest_None by fastforce
    moreover have "append_ts key ts \<le> fst e"
      using e(1) assms(1) by (simp add: first_ge_Some write_tree_ok_def)
    ultimately show False using x e(2) by simp
  qed
  then show ?thesis using None by (auto split: option.splits)
qed

subsection \<open>The invariant of a reader\<close>

text \<open>
  A reader in mixed mode without bounds, as the transaction commands use it: the engine is well
  formed and has the three column families, and every cursor that was created is a valid cursor on
  its column family. The methods keep the snapshot and the identity of the request.
\<close>

definition cursor_fits :: "btree_engine \<Rightarrow> cf_name \<Rightarrow> cursor option \<Rightarrow> bool" where
  "cursor_fits e cf co \<longleftrightarrow>
     (case co of
        None \<Rightarrow> True
      | Some c \<Rightarrow> mixed_ok (c, cf_statistics_default) \<and>
          cur_tree (c, cf_statistics_default) = engine_tree e cf)"

definition reader_ok :: "mvcc_reader \<Rightarrow> bool" where
  "reader_ok r \<longleftrightarrow>
     (let e = sn_engine (mr_snapshot r) in
      engine_wf e \<and> set DATA_CFS \<subseteq> set (be_cf_names e) \<and> write_tree_ok (engine_tree e CF_WRITE) \<and>
      mr_lower_bound r = None \<and> mr_upper_bound r = None \<and>
      (mr_scan_mode r = None \<or> mr_scan_mode r = Some Mixed) \<and>
      cursor_fits e CF_DEFAULT (mr_data_cursor r) \<and> cursor_fits e CF_LOCK (mr_lock_cursor r) \<and>
      cursor_fits e CF_WRITE (mr_write_cursor r))"

definition same_request :: "mvcc_reader \<Rightarrow> mvcc_reader \<Rightarrow> bool" where
  "same_request r r' \<longleftrightarrow>
     mr_snapshot r' = mr_snapshot r \<and> mr_term r' = mr_term r \<and> mr_version r' = mr_version r \<and>
     mr_allow_in_flashback r' = mr_allow_in_flashback r"

abbreviation reader_engine :: "mvcc_reader \<Rightarrow> btree_engine" where
  "reader_engine r \<equiv> sn_engine (mr_snapshot r)"

lemma same_request_refl [simp]: "same_request r r"
  by (simp add: same_request_def)

lemma same_request_trans: "same_request r r' \<Longrightarrow> same_request r' r'' \<Longrightarrow> same_request r r''"
  by (simp add: same_request_def)

lemma same_request_engine: "same_request r r' \<Longrightarrow> reader_engine r' = reader_engine r"
  by (simp add: same_request_def)

lemma mixed_ok_stats: "mixed_ok (c, st) \<longleftrightarrow> mixed_ok (c, cf_statistics_default)"
  by (simp add: mixed_ok_def cursor_ok_def cur_tree_def)

lemma cur_tree_stats: "cur_tree (c, st) = cur_tree (c, cf_statistics_default)"
  by (simp add: cur_tree_def)

lemma cursor_fits_Some:
  "cursor_fits e cf (Some c) \<longleftrightarrow> mixed_ok (c, st) \<and> cur_tree (c, st) = engine_tree e cf"
  using mixed_ok_stats [of c st] cur_tree_stats [of c st] by (simp add: cursor_fits_def)

lemma cursor_fits_None [simp]: "cursor_fits e cf None"
  by (simp add: cursor_fits_def)

lemma reader_ok_tree: "reader_ok r \<Longrightarrow> write_tree_ok (engine_tree (reader_engine r) CF_WRITE)"
  by (simp add: reader_ok_def Let_def)

lemma reader_ok_cf:
  assumes "reader_ok r" "cf \<in> set DATA_CFS"
  shows "engine_wf (reader_engine r)" "cf \<in> set (be_cf_names (reader_engine r))"
  using assms by (auto simp: reader_ok_def Let_def)

lemma DATA_CFS_mem [simp]:
  "CF_DEFAULT \<in> set DATA_CFS" "CF_LOCK \<in> set DATA_CFS" "CF_WRITE \<in> set DATA_CFS"
  by (simp_all add: DATA_CFS_def)

lemma create_cursor_eq:
  assumes "reader_ok r" "cf \<in> set DATA_CFS"
  shows "\<exists>c. create_cursor r cf prefix = Ok c \<and> cursor_fits (reader_engine r) cf (Some c)"
proof -
  have m: "get_scan_mode r True = Mixed" "mr_lower_bound r = None" "mr_upper_bound r = None"
    using assms(1) by (auto simp: reader_ok_def get_scan_mode_def Let_def)
  obtain c where "build_cursor (reader_engine r) cf Mixed prefix None None = Ok c"
    "mixed_ok (c, cf_statistics_default)" "cur_tree (c, cf_statistics_default) = engine_tree (reader_engine r) cf"
    using mixed_ok_build [OF reader_ok_cf [OF assms], of prefix cf_statistics_default] by blast
  then show ?thesis using m by (simp add: create_cursor_def cursor_fits_def)
qed

lemma create_write_cursor_eq:
  assumes "reader_ok r"
  shows "\<exists>r' c. create_write_cursor r = Ok r' \<and> reader_ok r' \<and> same_request r r' \<and>
    mr_write_cursor r' = Some c"
  using create_cursor_eq [OF assms, of CF_WRITE "mr_scan_mode r = None"] assms
  by (cases "mr_write_cursor r")
    (auto simp: create_write_cursor_def reader_ok_def same_request_def Let_def)

lemma create_lock_cursor_eq:
  assumes "reader_ok r"
  shows "\<exists>r' c. create_lock_cursor_if_not_exist r = Ok r' \<and> reader_ok r' \<and> same_request r r' \<and>
    mr_lock_cursor r' = Some c"
  using create_cursor_eq [OF assms, of CF_LOCK False] assms
  by (cases "mr_lock_cursor r")
    (auto simp: create_lock_cursor_if_not_exist_def reader_ok_def same_request_def Let_def)

lemma create_data_cursor_eq:
  assumes "reader_ok r"
  shows "\<exists>r' c. create_data_cursor r = Ok r' \<and> reader_ok r' \<and> same_request r r' \<and>
    mr_data_cursor r' = Some c"
  using create_cursor_eq [OF assms, of CF_DEFAULT False] assms
  by (cases "mr_data_cursor r")
    (auto simp: create_data_cursor_def reader_ok_def same_request_def Let_def)

lemma near_seek_write:
  fixes k :: key
  assumes "reader_ok r" "mr_write_cursor r = Some c"
  defines "p \<equiv> first_ge (engine_tree (reader_engine r) CF_WRITE) k"
  shows "\<exists>r'. on_write_cursor r (near_seek k) = Ok (p \<noteq> None, r') \<and> reader_ok r' \<and> same_request r r' \<and>
    (\<forall>e. p = Some e \<longrightarrow> cursor_entry (mr_write_cursor r') = Ok e)"
proof -
  let ?st = "ss_write (mr_statistics r)"
  have c: "mixed_ok (c, ?st)" "cur_tree (c, ?st) = engine_tree (reader_engine r) CF_WRITE"
    using assms cursor_fits_Some [of _ _ c ?st] by (auto simp: reader_ok_def Let_def)
  obtain c' st' where c': "near_seek k (c, ?st) = Ok (p \<noteq> None, (c', st'))" "mixed_ok (c', st')"
    "cur_tree (c', st') = engine_tree (reader_engine r) CF_WRITE" "p \<noteq> None \<longrightarrow> cur_pos (c', st') = p"
    using seeked_near_seek [OF c(1) refl, of k] c(2) unfolding seeked_def p_def by (metis prod.exhaust)
  let ?r = "r\<lparr>mr_write_cursor := Some c', mr_statistics := (mr_statistics r)\<lparr>ss_write := st'\<rparr>\<rparr>"
  have "on_write_cursor r (near_seek k) = Ok (p \<noteq> None, ?r)"
    using assms(2) c'(1) by (simp add: on_write_cursor_def)
  moreover have "reader_ok ?r" "same_request r ?r"
    using assms(1) c'(2,3) cursor_fits_Some [of "reader_engine r" CF_WRITE c' st']
    by (auto simp: reader_ok_def same_request_def Let_def)
  moreover have "cursor_entry (Some c') = Ok e" if "p = Some e" for e
    using c'(4) that cursor_key_at [of "(c', st')" "fst e" "snd e"]
      cursor_value_at [of "(c', st')" "fst e" "snd e"] by (simp add: cursor_entry_def)
  ultimately show ?thesis by (intro exI [of _ ?r]) simp
qed

lemma seek_write_eq:
  assumes "reader_ok r"
  shows "\<exists>r'. seek_write r (from_raw raw) ts = Ok (latest (versions (reader_engine r) (from_raw raw)) ts, r') \<and>
    reader_ok r' \<and> same_request r r'"
proof -
  let ?key = "from_raw raw" and ?t = "engine_tree (reader_engine r) CF_WRITE"
  let ?r = "if mr_scan_mode r = None \<and> mr_current_key r \<noteq> Some ?key
    then r\<lparr>mr_current_key := Some ?key, mr_write_cursor := None\<rparr> else r"
  have "reader_ok ?r" "same_request r ?r"
    using assms by (auto simp: reader_ok_def same_request_def Let_def)
  then obtain r1 c where r1: "create_write_cursor ?r = Ok r1" "reader_ok r1" "same_request r r1"
    "mr_write_cursor r1 = Some c"
    using create_write_cursor_eq [of ?r] same_request_trans by blast
  obtain r2 where r2: "on_write_cursor r1 (near_seek (append_ts ?key ts)) =
      Ok (first_ge ?t (append_ts ?key ts) \<noteq> None, r2)" "reader_ok r2" "same_request r r2"
    "\<forall>e. first_ge ?t (append_ts ?key ts) = Some e \<longrightarrow> cursor_entry (mr_write_cursor r2) = Ok e"
    using near_seek_write [OF r1(2,4), of "append_ts ?key ts"] r1(3) same_request_engine [OF r1(3)]
      same_request_trans by (metis (no_types, lifting))
  have latest: "latest (versions (reader_engine r) ?key) ts =
    (case first_ge ?t (append_ts ?key ts) of
       Some e \<Rightarrow> if is_user_key_eq (fst e) ?key then version_of e else None | None \<Rightarrow> None)"
    using first_ge_latest [OF reader_ok_tree [OF assms], of raw ts] by (simp add: versions_def)
  have "seek_write r ?key ts = Ok (latest (versions (reader_engine r) ?key) ts, r2)"
  proof (cases "first_ge ?t (append_ts ?key ts)")
    case None
    then show ?thesis using r1(1) r2(1) latest by (simp add: seek_write_def Let_def)
  next
    case (Some e)
    then have "e \<in> set ?t" by (rule pos_mem)
    then obtain raw' c' w where e: "e = (append_ts (from_raw raw') c', write_to_bytes w)" "write_wf w"
      using reader_ok_tree [OF assms] by (auto simp: write_tree_ok_def write_entry_ok_def)
    then show ?thesis
      using Some r1(1) r2(1,4) latest
      by (simp add: seek_write_def Let_def write_parse_to_bytes)
  qed
  then show ?thesis using r2(2,3) by blast
qed

subsection \<open>The latest change of a key\<close>

text \<open>
  The specification of a read: the latest put or delete at or below the read timestamp, which is
  visible when it is a put that no GC fence hides. Lock and rollback records may point to the change
  below them; the pointers are right when they name the latest change below the record, or say that
  there is none.
\<close>

definition is_change :: "write_record \<Rightarrow> bool" where
  "is_change w \<longleftrightarrow> w_write_type w = WtPut \<or> w_write_type w = WtDelete"

definition change_at :: "(timestamp \<times> write_record) list \<Rightarrow> timestamp \<Rightarrow> (timestamp \<times> write_record) option" where
  "change_at vs ts = find (\<lambda>v. fst v \<le> ts \<and> is_change (snd v)) vs"

definition visible ::
  "(timestamp \<times> write_record) list \<Rightarrow> timestamp \<Rightarrow> timestamp option \<Rightarrow> (write_record \<times> timestamp) option" where
  "visible vs ts limit =
     (case change_at vs ts of
        Some (c, w) \<Rightarrow> if w_write_type w = WtPut \<and> \<not> fenced limit w then Some (w, c) else None
      | None \<Rightarrow> None)"

text \<open>
  A pointer is right when it leads where the plain search does. A lock or rollback record that a GC fence hides would end the
  search of the code with nothing; such records are excluded here.
\<close>

definition pointer_ok :: "(timestamp \<times> write_record) list \<Rightarrow> timestamp option \<Rightarrow> timestamp \<times> write_record \<Rightarrow> bool" where
  "pointer_ok vs limit v \<longleftrightarrow>
     0 < fst v \<and>
     (is_change (snd v) \<or>
      \<not> fenced limit (snd v) \<and>
      (w_last_change (snd v) = LcNotExist \<longrightarrow>
         (case change_at vs (fst v - 1) of None \<Rightarrow> True | Some (_, w) \<Rightarrow> w_write_type w = WtDelete)) \<and>
      (case far_last_change (snd v) of
         None \<Rightarrow> True
       | Some lts \<Rightarrow>
           lts < fst v \<and>
           (case change_at vs (fst v - 1) of
              Some (c, _) \<Rightarrow> c = lts
            | None \<Rightarrow> map_of vs lts = None)))"

definition pointers_ok :: "(timestamp \<times> write_record) list \<Rightarrow> timestamp option \<Rightarrow> bool" where
  "pointers_ok vs limit \<longleftrightarrow> list_all (pointer_ok vs limit) vs"

lemma change_at_latest:
  assumes "newest_first vs" "latest vs ts = Some v"
  shows "is_change (snd v) \<Longrightarrow> change_at vs ts = Some v"
    and "\<not> is_change (snd v) \<Longrightarrow> 0 < fst v \<Longrightarrow> change_at vs ts = change_at vs (fst v - 1)"
proof -
  have v: "v \<in> set vs" "fst v \<le> ts" "\<forall>x\<in>set vs. fst x \<le> ts \<longrightarrow> fst x \<le> fst v"
    using assms latest_Some by auto
  show "change_at vs ts = Some v" if "is_change (snd v)"
    using assms that by (induction vs) (auto simp: change_at_def split: if_splits)
  have same: "x = v" if "x \<in> set vs" "fst x = fst v" for x
    using assms(1) v(1) that by (induction vs) auto
  show "change_at vs ts = change_at vs (fst v - 1)" if n: "\<not> is_change (snd v)" "0 < fst v"
    unfolding change_at_def
  proof (intro find_cong refl)
    fix x assume x: "x \<in> set vs"
    have prev: "fst x \<le> fst v - 1 \<longleftrightarrow> fst x < fst v" by (rule ts_le_prev_iff [OF n(2)])
    have "fst x \<le> ts \<longleftrightarrow> fst x < fst v" if "fst x \<noteq> fst v"
    proof
      show "fst x < fst v" if "fst x \<le> ts" using v(3) x that \<open>fst x \<noteq> fst v\<close> by auto
      show "fst x \<le> ts" if "fst x < fst v" using v(2) that by simp
    qed
    then show "(fst x \<le> ts \<and> is_change (snd x)) = (fst x \<le> fst v - 1 \<and> is_change (snd x))"
      unfolding prev using same [OF x] n(1) by (cases "fst x = fst v") auto
  qed
qed

lemma change_at_SomeD: "change_at vs ts = Some v \<Longrightarrow> v \<in> set vs \<and> fst v \<le> ts \<and> is_change (snd v)"
  unfolding change_at_def by (induction vs) (auto split: if_splits)

lemma change_at_None_latest: "latest vs ts = None \<Longrightarrow> change_at vs ts = None"
  by (auto simp: latest_None change_at_def find_None_iff not_le)

lemma map_of_versions:
  assumes "write_tree_ok t"
  shows "map_of (versions_in t key) ts =
    (case btree_get t (append_ts key ts) of
       None \<Rightarrow> None | Some v \<Rightarrow> (case write_parse v of Ok w \<Rightarrow> Some w | _ \<Rightarrow> None))"
    and "btree_get t (append_ts key ts) = Some v \<Longrightarrow> \<exists>w. write_parse v = Ok w"
proof -
  have wf: "tree_wf t" using assms by (simp add: write_tree_ok_def)
  have d: "distinct (map fst (versions_in t key))"
    by (rule newest_first_distinct [OF newest_first_versions_in [OF assms]])
  have entry: "\<exists>w. v = write_to_bytes w \<and> write_wf w" if "(append_ts key ts, v) \<in> set t" for v
    using that assms by (auto simp: write_tree_ok_def write_entry_ok_def)
  show "btree_get t (append_ts key ts) = Some v \<Longrightarrow> \<exists>w. write_parse v = Ok w"
    using entry [of v] btree_get_eq_Some [OF wf] write_parse_to_bytes by auto
  show "map_of (versions_in t key) ts = (case btree_get t (append_ts key ts) of
       None \<Rightarrow> None | Some v \<Rightarrow> (case write_parse v of Ok w \<Rightarrow> Some w | _ \<Rightarrow> None))"
  proof (rule option_eqI)
    fix w
    have "map_of (versions_in t key) ts = Some w \<longleftrightarrow>
        (append_ts key ts, write_to_bytes w) \<in> set t \<and> write_wf w"
      using d set_versions_in [OF assms, of ts w key] by simp
    also have "\<dots> \<longleftrightarrow> (case btree_get t (append_ts key ts) of
       None \<Rightarrow> None | Some v \<Rightarrow> (case write_parse v of Ok w \<Rightarrow> Some w | _ \<Rightarrow> None)) = Some w"
    proof (cases "btree_get t (append_ts key ts)")
      case None
      then show ?thesis using btree_get_eq_Some [OF wf, of "append_ts key ts"] by simp
    next
      case (Some v)
      then have mem: "(append_ts key ts, v') \<in> set t \<longleftrightarrow> v' = v" for v'
        using btree_get_eq_Some [OF wf, of "append_ts key ts" v'] by auto
      then obtain w' where w': "v = write_to_bytes w'" "write_wf w'" using entry by blast
      then have "write_to_bytes w = v \<and> write_wf w \<longleftrightarrow> w' = w"
        by (metis result.inject(1) write_parse_to_bytes)
      then show ?thesis using Some mem w' by (simp add: write_parse_to_bytes)
    qed
    finally show "map_of (versions_in t key) ts = Some w \<longleftrightarrow> (case btree_get t (append_ts key ts) of
       None \<Rightarrow> None | Some v \<Rightarrow> (case write_parse v of Ok w \<Rightarrow> Some w | _ \<Rightarrow> None)) = Some w" .
  qed
qed

lemma latest_dropWhile:
  "latest vs ts = (case dropWhile (\<lambda>v. ts < fst v) vs of [] \<Rightarrow> None | v # _ \<Rightarrow> Some v)"
  by (induction vs) (auto simp: not_less)

lemma dropWhile_next:
  "newest_first vs \<Longrightarrow> dropWhile (\<lambda>v. ts < fst v) vs = x # rest \<Longrightarrow> 0 < fst x \<Longrightarrow>
   dropWhile (\<lambda>v. fst x - 1 < fst v) vs = rest"
proof (induction vs)
  case (Cons v vs)
  show ?case
  proof (cases "ts < fst v")
    case True
    then have rest: "dropWhile (\<lambda>v. ts < fst v) vs = x # rest" using Cons.prems by simp
    then have "x \<in> set vs" by (metis list.set_intros(1) set_dropWhileD)
    then have "\<not> fst v \<le> fst x - 1" using Cons.prems by (auto simp: ts_le_prev_iff)
    then show ?thesis using Cons.IH rest Cons.prems by (simp add: not_le)
  next
    case False
    then have x: "v = x" "vs = rest" using Cons.prems by auto
    have "dropWhile (\<lambda>v. fst x - 1 < fst v) rest = rest"
      using Cons.prems x by (cases rest) (auto simp: not_less ts_le_prev_iff)
    moreover have "fst x - 1 < fst x" using Cons.prems(3) ts_le_prev_iff [of "fst x" "fst x - 1"] by simp
    ultimately show ?thesis using x by simp
  qed
qed simp

lemma reader_ok_stats [simp]:
  "reader_ok (on_write_stats f r) \<longleftrightarrow> reader_ok r" "same_request r' (on_write_stats f r) \<longleftrightarrow> same_request r' r"
  "mr_snapshot (on_write_stats f r) = mr_snapshot r"
  by (auto simp: on_write_stats_def reader_ok_def same_request_def Let_def)

text \<open>The step through the pointer of a lock or rollback record.\<close>

lemma get_write_jump:
  assumes "reader_ok r" and vs: "vs = versions (reader_engine r) (from_raw raw)"
    and "pointer_ok vs limit (c, w)" "\<not> is_change w" "far_last_change w = Some lts"
    and l: "latest vs ts = Some (c, w)"
  shows "\<exists>r'. get_write_loop (Suc (Suc n)) r (from_raw raw) ts limit (Some (c, w)) =
      Ok (visible vs ts limit, r') \<and> reader_ok r' \<and> same_request r r'"
proof -
  note t = reader_ok_tree [OF assms(1)]
  have nf: "newest_first vs" unfolding vs versions_def by (rule newest_first_versions_in [OF t])
  have p: "\<not> fenced limit w" "w_last_change w \<noteq> LcNotExist"
    "case change_at vs (c - 1) of Some (c', _) \<Rightarrow> c' = lts | None \<Rightarrow> map_of vs lts = None"
    using assms(3-5) by (auto simp: pointer_ok_def far_last_change_def)
  have ch: "change_at vs ts = change_at vs (c - 1)"
    using change_at_latest(2) [OF nf l] assms(3,4) by (simp add: pointer_ok_def)
  have get: "snapshot_get_cf (reader_engine r) CF_WRITE (append_ts (from_raw raw) lts) =
      Ok (btree_get (engine_tree (reader_engine r) CF_WRITE) (append_ts (from_raw raw) lts))"
    using snapshot_get_cf_eq [OF reader_ok_cf [OF assms(1), of CF_WRITE]] by (simp add: engine_map_def)
  note m = map_of_versions [OF t, of "from_raw raw" lts, folded versions_def, folded vs]
  have nc: "w_write_type w \<noteq> WtPut" "w_write_type w \<noteq> WtDelete"
    using assms(4) by (auto simp: is_change_def)
  show ?thesis
  proof (cases "change_at vs (c - 1)")
    case None
    then have "btree_get (engine_tree (reader_engine r) CF_WRITE) (append_ts (from_raw raw) lts) = None"
      using p(3) m by (force split: option.splits)
    then show ?thesis
      using None assms(1,5) p(1,2) nc get ch by (intro exI [of _ r]) (simp add: visible_def)
  next
    case (Some v)
    then obtain w' where w': "change_at vs (c - 1) = Some (lts, w')" using p(3) by (cases v) auto
    then have "(lts, w') \<in> set vs" and ic: "is_change w'"
      using change_at_SomeD by fastforce+
    then have "map_of vs lts = Some w'" using newest_first_distinct [OF nf] by simp
    then obtain b where b: "btree_get (engine_tree (reader_engine r) CF_WRITE) (append_ts (from_raw raw) lts) = Some b"
      "write_parse b = Ok w'"
      using m by (auto split: option.splits result.splits)
    let ?r = "on_write_stats count_get r"
    have "get_write_loop (Suc (Suc n)) r (from_raw raw) ts limit (Some (c, w)) =
        get_write_loop (Suc n) ?r (from_raw raw) ts limit (Some (lts, w'))"
      using assms(5) p(1,2) nc get b ic by (simp add: is_change_def Let_def)
    also have "\<dots> = Ok (visible vs ts limit, ?r)"
      using ic ch w' by (auto simp: visible_def is_change_def)
    finally show ?thesis using assms(1) by (intro exI [of _ ?r]) simp
  qed
qed

lemma get_write_loop_eq:
  assumes "reader_ok r" and vs: "vs = versions (reader_engine r) (from_raw raw)"
    and "pointers_ok vs limit" "length (dropWhile (\<lambda>v. ts < fst v) vs) + 2 \<le> n"
  shows "\<exists>r'. get_write_loop n r (from_raw raw) ts limit (latest vs ts) = Ok (visible vs ts limit, r') \<and>
    reader_ok r' \<and> same_request r r'"
  using assms
proof (induction n arbitrary: r ts)
  case (Suc n)
  have nf: "newest_first vs"
    unfolding Suc.prems(2) versions_def by (rule newest_first_versions_in [OF reader_ok_tree [OF Suc.prems(1)]])
  show ?case
  proof (cases "dropWhile (\<lambda>v. ts < fst v) vs")
    case Nil
    have "latest vs ts = None" unfolding latest_dropWhile Nil by simp
    then show ?thesis
      using Suc.prems(1) by (auto simp: visible_def change_at_None_latest)
  next
    case (Cons v rest)
    obtain c w where v: "v = (c, w)" by (cases v)
    have l: "latest vs ts = Some (c, w)" using Cons v by (simp add: latest_dropWhile)
    have "(c, w) \<in> set vs" "c \<le> ts" using l latest_Some [OF nf] by auto
    then have p: "pointer_ok vs limit (c, w)" and c: "0 < c"
      using Suc.prems(3) by (auto simp: pointers_ok_def list_all_iff pointer_ok_def)
    obtain n' where n': "n = Suc n'" using Suc.prems(4) Cons by (cases n) auto
    consider "is_change w" | lts where "\<not> is_change w" "far_last_change w = Some lts"
      | "\<not> is_change w" "far_last_change w = None" "w_last_change w = LcNotExist"
      | "\<not> is_change w" "far_last_change w = None" "w_last_change w \<noteq> LcNotExist"
      by (cases "far_last_change w") auto
    then show ?thesis
    proof cases
      case 1
      then show ?thesis
        using l change_at_latest(1) [OF nf l] Suc.prems(1) by (auto simp: visible_def is_change_def)
    next
      case 2
      then show ?thesis using get_write_jump [OF Suc.prems(1,2) p 2 l, of n'] l n' by simp
    next
      case 3
      have "visible vs ts limit = None"
        using 3 p change_at_latest(2) [OF nf l] by (auto simp: visible_def pointer_ok_def split: option.splits)
      then show ?thesis
        using 3 l p Suc.prems(1) by (auto simp: is_change_def pointer_ok_def)
    next
      case 4
      obtain r1 where r1: "seek_write r (from_raw raw) (c - 1) = Ok (latest vs (c - 1), r1)"
        "reader_ok r1" "same_request r r1"
        using seek_write_eq [OF Suc.prems(1), of raw "c - 1"] Suc.prems(2) by blast
      have "dropWhile (\<lambda>v. c - 1 < fst v) vs = rest"
        using dropWhile_next [OF nf Cons] c v by simp
      then obtain r2 where r2: "get_write_loop n r1 (from_raw raw) (c - 1) limit (latest vs (c - 1)) =
          Ok (visible vs (c - 1) limit, r2)" "reader_ok r2" "same_request r1 r2"
        using Suc.IH [OF r1(2) _ Suc.prems(3), of "c - 1"] Suc.prems(2,4) Cons same_request_engine [OF r1(3)]
        by auto
      have "ts \<noteq> 0" using c \<open>c \<le> ts\<close> by auto
      moreover have "visible vs ts limit = visible vs (c - 1) limit"
        using change_at_latest(2) [OF nf l] 4 c by (simp add: visible_def)
      ultimately have "get_write_loop (Suc n) r (from_raw raw) ts limit (latest vs ts) =
          Ok (visible vs ts limit, r2)"
        using 4 l p c r1(1) r2(1) by (auto simp: is_change_def pointer_ok_def ts_is_zero_def ts_prev_Ok)
      then show ?thesis using r2 same_request_trans [OF r1(3)] by blast
    qed
  qed
qed simp

lemma length_versions_in: "length (versions_in t key) \<le> length t"
  by (induction t) (auto split: option.splits)

lemma write_fuel_enough:
  "length (dropWhile p (versions (reader_engine r) key)) + 3 \<le> write_fuel r"
  using length_versions_in [of "engine_tree (reader_engine r) CF_WRITE" key]
    length_dropWhile_le [of p "versions (reader_engine r) key"]
  by (simp add: write_fuel_def versions_def)

lemma write_fuel_same: "same_request r r' \<Longrightarrow> write_fuel r' = write_fuel r"
  by (simp add: write_fuel_def same_request_def)

lemma get_write_with_commit_ts_eq:
  assumes "reader_ok r" "pointers_ok (versions (reader_engine r) (from_raw raw)) limit"
  shows "\<exists>r'. get_write_with_commit_ts r (from_raw raw) ts limit =
      Ok (visible (versions (reader_engine r) (from_raw raw)) ts limit, r') \<and>
    reader_ok r' \<and> same_request r r'"
proof -
  let ?vs = "versions (reader_engine r) (from_raw raw)"
  obtain r1 where r1: "seek_write r (from_raw raw) ts = Ok (latest ?vs ts, r1)" "reader_ok r1" "same_request r r1"
    using seek_write_eq [OF assms(1)] by blast
  have "length (dropWhile (\<lambda>v. ts < fst v) ?vs) + 2 \<le> write_fuel r1"
    using write_fuel_enough [of "\<lambda>v. ts < fst v" r "from_raw raw"] write_fuel_same [OF r1(3)] by simp
  then obtain r2 where "get_write_loop (write_fuel r1) r1 (from_raw raw) ts limit (latest ?vs ts) =
      Ok (visible ?vs ts limit, r2)" "reader_ok r2" "same_request r1 r2"
    using get_write_loop_eq [OF r1(2), of ?vs raw limit ts] same_request_engine [OF r1(3)] assms(2) by auto
  then show ?thesis
    using r1 same_request_trans [OF r1(3)] by (auto simp: get_write_with_commit_ts_def)
qed

lemma get_write_eq:
  assumes "reader_ok r" "pointers_ok (versions (reader_engine r) (from_raw raw)) limit"
  shows "\<exists>r'. get_write r (from_raw raw) ts limit =
      Ok (map_option fst (visible (versions (reader_engine r) (from_raw raw)) ts limit), r') \<and>
    reader_ok r' \<and> same_request r r'"
  using get_write_with_commit_ts_eq [OF assms, of ts] by (auto simp: get_write_def)

subsection \<open>Values\<close>

lemma get_value_eq:
  assumes "reader_ok r"
  shows "\<exists>r'. get_value r key start_ts =
      Ok (engine_map (reader_engine r) CF_DEFAULT (append_ts key start_ts), r') \<and>
    reader_ok r' \<and> same_request r r'"
proof -
  let ?k = "append_ts key start_ts"
  obtain r1 where r1: "(if mr_scan_mode r \<noteq> None then create_data_cursor r else Ok r) = Ok r1"
    "reader_ok r1" "same_request r r1"
    using create_data_cursor_eq [OF assms] assms by (cases "mr_scan_mode r = None") auto
  have stats: "reader_ok (on_data_stats f x) \<longleftrightarrow> reader_ok x" "same_request y (on_data_stats f x) \<longleftrightarrow> same_request y x"
    for f x y by (auto simp: on_data_stats_def reader_ok_def same_request_def Let_def)
  obtain r2 where r2: "(if mr_data_cursor r1 \<noteq> None then on_data_cursor r1 (cursor_get ?k)
        else map_ok (\<lambda>v. (v, on_data_stats count_get r1)) (map_err MvKv (snapshot_get (reader_engine r1) ?k))) =
      Ok (engine_map (reader_engine r) CF_DEFAULT ?k, r2)" "reader_ok r2" "same_request r r2"
  proof (cases "mr_data_cursor r1")
    case None
    then show ?thesis
      using snapshot_get_cf_eq [OF reader_ok_cf [OF r1(2), of CF_DEFAULT]] r1 same_request_engine [OF r1(3)] stats
      by (intro that [of "on_data_stats count_get r1"]) (simp_all add: snapshot_get_def)
  next
    case (Some c)
    let ?st = "ss_data (mr_statistics r1)"
    have c: "mixed_ok (c, ?st)" "cur_tree (c, ?st) = engine_tree (reader_engine r) CF_DEFAULT"
      using r1 Some cursor_fits_Some [of _ _ c ?st] same_request_engine [OF r1(3)] by (auto simp: reader_ok_def Let_def)
    obtain c' st' where c': "cursor_get ?k (c, ?st) = Ok (engine_map (reader_engine r) CF_DEFAULT ?k, (c', st'))"
      "mixed_ok (c', st')" "cur_tree (c', st') = engine_tree (reader_engine r) CF_DEFAULT"
      using mixed_get [OF c(1), of ?k] c(2) by (auto simp: engine_map_def)
    let ?r = "r1\<lparr>mr_data_cursor := Some c', mr_statistics := (mr_statistics r1)\<lparr>ss_data := st'\<rparr>\<rparr>"
    have "reader_ok ?r" "same_request r ?r"
      using r1 c'(2,3) cursor_fits_Some [of "reader_engine r" CF_DEFAULT c' st'] same_request_engine [OF r1(3)]
      by (auto simp: reader_ok_def same_request_def Let_def)
    then show ?thesis
      using Some c'(1) by (intro that [of ?r]) (simp_all add: on_data_cursor_def del: cursor_get.simps)
  qed
  show ?thesis
    using r1(1) r2 stats unfolding get_value_def by (cases "engine_map (reader_engine r) CF_DEFAULT ?k") auto
qed

text \<open>The value a put stands for: in the record, or in the default column family.\<close>

definition value_of :: "btree_engine \<Rightarrow> key \<Rightarrow> write_record \<Rightarrow> val option" where
  "value_of e key w =
     (case w_short_value w of
        Some v \<Rightarrow> Some v
      | None \<Rightarrow> engine_map e CF_DEFAULT (append_ts key (w_start_ts w)))"

lemma load_data_eq:
  assumes "reader_ok r" "w_write_type w = WtPut"
  shows "case value_of (reader_engine r) key w of
      Some v \<Rightarrow> \<exists>r'. load_data r key w = Ok (v, r') \<and> reader_ok r' \<and> same_request r r'
    | None \<Rightarrow> load_data r key w = Err (MvDefaultNotFound (append_ts key (w_start_ts w)))"
  using get_value_eq [OF assms(1), of key "w_start_ts w"] assms
  by (auto simp: load_data_def value_of_def default_not_found_error_def split: option.splits)

subsection \<open>Locks\<close>

text \<open>The lock of a key: the in-memory one if the leader has it, else the stored one.\<close>

definition lock_seen :: "mvcc_reader \<Rightarrow> key \<Rightarrow> (lock option, mvcc_error) result" where
  "lock_seen r key =
     and_then (load_in_memory_pessimistic_lock r key) (\<lambda>in_memory.
       if in_memory \<noteq> None then Ok in_memory
       else parse_lock_opt (engine_map (reader_engine r) CF_LOCK key))"

lemma lock_seen_same: "same_request r r' \<Longrightarrow> lock_seen r' key = lock_seen r key"
  by (auto simp: lock_seen_def load_in_memory_pessimistic_lock_def check_term_version_status_def
      same_request_def split: option.splits)

lemma on_lock_stats_ok [simp]:
  "reader_ok (on_lock_stats f x) \<longleftrightarrow> reader_ok x" "same_request y (on_lock_stats f x) \<longleftrightarrow> same_request y x"
  by (auto simp: on_lock_stats_def reader_ok_def same_request_def Let_def)

lemma get_lock_cursor:
  assumes "reader_ok r" "mr_lock_cursor r = Some c"
  shows "\<exists>r'. on_lock_cursor r (cursor_get key) = Ok (engine_map (reader_engine r) CF_LOCK key, r') \<and>
    reader_ok r' \<and> same_request r r'"
proof -
  let ?st = "ss_lock (mr_statistics r)"
  have c: "mixed_ok (c, ?st)" "cur_tree (c, ?st) = engine_tree (reader_engine r) CF_LOCK"
    using assms cursor_fits_Some [of _ _ c ?st] by (auto simp: reader_ok_def Let_def)
  obtain c' st' where c': "cursor_get key (c, ?st) = Ok (engine_map (reader_engine r) CF_LOCK key, (c', st'))"
    "mixed_ok (c', st')" "cur_tree (c', st') = engine_tree (reader_engine r) CF_LOCK"
    using mixed_get [OF c(1), of key] c(2) by (auto simp: engine_map_def)
  let ?r = "r\<lparr>mr_lock_cursor := Some c', mr_statistics := (mr_statistics r)\<lparr>ss_lock := st'\<rparr>\<rparr>"
  have "reader_ok ?r" "same_request r ?r"
    using assms c'(2,3) cursor_fits_Some [of "reader_engine r" CF_LOCK c' st']
    by (auto simp: reader_ok_def same_request_def Let_def)
  then show ?thesis
    using assms(2) c'(1) by (intro exI [of _ ?r]) (simp add: on_lock_cursor_def del: cursor_get.simps)
qed

lemma load_lock_eq:
  assumes "reader_ok r"
  shows "\<exists>r'. load_lock r key = map_ok (\<lambda>l. (l, r')) (lock_seen r key) \<and> reader_ok r' \<and> same_request r r'"
proof -
  obtain r1 where r1: "(if mr_scan_mode r \<noteq> None then create_lock_cursor_if_not_exist r else Ok r) = Ok r1"
    "reader_ok r1" "same_request r r1"
    using create_lock_cursor_eq [OF assms] assms by (cases "mr_scan_mode r = None") auto
  obtain r2 where r2: "(if mr_lock_cursor r1 \<noteq> None then on_lock_cursor r1 (cursor_get key)
        else map_ok (\<lambda>v. (v, on_lock_stats count_get r1)) (map_err MvKv (snapshot_get_cf (reader_engine r1) CF_LOCK key))) =
      Ok (engine_map (reader_engine r) CF_LOCK key, r2)" "reader_ok r2" "same_request r r2"
  proof (cases "mr_lock_cursor r1")
    case None
    then show ?thesis
      using snapshot_get_cf_eq [OF reader_ok_cf [OF r1(2), of CF_LOCK]] r1 same_request_engine [OF r1(3)]
      by (intro that [of "on_lock_stats count_get r1"]) simp_all
  next
    case (Some c)
    obtain r2 where "on_lock_cursor r1 (cursor_get key) = Ok (engine_map (reader_engine r) CF_LOCK key, r2)"
      "reader_ok r2" "same_request r r2"
      using get_lock_cursor [OF r1(2) Some, of key] same_request_engine [OF r1(3)] same_request_trans [OF r1(3)]
      by auto
    then show ?thesis using Some by (intro that [of r2]) simp_all
  qed
  show ?thesis
  proof (cases "load_in_memory_pessimistic_lock r key")
    case (Ok m)
    then show ?thesis
      using r1(1) r2 assms unfolding load_lock_def lock_seen_def
      by (cases m) (auto intro: exI [of _ r] exI [of _ r2])
  qed (use assms in \<open>auto simp: load_lock_def lock_seen_def\<close>)
qed

subsection \<open>The record of a transaction\<close>

fun record_of :: "timestamp \<Rightarrow> timestamp \<Rightarrow> (timestamp \<times> write_record) list \<Rightarrow> txn_commit_record" where
  "record_of start_ts gc_fence [] = RecordNone None"
| "record_of start_ts gc_fence ((c, w) # vs) =
     (if w_start_ts w = start_ts then SingleRecord c w
      else if c = start_ts
      then (if w_has_overlapped_rollback w then OverlappedRollback c
            else RecordNone (Some \<lparr>ow_write = w, ow_gc_fence = gc_fence\<rparr>))
      else if c < start_ts then RecordNone None
      else record_of start_ts (if is_change w then c else gc_fence) vs)"

lemma commit_record_loop_eq:
  assumes "reader_ok r" and vs: "vs = versions (reader_engine r) (from_raw raw)"
    and "length (dropWhile (\<lambda>v. ts < fst v) vs) + 1 \<le> n"
  shows "\<exists>r'. commit_record_loop n r (from_raw raw) start_ts ts gc_fence =
      Ok (record_of start_ts gc_fence (dropWhile (\<lambda>v. ts < fst v) vs), r') \<and> reader_ok r' \<and> same_request r r'"
  using assms
proof (induction n arbitrary: r ts gc_fence)
  case (Suc n)
  have nf: "newest_first vs"
    unfolding Suc.prems(2) versions_def by (rule newest_first_versions_in [OF reader_ok_tree [OF Suc.prems(1)]])
  obtain r1 where r1: "seek_write r (from_raw raw) ts = Ok (latest vs ts, r1)" "reader_ok r1" "same_request r r1"
    using seek_write_eq [OF Suc.prems(1)] Suc.prems(2) by blast
  show ?case
  proof (cases "dropWhile (\<lambda>v. ts < fst v) vs")
    case Nil
    have "latest vs ts = None" unfolding latest_dropWhile Nil by simp
    then show ?thesis unfolding Nil using r1 by simp
  next
    case (Cons v rest)
    obtain c w where v: "v = (c, w)" by (cases v)
    have l: "latest vs ts = Some (c, w)" using Cons v by (simp add: latest_dropWhile)
    show ?thesis
    proof (cases "w_start_ts w = start_ts \<or> c \<le> start_ts")
      case True
      then show ?thesis unfolding Cons v using r1 l by (auto simp: le_less Let_def)
    next
      case False
      then have c: "0 < c" "\<not> c < start_ts" by (auto simp: word_gt_0 not_le)
      let ?g = "if is_change w then c else gc_fence"
      have rest: "dropWhile (\<lambda>v. c - 1 < fst v) vs = rest" using dropWhile_next [OF nf Cons] c v by simp
      then obtain r2 where "commit_record_loop n r1 (from_raw raw) start_ts (c - 1) ?g =
          Ok (record_of start_ts ?g rest, r2)" "reader_ok r2" "same_request r1 r2"
        using Suc.IH [OF r1(2), of "c - 1" ?g] Suc.prems(2,3) Cons same_request_engine [OF r1(3)] by auto
      then show ?thesis
        unfolding Cons v using r1 l False c same_request_trans [OF r1(3)]
        by (auto simp: Let_def is_change_def ts_prev_Ok)
    qed
  qed
qed simp

lemma get_txn_commit_record_eq:
  assumes "reader_ok r"
  shows "\<exists>r'. get_txn_commit_record r (from_raw raw) start_ts =
      Ok (record_of start_ts 0 (versions (reader_engine r) (from_raw raw)), r') \<and>
    reader_ok r' \<and> same_request r r'"
proof -
  let ?vs = "versions (reader_engine r) (from_raw raw)"
  have "dropWhile (\<lambda>v. ts_max < fst v) ?vs = ?vs"
    by (cases ?vs) (simp_all add: not_less)
  then show ?thesis
    using commit_record_loop_eq [OF assms refl, of ts_max raw "write_fuel r" start_ts 0]
      write_fuel_enough [of "\<lambda>v. ts_max < fst v" r "from_raw raw"]
    by (simp add: get_txn_commit_record_def)
qed

text \<open>
  The same record without the order of the search: the commit record of the transaction if the key
  has one, else what the record committed at its start timestamp says, with the next newer change
  as the GC fence.
\<close>

definition next_change :: "timestamp \<Rightarrow> timestamp \<Rightarrow> (timestamp \<times> write_record) list \<Rightarrow> timestamp" where
  "next_change start_ts g vs =
     fold (\<lambda>v g. if start_ts < fst v \<and> is_change (snd v) then fst v else g) vs g"

definition record_spec ::
  "timestamp \<Rightarrow> timestamp \<Rightarrow> (timestamp \<times> write_record) list \<Rightarrow> txn_commit_record" where
  "record_spec start_ts g vs =
     (case find (\<lambda>v. w_start_ts (snd v) = start_ts) vs of
        Some (c, w) \<Rightarrow> SingleRecord c w
      | None \<Rightarrow>
          (case map_of vs start_ts of
             Some w \<Rightarrow>
               if w_has_overlapped_rollback w then OverlappedRollback start_ts
               else RecordNone (Some \<lparr>ow_write = w, ow_gc_fence = next_change start_ts g vs\<rparr>)
           | None \<Rightarrow> RecordNone None))"

definition starts_before_commits :: "(timestamp \<times> write_record) list \<Rightarrow> bool" where
  "starts_before_commits vs \<longleftrightarrow> list_all (\<lambda>v. w_start_ts (snd v) \<le> fst v) vs"

lemma next_change_below: "\<forall>v\<in>set vs. fst v \<le> start_ts \<Longrightarrow> next_change start_ts g vs = g"
  unfolding next_change_def by (induction vs) auto

lemma record_of_spec:
  "newest_first vs \<Longrightarrow> starts_before_commits vs \<Longrightarrow> record_of start_ts g vs = record_spec start_ts g vs"
proof (induction vs arbitrary: g)
  case Nil
  then show ?case by (simp add: record_spec_def)
next
  case (Cons v vs)
  obtain c w where v: "v = (c, w)" by (cases v)
  have below: "\<forall>x\<in>set vs. fst x < c \<and> w_start_ts (snd x) < c"
    using Cons.prems v unfolding starts_before_commits_def list_all_iff
    by (auto intro: order_le_less_trans)
  have no_own: "find (\<lambda>v. w_start_ts (snd v) = start_ts) vs = None" if "c \<le> start_ts"
    using below that by (auto simp: find_None_iff)
  have no_ts: "map_of vs start_ts = None" if "c \<le> start_ts"
    using below that by (auto simp: map_of_eq_None_iff)
  have nc: "next_change start_ts g' vs = g'" if "c \<le> start_ts" for g'
    using below that by (intro next_change_below) auto
  consider "w_start_ts w = start_ts" | "w_start_ts w \<noteq> start_ts" "c \<le> start_ts"
    | "w_start_ts w \<noteq> start_ts" "start_ts < c" by fastforce
  then show ?case
  proof cases
    case 1
    then show ?thesis by (simp add: v record_spec_def)
  next
    case 2
    then show ?thesis using no_own no_ts nc
      by (auto simp: v record_spec_def next_change_def le_less)
  next
    case 3
    then have "c \<noteq> start_ts" by auto
    then show ?thesis
      using 3 Cons.IH [of "if is_change w then c else g"] Cons.prems
      by (auto simp: v record_spec_def starts_before_commits_def next_change_def split: option.splits)
  qed
qed

subsection \<open>Properties of the reader\<close>

text \<open>A store with one user key, to evaluate the properties on.\<close>

definition one_key_engine :: "bytes \<Rightarrow> (timestamp \<times> write_record) list \<Rightarrow> btree_engine" where
  "one_key_engine raw vs =
     \<lparr>be_cf_names = DATA_CFS,
      be_cf_contents = [[], [], map (\<lambda>(c, w). (append_ts (from_raw raw) c, write_to_bytes w)) vs]\<rparr>"

definition one_key_reader :: "bytes \<Rightarrow> (timestamp \<times> write_record) list \<Rightarrow> mvcc_reader" where
  "one_key_reader raw vs =
     mvcc_reader_new \<lparr>sn_engine = one_key_engine raw vs, sn_txn_ext = None\<rparr> (Some Mixed)"

lemma one_key_write_tree [simp]:
  "engine_tree (one_key_engine raw vs) CF_WRITE =
     map (\<lambda>(c, w). (append_ts (from_raw raw) c, write_to_bytes w)) vs"
  by (simp add: engine_tree_def one_key_engine_def DATA_CFS_def)

lemma one_key_versions:
  "list_all (\<lambda>v. write_wf (snd v)) vs \<Longrightarrow> versions (one_key_engine raw vs) (from_raw raw) = vs"
  unfolding versions_def by (induction vs) auto

lemma one_key_tree_ok:
  assumes "newest_first vs" "list_all (\<lambda>v. write_wf (snd v)) vs"
  shows "write_tree_ok (map (\<lambda>(c, w). (append_ts (from_raw raw) c, write_to_bytes w)) vs)"
  using assms by (induction vs) (auto simp: write_tree_ok_def tree_wf_def write_entry_ok_def)

lemma one_key_reader_ok:
  assumes "newest_first vs" "list_all (\<lambda>v. write_wf (snd v)) vs"
  shows "reader_ok (one_key_reader raw vs)"
proof -
  let ?e = "one_key_engine raw vs"
  have t: "write_tree_ok (engine_tree ?e CF_WRITE)" using one_key_tree_ok [OF assms] by simp
  then have "engine_wf ?e"
    by (simp only: one_key_write_tree) (simp add: engine_wf_def one_key_engine_def DATA_CFS_def write_tree_ok_def)
  moreover have "set DATA_CFS \<subseteq> set (be_cf_names ?e)" by (simp add: one_key_engine_def)
  moreover have "sn_engine (mr_snapshot (one_key_reader raw vs)) = ?e"
    by (simp add: one_key_reader_def mvcc_reader_new_def)
  ultimately show ?thesis
    using t unfolding reader_ok_def Let_def by (simp add: one_key_reader_def mvcc_reader_new_def)
qed

lemma one_key_reader_engine [simp]: "reader_engine (one_key_reader raw vs) = one_key_engine raw vs"
  by (simp add: one_key_reader_def mvcc_reader_new_def)

text \<open>A put, a rollback above it that points far down to it, and a newer delete.\<close>

definition example_versions :: "(timestamp \<times> write_record) list" where
  "example_versions =
     [(30, write_new WtDelete 25 None),
      (20, write_set_last_change (write_new WtLock 18 None) (LcExist 10 40)),
      (10, write_new WtPut 5 (Some [7]))]"

lemma example_versions_ok:
  "newest_first example_versions" "list_all (\<lambda>v. write_wf (snd v)) example_versions"
  "pointers_ok example_versions limit" "starts_before_commits example_versions"
  by (simp_all add: example_versions_def write_new_def write_wf_def is_short_value_def
      SHORT_VALUE_MAX_LEN_def write_set_last_change_def pointers_ok_def pointer_ok_def is_change_def
      change_at_def far_last_change_def SEEK_BOUND_def fenced_def check_gc_fence_as_latest_version_def
      starts_before_commits_def split: option.splits)

lemmas example_reader_ok = one_key_reader_ok [OF example_versions_ok(1,2)]
lemmas example_reader_versions = one_key_versions [OF example_versions_ok(2)]

text \<open>
  C15: A read at a timestamp finds the latest put or delete at or below it, unless it is a delete or a
  GC fence hides it. The search over lock and rollback records ends, and the shortcut through a
  last-change pointer gives the answer of the plain search whenever the pointers are right and no lock or rollback
  record of the key is hidden by a GC fence (\<^const>\<open>pointers_ok\<close>).
\<close>

theorem get_write_correct:
  assumes "reader_ok r" and "pointers_ok (versions (reader_engine r) (from_raw raw)) limit"
  shows "\<exists>r'. get_write_with_commit_ts r (from_raw raw) ts limit =
      Ok (visible (versions (reader_engine r) (from_raw raw)) ts limit, r') \<and>
    reader_ok r' \<and> same_request r r'"
  by (rule get_write_with_commit_ts_eq [OF assms])

theorem get_write_correct_witness:
  "reader_ok (one_key_reader [1] example_versions) \<and>
   (\<exists>r'. get_write_with_commit_ts (one_key_reader [1] example_versions) (from_raw [1]) 29 (Some 29) =
     Ok (Some (write_new WtPut 5 (Some [7]), 10), r'))"
proof -
  have "visible example_versions 29 (Some 29) = Some (write_new WtPut 5 (Some [7]), 10)"
    by (simp add: visible_def change_at_def example_versions_def is_change_def write_new_def
        write_set_last_change_def fenced_def check_gc_fence_as_latest_version_def)
  then show ?thesis
    using get_write_correct [OF example_reader_ok [of "[1]"], of "[1]" "Some 29" 29] example_versions_ok(3) [of "Some 29"]
      example_reader_ok [of "[1]"]
    by (auto simp: example_reader_versions)
qed

lemma reader_get_eq:
  assumes "reader_ok r" "pointers_ok (versions (reader_engine r) (from_raw raw)) limit"
  shows "case visible (versions (reader_engine r) (from_raw raw)) ts limit of
      None \<Rightarrow> \<exists>r'. reader_get r (from_raw raw) ts limit = Ok (None, r') \<and> reader_ok r' \<and> same_request r r'
    | Some (w, c) \<Rightarrow>
       (case value_of (reader_engine r) (from_raw raw) w of
          Some v \<Rightarrow>
            \<exists>r'. reader_get r (from_raw raw) ts limit = Ok (Some v, r') \<and> reader_ok r' \<and> same_request r r'
        | None \<Rightarrow>
            reader_get r (from_raw raw) ts limit =
              Err (MvDefaultNotFound (append_ts (from_raw raw) (w_start_ts w))))"
proof -
  obtain r1 where r1: "get_write r (from_raw raw) ts limit =
      Ok (map_option fst (visible (versions (reader_engine r) (from_raw raw)) ts limit), r1)"
    "reader_ok r1" "same_request r r1"
    using get_write_eq [OF assms] by blast
  show ?thesis
  proof (cases "visible (versions (reader_engine r) (from_raw raw)) ts limit")
    case None
    then show ?thesis using r1 by (simp add: reader_get_def)
  next
    case (Some wc)
    obtain w c where wc: "wc = (w, c)" by (cases wc)
    have "w_write_type w = WtPut"
      using Some wc by (auto simp: visible_def split: option.splits if_splits prod.splits)
    from load_data_eq [OF r1(2) this, of "from_raw raw"] show ?thesis
      using r1 Some wc same_request_engine [OF r1(3)] same_request_trans [OF r1(3)]
      by (auto simp: reader_get_def split: option.splits)
  qed
qed

text \<open>
  C16: A read returns the value of the visible put, from the record itself or from the default column
  family, and nothing when there is no visible put. When the default column family lacks the value
  it fails with the default-not-found error of that key, and it never fails otherwise. The pointers of the key are
  right and no lock or rollback record of it is hidden by a GC fence.
\<close>

theorem reader_get_correct:
  assumes "reader_ok r" and "pointers_ok (versions (reader_engine r) (from_raw raw)) limit"
  shows "case visible (versions (reader_engine r) (from_raw raw)) ts limit of
      None \<Rightarrow> \<exists>r'. reader_get r (from_raw raw) ts limit = Ok (None, r') \<and> reader_ok r' \<and> same_request r r'
    | Some (w, c) \<Rightarrow>
       (case value_of (reader_engine r) (from_raw raw) w of
          Some v \<Rightarrow>
            \<exists>r'. reader_get r (from_raw raw) ts limit = Ok (Some v, r') \<and> reader_ok r' \<and> same_request r r'
        | None \<Rightarrow>
            reader_get r (from_raw raw) ts limit =
              Err (MvDefaultNotFound (append_ts (from_raw raw) (w_start_ts w))))"
  by (rule reader_get_eq [OF assms])

text \<open>The put of this store has a long value that the default column family lacks.\<close>

theorem reader_get_correct_witness:
  "reader_ok (one_key_reader [1] [(10, write_new WtPut 5 None)]) \<and>
   reader_get (one_key_reader [1] [(10, write_new WtPut 5 None)]) (from_raw [1]) 12 None =
     Err (MvDefaultNotFound (append_ts (from_raw [1]) 5))"
proof -
  let ?vs = "[(10, write_new WtPut 5 None)]"
  have ok: "reader_ok (one_key_reader [1] ?vs)"
    by (rule one_key_reader_ok) (simp_all add: write_new_def write_wf_def)
  have vs: "versions (one_key_engine [1] ?vs) (from_raw [1]) = ?vs"
    by (rule one_key_versions) (simp add: write_new_def write_wf_def)
  have p: "pointers_ok ?vs None"
    by (simp add: pointers_ok_def pointer_ok_def is_change_def write_new_def)
  have "visible ?vs 12 None = Some (write_new WtPut 5 None, 10)"
    by (simp add: visible_def change_at_def is_change_def write_new_def fenced_def)
  moreover have "value_of (one_key_engine [1] ?vs) (from_raw [1]) (write_new WtPut 5 None) = None"
    by (simp add: value_of_def write_new_def engine_map_def engine_tree_def one_key_engine_def DATA_CFS_def
        btree_get_def)
  moreover have "w_start_ts (write_new WtPut 5 None) = 5" by (simp add: write_new_def)
  ultimately show ?thesis
    using reader_get_correct [OF ok, of "[1]" None 12] ok p by (simp add: vs)
qed

text \<open>
  C21: Snapshot reads are stable: two stores whose versions of a key at or below the read timestamp are
  the same give the same read, whatever newer versions they hold.
\<close>

theorem read_ignores_newer_versions:
  assumes "reader_ok r" and "pointers_ok (versions (reader_engine r) (from_raw raw)) limit"
    and "reader_ok r'" and "pointers_ok (versions (reader_engine r') (from_raw raw)) limit"
    and "filter (\<lambda>v. fst v \<le> ts) (versions (reader_engine r) (from_raw raw)) =
      filter (\<lambda>v. fst v \<le> ts) (versions (reader_engine r') (from_raw raw))"
  shows "map_ok fst (get_write_with_commit_ts r (from_raw raw) ts limit) =
    map_ok fst (get_write_with_commit_ts r' (from_raw raw) ts limit)"
proof -
  have "change_at vs ts = find (\<lambda>v. is_change (snd v)) (filter (\<lambda>v. fst v \<le> ts) vs)" for vs
    by (induction vs) (auto simp: change_at_def)
  then show ?thesis
    using get_write_with_commit_ts_eq [OF assms(1,2), of ts] get_write_with_commit_ts_eq [OF assms(3,4), of ts]
      assms(5)
    by (auto simp: visible_def)
qed

theorem read_ignores_newer_versions_witness:
  "reader_ok (one_key_reader [1] example_versions) \<and> reader_ok (one_key_reader [1] (tl example_versions)) \<and>
   map_ok fst (get_write_with_commit_ts (one_key_reader [1] example_versions) (from_raw [1]) 25 None) =
   map_ok fst (get_write_with_commit_ts (one_key_reader [1] (tl example_versions)) (from_raw [1]) 25 None)"
proof -
  have t: "newest_first (tl example_versions)" "list_all (\<lambda>v. write_wf (snd v)) (tl example_versions)"
    "pointers_ok (tl example_versions) None"
    by (simp_all add: example_versions_def write_new_def write_wf_def is_short_value_def
        SHORT_VALUE_MAX_LEN_def write_set_last_change_def pointers_ok_def pointer_ok_def is_change_def
        change_at_def far_last_change_def SEEK_BOUND_def fenced_def)
  have f: "filter (\<lambda>v. fst v \<le> 25) example_versions = filter (\<lambda>v. fst v \<le> 25) (tl example_versions)"
    by (simp add: example_versions_def)
  show ?thesis
    using read_ignores_newer_versions [OF example_reader_ok [of "[1]"] _ one_key_reader_ok [OF t(1,2), of "[1]"],
        of "[1]" None 25] t example_versions_ok f example_reader_ok [of "[1]"] one_key_reader_ok [OF t(1,2), of "[1]"]
    by (simp add: one_key_versions)
qed

text \<open>
  C17: The commit record of a transaction is found whenever the key has one, by a search that starts at
  the largest timestamp and stops below the start timestamp. Otherwise the outcome is what the record
  committed exactly at the start timestamp says: it carries the rollback mark, or it would be
  overwritten by a rollback, and then the next newer change is its GC fence.
\<close>

theorem get_txn_commit_record_correct:
  assumes "reader_ok r" and "starts_before_commits (versions (reader_engine r) (from_raw raw))"
  shows "\<exists>r'. get_txn_commit_record r (from_raw raw) start_ts =
      Ok (record_spec start_ts 0 (versions (reader_engine r) (from_raw raw)), r') \<and>
    reader_ok r' \<and> same_request r r'"
proof -
  have "newest_first (versions (reader_engine r) (from_raw raw))"
    unfolding versions_def by (rule newest_first_versions_in [OF reader_ok_tree [OF assms(1)]])
  then show ?thesis
    using get_txn_commit_record_eq [OF assms(1), of raw start_ts] record_of_spec [OF _ assms(2)] by simp
qed

theorem get_txn_commit_record_correct_witness:
  "reader_ok (one_key_reader [1] example_versions) \<and>
   (\<exists>r'. get_txn_commit_record (one_key_reader [1] example_versions) (from_raw [1]) 10 =
     Ok (RecordNone (Some \<lparr>ow_write = write_new WtPut 5 (Some [7]), ow_gc_fence = 30\<rparr>), r'))"
proof -
  have "record_spec 10 0 example_versions =
      RecordNone (Some \<lparr>ow_write = write_new WtPut 5 (Some [7]), ow_gc_fence = 30\<rparr>)"
    by (simp add: record_spec_def example_versions_def write_new_def write_set_last_change_def
        next_change_def is_change_def)
  then show ?thesis
    using get_txn_commit_record_correct [OF example_reader_ok [of "[1]"], of "[1]" 10] example_versions_ok(4)
      example_reader_ok [of "[1]"]
    by (auto simp: example_reader_versions)
qed

end
