(* ===== verification/Snapshot_Reader.thy ===== *)
theory Snapshot_Reader
  imports Mvcc_Reader
begin

text \<open>
  \<^verbatim>\<open>SnapshotReader\<close>, the reader of one transaction (\<^verbatim>\<open>src/storage/mvcc/reader/reader.rs\<close>), and the
  helpers of the actions that only read: \<^verbatim>\<open>next_last_change_info\<close> and \<^verbatim>\<open>check_committed_record_on_err\<close>
  (\<^verbatim>\<open>src/storage/txn/actions/common.rs\<close>) and \<^verbatim>\<open>check_data_constraint\<close>.
\<close>

subsection \<open>The reader of a transaction\<close>

record snapshot_reader =
  sr_reader :: mvcc_reader
  sr_start_ts :: timestamp

definition snapshot_reader_new :: "timestamp \<Rightarrow> snapshot \<Rightarrow> snapshot_reader" where
  "snapshot_reader_new start_ts snapshot =
     \<lparr>sr_reader = mvcc_reader_new snapshot None, sr_start_ts = start_ts\<rparr>"

definition snapshot_reader_new_with_ctx :: "timestamp \<Rightarrow> snapshot \<Rightarrow> u64 \<Rightarrow> u64 \<Rightarrow> snapshot_reader" where
  "snapshot_reader_new_with_ctx start_ts snapshot term version =
     \<lparr>sr_reader = mvcc_reader_new_with_ctx snapshot None term version, sr_start_ts = start_ts\<rparr>"

definition on_reader ::
  "snapshot_reader \<Rightarrow> (mvcc_reader \<Rightarrow> ('a \<times> mvcc_reader, mvcc_error) result) \<Rightarrow>
     ('a \<times> snapshot_reader, mvcc_error) result" where
  "on_reader r f = map_ok (\<lambda>(x, rd). (x, r\<lparr>sr_reader := rd\<rparr>)) (f (sr_reader r))"

definition sr_get_txn_commit_record ::
  "snapshot_reader \<Rightarrow> key \<Rightarrow> (txn_commit_record \<times> snapshot_reader, mvcc_error) result" where
  "sr_get_txn_commit_record r key = on_reader r (\<lambda>rd. get_txn_commit_record rd key (sr_start_ts r))"

definition sr_load_lock :: "snapshot_reader \<Rightarrow> key \<Rightarrow> (lock option \<times> snapshot_reader, mvcc_error) result" where
  "sr_load_lock r key = on_reader r (\<lambda>rd. load_lock rd key)"

definition sr_key_exist ::
  "snapshot_reader \<Rightarrow> key \<Rightarrow> timestamp \<Rightarrow> (bool \<times> snapshot_reader, mvcc_error) result" where
  "sr_key_exist r key ts =
     map_ok (\<lambda>(w, r). (w \<noteq> None, r)) (on_reader r (\<lambda>rd. get_write rd key ts (Some (sr_start_ts r))))"

definition sr_get ::
  "snapshot_reader \<Rightarrow> key \<Rightarrow> timestamp \<Rightarrow> (val option \<times> snapshot_reader, mvcc_error) result" where
  "sr_get r key ts = on_reader r (\<lambda>rd. reader_get rd key ts (Some (sr_start_ts r)))"

definition sr_get_write ::
  "snapshot_reader \<Rightarrow> key \<Rightarrow> timestamp \<Rightarrow> (write_record option \<times> snapshot_reader, mvcc_error) result" where
  "sr_get_write r key ts = on_reader r (\<lambda>rd. get_write rd key ts (Some (sr_start_ts r)))"

definition sr_get_write_with_commit_ts ::
  "snapshot_reader \<Rightarrow> key \<Rightarrow> timestamp \<Rightarrow>
     ((write_record \<times> timestamp) option \<times> snapshot_reader, mvcc_error) result" where
  "sr_get_write_with_commit_ts r key ts =
     on_reader r (\<lambda>rd. get_write_with_commit_ts rd key ts (Some (sr_start_ts r)))"

definition sr_seek_write ::
  "snapshot_reader \<Rightarrow> key \<Rightarrow> timestamp \<Rightarrow>
     ((timestamp \<times> write_record) option \<times> snapshot_reader, mvcc_error) result" where
  "sr_seek_write r key ts = on_reader r (\<lambda>rd. seek_write rd key ts)"

definition sr_load_data ::
  "snapshot_reader \<Rightarrow> key \<Rightarrow> write_record \<Rightarrow> (val \<times> snapshot_reader, mvcc_error) result" where
  "sr_load_data r key w = on_reader r (\<lambda>rd. load_data rd key w)"

definition sr_get_old_value ::
  "snapshot_reader \<Rightarrow> key \<Rightarrow> timestamp \<Rightarrow> bool \<Rightarrow> write_record option \<Rightarrow>
     (old_value \<times> snapshot_reader, mvcc_error) result" where
  "sr_get_old_value r key ts prev_write_loaded prev_write =
     on_reader r (\<lambda>rd. get_old_value rd key ts prev_write_loaded prev_write)"

definition sr_take_statistics :: "snapshot_reader \<Rightarrow> statistics \<times> snapshot_reader" where
  "sr_take_statistics r =
     (mr_statistics (sr_reader r), r\<lparr>sr_reader := (sr_reader r)\<lparr>mr_statistics := statistics_default\<rparr>\<rparr>)"

subsection \<open>Reading helpers of the actions\<close>

text \<open>Keys in error values are raw keys; a key that is not an encoding is an error of its own.\<close>

definition raw_key :: "key \<Rightarrow> (bytes, mvcc_error) result" where
  "raw_key key = map_err MvCodec (into_raw key)"

definition next_last_change_info ::
  "key \<Rightarrow> write_record \<Rightarrow> timestamp \<Rightarrow> snapshot_reader \<Rightarrow> timestamp \<Rightarrow>
     (last_change \<times> snapshot_reader, mvcc_error) result" where
  "next_last_change_info key w start_ts original_reader commit_ts =
     (if w_write_type w = WtPut \<or> w_write_type w = WtDelete
      then map_ok (\<lambda>lc. (lc, original_reader)) (make_exist commit_ts 1)
      else
        (case w_last_change w of
           LcExist last_change_ts estimated \<Rightarrow>
             map_ok (\<lambda>lc. (lc, original_reader)) (make_exist last_change_ts (estimated + 1))
         | LcNotExist \<Rightarrow> Ok (LcNotExist, original_reader)
         | LcUnknown \<Rightarrow>
             let reader = snapshot_reader_new start_ts (mr_snapshot (sr_reader original_reader)) in
             and_then (sr_get_write_with_commit_ts reader key commit_ts) (\<lambda>(res, reader).
             let (stat, _) = sr_take_statistics reader;
                 rd = sr_reader original_reader;
                 original_reader = original_reader\<lparr>sr_reader :=
                   rd\<lparr>mr_statistics := statistics_add (mr_statistics rd) stat\<rparr>\<rparr> in
             case res of
               None \<Rightarrow> Ok (LcNotExist, original_reader)
             | Some (w, last_change_ts) \<Rightarrow>
                 assert_then (w_write_type w = WtPut)
                   (map_ok (\<lambda>lc. (lc, original_reader))
                     (make_exist last_change_ts (st_next (ss_write stat) + 1))))))"

text \<open>
  The result of the failed prewrite is an error value here; \<^verbatim>\<open>unwrap_err\<close> of a result that is not
  one panics.
\<close>

definition check_committed_record_on_err ::
  "('a, mvcc_error) result \<Rightarrow> mvcc_txn \<Rightarrow> snapshot_reader \<Rightarrow> key \<Rightarrow>
     (timestamp \<times> mvcc_txn \<times> snapshot_reader, mvcc_error) result" where
  "check_committed_record_on_err prewrite_result txn r key =
     and_then (sr_get_txn_commit_record r key) (\<lambda>(rec, r).
       let failed = (case prewrite_result of Err e \<Rightarrow> Err e | _ \<Rightarrow> Panic) in
       case rec of
         SingleRecord commit_ts w \<Rightarrow>
           if w_write_type w \<noteq> WtRollback then Ok (commit_ts, txn_clear txn, r) else failed
       | _ \<Rightarrow> failed)"

definition check_data_constraint ::
  "snapshot_reader \<Rightarrow> bool \<Rightarrow> write_record \<Rightarrow> timestamp \<Rightarrow> key \<Rightarrow>
     (snapshot_reader, mvcc_error) result" where
  "check_data_constraint r should_not_exist w write_commit_ts key =
     (let write_is_invalid =
            (case w_gc_fence w of Some gc_fence_ts \<Rightarrow> \<not> ts_is_zero gc_fence_ts | None \<Rightarrow> False) in
      if \<not> should_not_exist \<or> w_write_type w = WtDelete \<or> write_is_invalid then Ok r
      else
        and_then
          (if w_write_type w = WtPut then Ok (Some (w_start_ts w), r)
           else
             and_then (ts_prev write_commit_ts) (\<lambda>ts.
             map_ok (\<lambda>(prev_write, r). (map_option w_start_ts prev_write, r)) (sr_get_write r key ts)))
          (\<lambda>(existing_start_ts, r).
             case existing_start_ts of
               Some existing_start_ts \<Rightarrow>
                 and_then (map_err MvCodec (to_raw key)) (\<lambda>raw. Err (MvAlreadyExist raw existing_start_ts))
             | None \<Rightarrow> Ok r))"

end
