(* ===== verification/Mvcc_Store.thy ===== *)
theory Mvcc_Store
  imports Snapshot_Reader
begin

text \<open>
  The store a batch of modifications is applied to, seen through its version lists and its locks.
  A store is well formed when its write records and locks are stored forms of records; the batches
  of the actions keep it so, and change the version lists and the locks as maps.
\<close>

subsection \<open>Well-formed stores\<close>

definition stored_lock :: "btree_engine \<Rightarrow> key \<Rightarrow> lock option" where
  "stored_lock e key =
     (case engine_map e CF_LOCK key of
        None \<Rightarrow> None
      | Some v \<Rightarrow> (case lock_parse v of Ok l \<Rightarrow> Some l | _ \<Rightarrow> None))"

definition lock_value_ok :: "val \<Rightarrow> bool" where
  "lock_value_ok v \<longleftrightarrow> (\<exists>l. v = lock_to_bytes l \<and> lock_wf l)"

definition store_ok :: "btree_engine \<Rightarrow> bool" where
  "store_ok e \<longleftrightarrow> engine_wf e \<and> set DATA_CFS \<subseteq> set (be_cf_names e) \<and>
     (\<forall>k v. engine_map e CF_WRITE k = Some v \<longrightarrow> write_entry_ok (k, v)) \<and>
     (\<forall>k v. engine_map e CF_LOCK k = Some v \<longrightarrow> lock_value_ok v)"

definition store_modify_ok :: "modify \<Rightarrow> bool" where
  "store_modify_ok m \<longleftrightarrow>
     (case m of
        ModPut cf k v \<Rightarrow>
          cf \<in> set DATA_CFS \<and> (cf = CF_WRITE \<longrightarrow> write_entry_ok (k, v)) \<and> (cf = CF_LOCK \<longrightarrow> lock_value_ok v)
      | ModDelete cf k \<Rightarrow> cf \<in> set DATA_CFS
      | ModPessimisticLock k l \<Rightarrow> lock_wf (into_lock l)
      | _ \<Rightarrow> False)"

lemma store_okD:
  assumes "store_ok e"
  shows "engine_map e CF_WRITE k = Some v \<Longrightarrow> \<exists>raw ts w. k = append_ts (from_raw raw) ts \<and> v = write_to_bytes w \<and> write_wf w"
    and "engine_map e CF_LOCK k = Some v \<Longrightarrow> \<exists>l. v = lock_to_bytes l \<and> lock_wf l"
  using assms by (simp_all add: store_ok_def write_entry_ok_def lock_value_ok_def)

lemma store_ok_tree: "store_ok e \<Longrightarrow> write_tree_ok (engine_tree e CF_WRITE)"
  using engine_tree_wf [of e CF_WRITE]
  by (auto simp: store_ok_def write_tree_ok_def engine_map_def btree_get_eq_Some)

definition entries_ok :: "(cf_name \<Rightarrow> key \<rightharpoonup> val) \<Rightarrow> bool" where
  "entries_ok M \<longleftrightarrow> (\<forall>k v. M CF_WRITE k = Some v \<longrightarrow> write_entry_ok (k, v)) \<and>
     (\<forall>k v. M CF_LOCK k = Some v \<longrightarrow> lock_value_ok v)"

lemma store_modify: "entries_ok M \<Longrightarrow> store_modify_ok m \<Longrightarrow> entries_ok (apply_modify m M)"
  by (cases m) (auto simp: entries_ok_def apply_modify_def store_modify_ok_def lock_value_ok_def split: if_splits)

lemma store_modifies: "entries_ok M \<Longrightarrow> list_all store_modify_ok ms \<Longrightarrow> entries_ok (fold apply_modify ms M)"
  by (induction ms arbitrary: M) (simp_all add: store_modify)

lemma store_write:
  assumes "store_ok e" "list_all store_modify_ok ms"
  shows "\<exists>e'. write_modifies e ms = Ok e' \<and> store_ok e' \<and> engine_map e' = fold apply_modify ms (engine_map e)"
proof -
  have "modify_ok e m" if "store_modify_ok m" for m
    using that assms(1) by (cases m) (auto simp: modify_ok_def store_modify_ok_def store_ok_def DATA_CFS_def)
  then have ok: "list_all (modify_ok e) ms" using assms(2) by (auto simp: list_all_iff)
  have "engine_wf e" using assms(1) by (simp add: store_ok_def)
  from write_modifies_eq [OF this, of ms] obtain e' where e': "write_modifies e ms = Ok e'" "engine_wf e'" "be_cf_names e' = be_cf_names e"
    "engine_map e' = fold apply_modify ms (engine_map e)"
    by (simp only: ok if_True) blast
  have "entries_ok (engine_map e)" using assms(1) by (simp add: store_ok_def entries_ok_def)
  then have "entries_ok (engine_map e')" unfolding e'(4) using assms(2) by (rule store_modifies)
  then have "store_ok e'" using e' assms(1) by (simp add: store_ok_def entries_ok_def)
  then show ?thesis using e' by blast
qed

subsection \<open>Version lists and locks of a store\<close>

text \<open>The records of a key by commit timestamp.\<close>

definition records :: "btree_engine \<Rightarrow> key \<Rightarrow> timestamp \<rightharpoonup> write_record" where
  "records e key = map_of (versions e key)"

lemma records_eq:
  assumes "store_ok e"
  shows "records e key ts =
    (case engine_map e CF_WRITE (append_ts key ts) of
       None \<Rightarrow> None | Some v \<Rightarrow> (case write_parse v of Ok w \<Rightarrow> Some w | _ \<Rightarrow> None))"
  using map_of_versions(1) [OF store_ok_tree [OF assms], of key ts]
  by (simp add: records_def versions_def engine_map_def)

lemma newest_first_store: "store_ok e \<Longrightarrow> newest_first (versions e key)"
  unfolding versions_def by (rule newest_first_versions_in [OF store_ok_tree])

lemma in_versions: "store_ok e \<Longrightarrow> (c, w) \<in> set (versions e key) \<longleftrightarrow> records e key c = Some w"
  using newest_first_distinct [OF newest_first_store, of e key] by (auto simp: records_def)

lemma newest_first_unique: "newest_first vs \<Longrightarrow> newest_first ws \<Longrightarrow> map_of vs = map_of ws \<Longrightarrow> vs = ws"
proof (induction vs arbitrary: ws)
  case (Cons v vs)
  obtain c w where v: "v = (c, w)" by (cases v)
  have "map_of ws c = Some w" using Cons.prems(3) v by (metis map_of_Cons_code(2))
  then obtain d x ws' where ws: "ws = (d, x) # ws'" by (cases ws) auto
  have lt: "map_of vs t = None" if "c \<le> t" for t
    using Cons.prems(1) v that by (auto simp: map_of_eq_None_iff)
  have lt': "map_of ws' t = None" if "d \<le> t" for t
    using Cons.prems(2) ws that by (auto simp: map_of_eq_None_iff)
  have at: "map_of ((c, w) # vs) t = map_of ((d, x) # ws') t" for t
    using fun_cong [OF Cons.prems(3), of t] unfolding v ws .
  have "c \<le> d" using at [of c] lt' [of c] by (cases "d \<le> c") (auto split: if_splits)
  moreover have "d \<le> c" using at [of d] lt [of d] by (cases "c \<le> d") (auto split: if_splits)
  ultimately have cd: "d = c" by simp
  then have "x = w" using at [of c] by simp
  moreover have "map_of vs t = map_of ws' t" for t using at [of t] lt [of t] lt' [of t] cd by (auto split: if_splits)
  then have "vs = ws'" using Cons v ws by (intro Cons.IH) auto
  ultimately show ?case using v ws cd by simp
qed simp

lemma versions_cong: "store_ok e \<Longrightarrow> store_ok e' \<Longrightarrow> records e' key = records e key \<Longrightarrow> versions e' key = versions e key"
  unfolding records_def by (rule newest_first_unique [OF newest_first_store newest_first_store])

lemma change_at_iff:
  assumes "newest_first vs"
  shows "change_at vs ts = Some (c, w) \<longleftrightarrow>
    (c, w) \<in> set vs \<and> c \<le> ts \<and> is_change w \<and>
    (\<forall>(c', w')\<in>set vs. c' \<le> ts \<and> is_change w' \<longrightarrow> c' \<le> c)"
  using assms
proof (induction vs)
  case (Cons v vs)
  obtain c0 w0 where v: "v = (c0, w0)" by (cases v)
  have lt: "\<forall>x\<in>set vs. fst x < c0" using Cons.prems v by simp
  show ?case
  proof (cases "c0 \<le> ts \<and> is_change w0")
    case True
    then have "change_at (v # vs) ts = Some (c, w) \<longleftrightarrow> c0 = c \<and> w0 = w" using v by (auto simp: change_at_def)
    moreover have "c0 = c \<and> w0 = w \<longleftrightarrow> (c, w) \<in> set (v # vs) \<and> c0 \<le> c" using lt v by auto
    moreover have "(\<forall>(c', w')\<in>set (v # vs). c' \<le> ts \<and> is_change w' \<longrightarrow> c' \<le> c) \<longleftrightarrow> c0 \<le> c"
    proof
      assume "c0 \<le> c"
      then show "\<forall>(c', w')\<in>set (v # vs). c' \<le> ts \<and> is_change w' \<longrightarrow> c' \<le> c"
        using lt v by (auto dest: less_imp_le intro: order_trans)
    qed (use True v in simp)
    ultimately show ?thesis using True by auto
  next
    case False
    then have "change_at (v # vs) ts = change_at vs ts" using v by (auto simp: change_at_def)
    then show ?thesis using False Cons v by auto
  qed
qed (simp add: change_at_def)

lemma stored_lock_put:
  assumes "store_ok e" "engine_map e CF_LOCK key = Some (lock_to_bytes l)" "lock_wf l"
  shows "stored_lock e key = Some l"
  using assms by (simp add: stored_lock_def lock_parse_to_bytes)

lemma parse_stored_lock:
  assumes "store_ok e"
  shows "parse_lock_opt (engine_map e CF_LOCK key) = Ok (stored_lock e key)"
proof (cases "engine_map e CF_LOCK key")
  case (Some v)
  then obtain l where "v = lock_to_bytes l" "lock_wf l" using store_okD(2) [OF assms] by blast
  then show ?thesis using Some by (simp add: parse_lock_opt_def stored_lock_def lock_parse_to_bytes)
qed (simp add: parse_lock_opt_def stored_lock_def)

lemma stored_lock_wf:
  assumes "store_ok e" "stored_lock e key = Some l"
  shows "lock_wf l"
proof -
  obtain v where v: "engine_map e CF_LOCK key = Some v" "lock_parse v = Ok l"
    using assms(2) by (auto simp: stored_lock_def split: option.splits result.splits)
  then obtain l' where "v = lock_to_bytes l'" "lock_wf l'" using store_okD(2) [OF assms(1)] by blast
  then show ?thesis using v(2) by (simp add: lock_parse_to_bytes)
qed

lemma records_wf:
  assumes "store_ok e" "records e key c = Some w"
  shows "write_wf w"
proof -
  from assms(2) obtain v where v: "engine_map e CF_WRITE (append_ts key c) = Some v" "write_parse v = Ok w"
    unfolding records_eq [OF assms(1)] by (auto split: option.splits result.splits)
  then obtain w' where "v = write_to_bytes w'" "write_wf w'"
    using store_okD(1) [OF assms(1)] by blast
  then show ?thesis using v(2) by (simp add: write_parse_to_bytes)
qed

subsection \<open>Readers of a store\<close>

definition reader_on :: "btree_engine \<Rightarrow> timestamp \<Rightarrow> snapshot_reader \<Rightarrow> bool" where
  "reader_on e ts r \<longleftrightarrow> store_ok e \<and> reader_ok (sr_reader r) \<and>
     mr_snapshot (sr_reader r) = \<lparr>sn_engine = e, sn_txn_ext = None\<rparr> \<and> sr_start_ts r = ts"

lemma reader_on_new:
  assumes "store_ok e"
  shows "reader_on e ts (snapshot_reader_new ts \<lparr>sn_engine = e, sn_txn_ext = None\<rparr>)"
  using assms store_ok_tree [OF assms]
  by (simp add: reader_on_def snapshot_reader_new_def mvcc_reader_new_def reader_ok_def store_ok_def Let_def)

lemma reader_onD:
  assumes "reader_on e ts r"
  shows "store_ok e" "reader_ok (sr_reader r)" "reader_engine (sr_reader r) = e" "sr_start_ts r = ts"
  using assms by (simp_all add: reader_on_def)

lemma reader_on_upd:
  assumes "reader_on e ts r" "reader_ok rd" "same_request (sr_reader r) rd"
  shows "reader_on e ts (r\<lparr>sr_reader := rd\<rparr>)"
  using assms by (simp add: reader_on_def same_request_def)

lemma on_reader_eq:
  assumes "reader_on e ts r" "\<exists>rd. f (sr_reader r) = Ok (x, rd) \<and> reader_ok rd \<and> same_request (sr_reader r) rd"
  shows "\<exists>r'. on_reader r f = Ok (x, r') \<and> reader_on e ts r'"
  using assms reader_on_upd [OF assms(1)] by (auto simp: on_reader_def)

lemma sr_load_lock_eq:
  assumes "reader_on e ts r"
  shows "\<exists>r'. sr_load_lock r key = Ok (stored_lock e key, r') \<and> reader_on e ts r'"
proof -
  have "lock_seen (sr_reader r) key = Ok (stored_lock e key)"
    using assms parse_stored_lock [OF reader_onD(1) [OF assms], of key]
    by (simp add: lock_seen_def load_in_memory_pessimistic_lock_def reader_on_def)
  then show ?thesis
    unfolding sr_load_lock_def
    using load_lock_eq [OF reader_onD(2) [OF assms], of key] by (intro on_reader_eq [OF assms]) auto
qed

lemma sr_seek_write_eq:
  assumes "reader_on e ts r"
  shows "\<exists>r'. sr_seek_write r (from_raw raw) t = Ok (latest (versions e (from_raw raw)) t, r') \<and> reader_on e ts r'"
  unfolding sr_seek_write_def
  using seek_write_eq [OF reader_onD(2) [OF assms], of raw t] reader_onD(3) [OF assms]
  by (intro on_reader_eq [OF assms]) simp

lemma sr_get_txn_commit_record_eq:
  assumes "reader_on e ts r" "starts_before_commits (versions e (from_raw raw))"
  shows "\<exists>r'. sr_get_txn_commit_record r (from_raw raw) =
      Ok (record_spec ts 0 (versions e (from_raw raw)), r') \<and> reader_on e ts r'"
proof -
  have "record_of ts 0 (versions e (from_raw raw)) = record_spec ts 0 (versions e (from_raw raw))"
    by (rule record_of_spec [OF newest_first_store [OF reader_onD(1) [OF assms(1)]] assms(2)])
  then show ?thesis
    unfolding sr_get_txn_commit_record_def
    using get_txn_commit_record_eq [OF reader_onD(2) [OF assms(1)], of raw ts] reader_onD(3,4) [OF assms(1)]
    by (intro on_reader_eq [OF assms(1)]) simp
qed

lemma sr_get_write_eq:
  assumes "reader_on e ts r" "pointers_ok (versions e (from_raw raw)) (Some ts)"
  shows "\<exists>r'. sr_get_write r (from_raw raw) t =
      Ok (map_option fst (visible (versions e (from_raw raw)) t (Some ts)), r') \<and> reader_on e ts r'"
  unfolding sr_get_write_def
  using get_write_eq [OF reader_onD(2) [OF assms(1)], of raw "Some ts" t] reader_onD(3,4) [OF assms(1)] assms(2)
  by (intro on_reader_eq [OF assms(1)]) simp

subsection \<open>The history of a key\<close>

text \<open>
  A transaction commits at or after its start, and a rollback record is stored at the start of its
  transaction.
\<close>

definition history_ok :: "btree_engine \<Rightarrow> key \<Rightarrow> bool" where
  "history_ok e key \<longleftrightarrow>
     (\<forall>c w. records e key c = Some w \<longrightarrow> w_start_ts w \<le> c \<and> (w_write_type w = WtRollback \<longrightarrow> w_start_ts w = c))"

definition no_record :: "btree_engine \<Rightarrow> key \<Rightarrow> timestamp \<Rightarrow> bool" where
  "no_record e key s \<longleftrightarrow> (\<forall>c w. records e key c = Some w \<longrightarrow> w_start_ts w \<noteq> s)"

definition txn_record :: "btree_engine \<Rightarrow> key \<Rightarrow> timestamp \<Rightarrow> txn_commit_record" where
  "txn_record e key s = record_spec s 0 (versions e key)"

lemma find_SomeD: "find P xs = Some x \<Longrightarrow> x \<in> set xs \<and> P x"
  by (induction xs) (auto split: if_splits)

lemma history_starts: "store_ok e \<Longrightarrow> history_ok e key \<Longrightarrow> starts_before_commits (versions e key)"
  by (auto simp: starts_before_commits_def list_all_iff history_ok_def in_versions)

lemma txn_record_cases:
  assumes "store_ok e"
  shows "if no_record e key s
    then txn_record e key s =
      (case records e key s of
         Some w \<Rightarrow>
           if w_has_overlapped_rollback w then OverlappedRollback s
           else RecordNone (Some \<lparr>ow_write = w, ow_gc_fence = next_change s 0 (versions e key)\<rparr>)
       | None \<Rightarrow> RecordNone None)
    else \<exists>c w. txn_record e key s = SingleRecord c w \<and> records e key c = Some w \<and> w_start_ts w = s"
proof (cases "find (\<lambda>v. w_start_ts (snd v) = s) (versions e key)")
  case None
  then have "no_record e key s"
    using in_versions [OF assms] unfolding no_record_def find_None_iff by force
  then show ?thesis using None by (simp add: txn_record_def record_spec_def records_def)
next
  case (Some v)
  obtain c w where v: "v = (c, w)" by (cases v)
  have "(c, w) \<in> set (versions e key)" "w_start_ts w = s"
    using find_SomeD [OF Some] v by auto
  then have "records e key c = Some w" "w_start_ts w = s" using in_versions [OF assms] by auto
  moreover from this have "\<not> no_record e key s" by (auto simp: no_record_def)
  ultimately show ?thesis using Some v by (simp add: txn_record_def record_spec_def)
qed

lemma sr_txn_record:
  assumes "reader_on e s r" "history_ok e (from_raw raw)"
  shows "\<exists>r'. sr_get_txn_commit_record r (from_raw raw) = Ok (txn_record e (from_raw raw) s, r') \<and> reader_on e s r'"
  unfolding txn_record_def
  by (rule sr_get_txn_commit_record_eq [OF assms(1) history_starts [OF reader_onD(1) [OF assms(1)] assms(2)]])

lemma raw_key_from_raw [simp]: "raw_key (from_raw raw) = Ok raw"
  by (simp add: raw_key_def into_raw_eq)

end
