(* ===== verification/Txn_Status.thy ===== *)
theory Txn_Status
  imports Mvcc_Store
begin

text \<open>
  Committing, rolling back and checking a transaction on one key
  (\<^verbatim>\<open>src/storage/txn/actions/{commit,cleanup,check_txn_status}.rs\<close>). An action reads through the
  transaction's reader and appends modifications to its batch; an error ends the command, whose
  batch is dropped.
\<close>

subsection \<open>Outcomes\<close>

datatype txn_status =
    TsRolledBack
  | TsTtlExpire
  | TsLockNotExist
  | TsUncommitted lock bool
  | TsCommitted timestamp
  | TsPessimisticRollBack
  | TsLockNotExistDoNothing

definition is_decided :: "txn_status \<Rightarrow> bool" where
  "is_decided s \<longleftrightarrow>
     (case s of TsRolledBack \<Rightarrow> True | TsTtlExpire \<Rightarrow> True | TsCommitted _ \<Rightarrow> True | _ \<Rightarrow> False)"

datatype missing_lock_action = ActRollback | ActProtectedRollback | ActReturnError

type_synonym 'a action = "('a \<times> mvcc_txn \<times> snapshot_reader, mvcc_error) result"

definition rollback_protect :: "bool \<Rightarrow> missing_lock_action" where
  "rollback_protect protect_rollback = (if protect_rollback then ActProtectedRollback else ActRollback)"

definition action_rollback :: "bool \<Rightarrow> missing_lock_action" where
  "action_rollback rollback_if_not_exist =
     (if rollback_if_not_exist then ActProtectedRollback else ActReturnError)"

primrec collapse_rollback :: "missing_lock_action \<Rightarrow> (bool, mvcc_error) result" where
  "collapse_rollback ActRollback = Ok True"
| "collapse_rollback ActProtectedRollback = Ok False"
| "collapse_rollback ActReturnError = Panic"

subsection \<open>Rolling back\<close>

definition make_rollback ::
  "timestamp \<Rightarrow> bool \<Rightarrow> overlapped_write option \<Rightarrow> (write_record option, mvcc_error) result" where
  "make_rollback start_ts protected overlapped_write =
     (case overlapped_write of
        Some ow \<Rightarrow>
          assert_then (start_ts > w_start_ts (ow_write ow))
            (if protected then Ok (Some (set_overlapped_rollback (ow_write ow) True (Some (ow_gc_fence ow))))
             else Ok None)
      | None \<Rightarrow> Ok (Some (new_rollback start_ts protected)))"

definition construct_write ::
  "missing_lock_action \<Rightarrow> timestamp \<Rightarrow> overlapped_write option \<Rightarrow> (write_record option, mvcc_error) result" where
  "construct_write action ts overlapped_write =
     and_then (collapse_rollback action) (\<lambda>collapse. make_rollback ts (\<not> collapse) overlapped_write)"

definition collapse_prev_rollback ::
  "mvcc_txn \<Rightarrow> snapshot_reader \<Rightarrow> key \<Rightarrow> (mvcc_txn \<times> snapshot_reader, mvcc_error) result" where
  "collapse_prev_rollback txn r key =
     map_ok (\<lambda>(res, r).
       case res of
         Some (commit_ts, w) \<Rightarrow>
           if w_write_type w = WtRollback \<and> \<not> is_protected w then (delete_write txn key commit_ts, r) else (txn, r)
       | None \<Rightarrow> (txn, r)) (sr_seek_write r key (sr_start_ts r))"

definition put_write_opt :: "mvcc_txn \<Rightarrow> key \<Rightarrow> timestamp \<Rightarrow> write_record option \<Rightarrow> mvcc_txn" where
  "put_write_opt txn key ts w = (case w of Some w \<Rightarrow> put_write txn key ts (write_to_bytes w) | None \<Rightarrow> txn)"

definition unlock :: "mvcc_txn \<Rightarrow> snapshot_reader \<Rightarrow> key \<Rightarrow> bool \<Rightarrow> timestamp \<Rightarrow> released_lock option action" where
  "unlock txn r key pessimistic commit_ts =
     (let (released, txn) = unlock_key txn key pessimistic commit_ts in Ok (released, txn, r))"

definition rollback_lock ::
  "mvcc_txn \<Rightarrow> snapshot_reader \<Rightarrow> key \<Rightarrow> lock \<Rightarrow> bool \<Rightarrow> bool \<Rightarrow> released_lock option action" where
  "rollback_lock txn r key l pessimistic collapse =
     and_then (sr_get_txn_commit_record r key) (\<lambda>(rec, r).
       case rec of
         RecordNone overlapped_write \<Rightarrow>
           let txn = (if l_short_value l = None \<and> l_lock_type l = LtPut then delete_value txn key (l_ts l) else txn);
               protected = (key_is_encoded_from key (l_primary l) \<or> l_generation l > 0) in
           and_then (make_rollback (sr_start_ts r) protected overlapped_write) (\<lambda>w.
           let txn = put_write_opt txn key (sr_start_ts r) w in
           and_then (if collapse then collapse_prev_rollback txn r key else Ok (txn, r)) (\<lambda>(txn, r).
           unlock txn r key pessimistic ts_zero))
       | SingleRecord commit_ts w \<Rightarrow>
           if w_write_type w \<noteq> WtRollback then Panic else unlock txn r key pessimistic ts_zero
       | OverlappedRollback commit_ts \<Rightarrow> unlock txn r key pessimistic ts_zero)"

subsection \<open>The status of a transaction\<close>

definition check_determined_txn_status ::
  "snapshot_reader \<Rightarrow> key \<Rightarrow> (txn_status option \<times> snapshot_reader, mvcc_error) result" where
  "check_determined_txn_status r primary_key =
     map_ok (\<lambda>(rec, r).
       (case rec of
          SingleRecord commit_ts w \<Rightarrow>
            if w_write_type w = WtRollback then Some TsRolledBack else Some (TsCommitted commit_ts)
        | OverlappedRollback _ \<Rightarrow> Some TsRolledBack
        | RecordNone _ \<Rightarrow> None, r)) (sr_get_txn_commit_record r primary_key)"

definition check_txn_status_missing_lock ::
  "mvcc_txn \<Rightarrow> snapshot_reader \<Rightarrow> key \<Rightarrow> lock option \<Rightarrow> missing_lock_action \<Rightarrow> bool \<Rightarrow> txn_status action" where
  "check_txn_status_missing_lock txn r primary_key mismatch_lock action resolving_pessimistic_lock =
     and_then (sr_get_txn_commit_record r primary_key) (\<lambda>(rec, r).
       case rec of
         SingleRecord commit_ts w \<Rightarrow>
           if w_write_type w = WtRollback then Ok (TsRolledBack, txn, r) else Ok (TsCommitted commit_ts, txn, r)
       | OverlappedRollback _ \<Rightarrow> Ok (TsRolledBack, txn, r)
       | RecordNone overlapped_write \<Rightarrow>
           if action = ActReturnError
           then and_then (raw_key primary_key) (\<lambda>raw. Err (MvTxnNotFound (sr_start_ts r) raw))
           else if resolving_pessimistic_lock then Ok (TsLockNotExistDoNothing, txn, r)
           else
             let ts = sr_start_ts r in
             and_then (collapse_rollback action) (\<lambda>collapse.
             and_then (if collapse then collapse_prev_rollback txn r primary_key else Ok (txn, r)) (\<lambda>(txn, r).
             and_then
               (case (mismatch_lock, overlapped_write) of
                  (Some l, None) \<Rightarrow>
                    mark_rollback_on_mismatching_lock txn primary_key l (action = ActProtectedRollback)
                | _ \<Rightarrow> Ok txn) (\<lambda>txn.
             and_then (construct_write action ts overlapped_write) (\<lambda>w.
             Ok (TsLockNotExist, put_write_opt txn primary_key ts w, r))))))"

text \<open>The time to live is added to the physical part of the start timestamp and may wrap around.\<close>

definition lock_expired :: "lock \<Rightarrow> timestamp \<Rightarrow> bool" where
  "lock_expired l current_ts \<longleftrightarrow> ts_physical (l_ts l) + l_ttl l < ts_physical current_ts"

definition check_txn_status_from_pessimistic_primary_lock ::
  "mvcc_txn \<Rightarrow> snapshot_reader \<Rightarrow> key \<Rightarrow> lock \<Rightarrow> timestamp \<Rightarrow> bool \<Rightarrow>
     (txn_status option \<times> released_lock option) action" where
  "check_txn_status_from_pessimistic_primary_lock txn r primary_key l current_ts resolving_pessimistic_lock =
     assert_then (is_pessimistic_lock l)
       (and_then
          (if is_pessimistic_lock_with_conflict l then check_determined_txn_status r primary_key else Ok (None, r))
          (\<lambda>(determined, r).
             case determined of
               Some txn_status \<Rightarrow>
                 map_ok (\<lambda>(released, txn, r). ((Some txn_status, released), txn, r))
                   (unlock txn r primary_key True ts_zero)
             | None \<Rightarrow>
                 if lock_expired l current_ts
                 then
                   if resolving_pessimistic_lock
                   then map_ok (\<lambda>(released, txn, r). ((Some TsPessimisticRollBack, released), txn, r))
                          (unlock txn r primary_key True ts_zero)
                   else map_ok (\<lambda>(released, txn, r). ((Some TsTtlExpire, released), txn, r))
                          (rollback_lock txn r primary_key l True True)
                 else Ok ((None, None), txn, r)))"

text \<open>The tail of \<^verbatim>\<open>check_txn_status_lock_exists\<close>: pushing the minimum commit timestamp forward.\<close>

definition push_min_commit_ts ::
  "mvcc_txn \<Rightarrow> snapshot_reader \<Rightarrow> key \<Rightarrow> lock \<Rightarrow> timestamp \<Rightarrow> timestamp \<Rightarrow>
     (txn_status \<times> released_lock option) action" where
  "push_min_commit_ts txn r primary_key l current_ts caller_start_ts =
     and_then
       (if \<not> ts_is_zero (l_min_commit_ts l) \<and> \<not> ts_is_max caller_start_ts \<and> caller_start_ts \<ge> l_min_commit_ts l
        then
          and_then (ts_next caller_start_ts) (\<lambda>ts.
          let l = l\<lparr>l_min_commit_ts := if ts < current_ts then current_ts else ts\<rparr> in
          map_ok (\<lambda>txn. (l, txn)) (put_lock txn primary_key l False))
        else Ok (l, txn)) (\<lambda>(l, txn).
     let min_commit_ts_pushed =
           (\<not> ts_is_zero caller_start_ts \<and> l_min_commit_ts l > caller_start_ts \<or> ts_is_max caller_start_ts) in
     Ok ((TsUncommitted l min_commit_ts_pushed, None), txn, r))"

definition check_txn_status_lock_exists ::
  "mvcc_txn \<Rightarrow> snapshot_reader \<Rightarrow> key \<Rightarrow> lock \<Rightarrow> timestamp \<Rightarrow> timestamp \<Rightarrow> bool \<Rightarrow> bool \<Rightarrow> bool \<Rightarrow> bool \<Rightarrow>
     (txn_status \<times> released_lock option) action" where
  "check_txn_status_lock_exists txn r primary_key l current_ts caller_start_ts force_sync_commit
       resolving_pessimistic_lock verify_is_primary rollback_if_not_exist =
     (if verify_is_primary \<and> \<not> key_is_encoded_from primary_key (l_primary l)
      then
        if \<not> resolving_pessimistic_lock \<and> is_pessimistic_lock l
        then
          and_then (check_txn_status_missing_lock txn r primary_key None (action_rollback rollback_if_not_exist)
            resolving_pessimistic_lock) (\<lambda>(txn_status, txn, r).
          map_ok (\<lambda>(released, txn, r). ((txn_status, released), txn, r)) (unlock txn r primary_key True ts_zero))
        else and_then (raw_key primary_key) (\<lambda>raw. Err (MvPrimaryMismatch (into_lock_info l raw)))
      else if l_use_async_commit l \<and> \<not> force_sync_commit then Ok ((TsUncommitted l False, None), txn, r)
      else
        let pessimistic = (\<not> ts_is_zero (l_for_update_ts l)) in
        if is_pessimistic_lock l
        then
          and_then (check_txn_status_from_pessimistic_primary_lock txn r primary_key l current_ts
            resolving_pessimistic_lock) (\<lambda>(check_result, txn, r).
          case check_result of
            (Some txn_status, Some released) \<Rightarrow> Ok ((txn_status, Some released), txn, r)
          | _ \<Rightarrow>
              assert_then (check_result = (None, None))
                (push_min_commit_ts txn r primary_key l current_ts caller_start_ts))
        else if lock_expired l current_ts
        then map_ok (\<lambda>(released, txn, r). ((TsTtlExpire, released), txn, r))
               (rollback_lock txn r primary_key l pessimistic True)
        else push_min_commit_ts txn r primary_key l current_ts caller_start_ts)"

subsection \<open>Cleanup and commit\<close>

definition cleanup ::
  "mvcc_txn \<Rightarrow> snapshot_reader \<Rightarrow> key \<Rightarrow> timestamp \<Rightarrow> bool \<Rightarrow> released_lock option action" where
  "cleanup txn r key current_ts protect_rollback =
     and_then (sr_load_lock r key) (\<lambda>(lo, r).
       let missing =
         and_then (check_txn_status_missing_lock txn r key lo (rollback_protect protect_rollback) False)
           (\<lambda>(status, txn, r).
              case status of
                TsCommitted commit_ts \<Rightarrow>
                  and_then (raw_key key) (\<lambda>raw. Err (MvCommitted (sr_start_ts r) commit_ts raw))
              | TsRolledBack \<Rightarrow> Ok (None, txn, r)
              | TsLockNotExist \<Rightarrow> Ok (None, txn, r)
              | _ \<Rightarrow> Panic) in
       case lo of
         Some l \<Rightarrow>
           if l_ts l = sr_start_ts r
           then
             if \<not> ts_is_zero current_ts \<and> ts_physical (l_ts l) + l_ttl l \<ge> ts_physical current_ts
             then and_then (raw_key key) (\<lambda>raw. Err (MvKeyIsLocked (into_lock_info l raw)))
             else rollback_lock txn r key l (is_pessimistic_txn l) (\<not> protect_rollback)
           else missing
       | None \<Rightarrow> missing)"

definition commit_write :: "lock \<Rightarrow> timestamp \<Rightarrow> timestamp \<Rightarrow> (write_record, mvcc_error) result" where
  "commit_write l start_ts commit_ts =
     and_then (unwrap (write_type_from_lock_type (l_lock_type l))) (\<lambda>ty.
       let w = write_set_txn_source (write_set_last_change (write_new ty start_ts (l_short_value l)) (l_last_change l))
                 (l_txn_source l) in
       Ok (if commit_ts \<in> set (l_rollback_ts l) then set_overlapped_rollback w True None else w))"

definition commit ::
  "mvcc_txn \<Rightarrow> snapshot_reader \<Rightarrow> key \<Rightarrow> timestamp \<Rightarrow> released_lock option action" where
  "commit txn r key commit_ts =
     and_then (sr_load_lock r key) (\<lambda>(lo, r).
       let missing =
         and_then (sr_get_txn_commit_record r key) (\<lambda>(rec, r).
           case record_info rec of
             Some (_, ty) \<Rightarrow>
               if ty = WtRollback
               then and_then (raw_key key) (\<lambda>raw. Err (MvTxnLockNotFound (sr_start_ts r) commit_ts raw))
               else Ok (None, txn, r)
           | None \<Rightarrow> and_then (raw_key key) (\<lambda>raw. Err (MvTxnLockNotFound (sr_start_ts r) commit_ts raw))) in
       case lo of
         Some l \<Rightarrow>
           if l_ts l = sr_start_ts r
           then
             if commit_ts < l_min_commit_ts l
             then and_then (raw_key key) (\<lambda>raw.
                    Err (MvCommitTsExpired (sr_start_ts r) commit_ts raw (l_min_commit_ts l)))
             else if is_pessimistic_lock l
             then unlock txn r key (is_pessimistic_txn l) ts_zero
             else
               and_then (commit_write l (sr_start_ts r) commit_ts) (\<lambda>w.
               unlock (put_write txn key commit_ts (write_to_bytes w)) r key (is_pessimistic_txn l) commit_ts)
           else missing
       | None \<Rightarrow> missing)"

subsection \<open>What the actions do to the batch\<close>

lemma mvcc_txn_new_sel [simp]: "t_modifies (mvcc_txn_new s) = []" "t_start_ts (mvcc_txn_new s) = s"
  by (simp_all add: mvcc_txn_new_def)

lemma unlock_eq:
  "unlock txn r key pessimistic commit_ts =
     Ok (Some \<lparr>rl_start_ts = t_start_ts txn, rl_commit_ts = commit_ts, rl_key = key, rl_pessimistic = pessimistic\<rparr>,
         push_delete txn CF_LOCK key, r)"
  by (simp add: unlock_def unlock_key_def)

definition collapsed :: "btree_engine \<Rightarrow> key \<Rightarrow> timestamp \<Rightarrow> modify list" where
  "collapsed e key s =
     (case latest (versions e key) s of
        Some (c, w) \<Rightarrow>
          if w_write_type w = WtRollback \<and> \<not> is_protected w then [ModDelete CF_WRITE (append_ts key c)] else []
      | None \<Rightarrow> [])"

lemma collapse_prev_rollback_eq:
  assumes "reader_on e s r"
  shows "\<exists>txn' r'. collapse_prev_rollback txn r (from_raw raw) = Ok (txn', r') \<and> reader_on e s r' \<and>
    t_modifies txn' = t_modifies txn @ collapsed e (from_raw raw) s \<and> t_start_ts txn' = t_start_ts txn"
  using sr_seek_write_eq [OF assms, of raw s] reader_onD(4) [OF assms]
  by (auto simp: collapse_prev_rollback_def collapsed_def delete_write_def split: option.splits prod.splits)

definition opt_put :: "key \<Rightarrow> timestamp \<Rightarrow> write_record option \<Rightarrow> modify list" where
  "opt_put key ts w = (case w of Some w \<Rightarrow> [ModPut CF_WRITE (append_ts key ts) (write_to_bytes w)] | None \<Rightarrow> [])"

lemma put_write_opt_eq [simp]:
  "t_modifies (put_write_opt txn key ts w) = t_modifies txn @ opt_put key ts w"
  "t_start_ts (put_write_opt txn key ts w) = t_start_ts txn"
  by (simp_all add: put_write_opt_def opt_put_def put_write_def split: option.splits)

text \<open>What a rollback of the transaction writes: nothing over an unprotected overlap.\<close>

definition rollback_write :: "btree_engine \<Rightarrow> key \<Rightarrow> timestamp \<Rightarrow> bool \<Rightarrow> write_record option" where
  "rollback_write e key s protected =
     (case records e key s of
        Some w \<Rightarrow> if protected then Some (set_overlapped_rollback w True (Some (next_change s 0 (versions e key)))) else None
      | None \<Rightarrow> Some (new_rollback s protected))"

definition overlap :: "btree_engine \<Rightarrow> key \<Rightarrow> timestamp \<Rightarrow> overlapped_write option" where
  "overlap e key s =
     map_option (\<lambda>w. \<lparr>ow_write = w, ow_gc_fence = next_change s 0 (versions e key)\<rparr>) (records e key s)"

lemma txn_record_none:
  assumes "store_ok e" "txn_record e key s = RecordNone ow"
  shows "no_record e key s \<and> ow = overlap e key s"
  using txn_record_cases [OF assms(1), of key s] assms(2)
  by (auto simp: overlap_def split: if_splits option.splits)

lemma make_rollback_eq:
  assumes "history_ok e key" "no_record e key s"
  shows "make_rollback s protected (overlap e key s) = Ok (rollback_write e key s protected)"
proof (cases "records e key s")
  case (Some w)
  then have "w_start_ts w < s" using assms by (fastforce simp: history_ok_def no_record_def le_less)
  then show ?thesis using Some by (simp add: make_rollback_def rollback_write_def overlap_def assert_then_def)
qed (simp add: make_rollback_def rollback_write_def overlap_def)

definition lock_protected :: "key \<Rightarrow> lock \<Rightarrow> bool" where
  "lock_protected key l \<longleftrightarrow> key_is_encoded_from key (l_primary l) \<or> l_generation l > 0"

definition rollback_modifies :: "btree_engine \<Rightarrow> key \<Rightarrow> timestamp \<Rightarrow> lock \<Rightarrow> bool \<Rightarrow> modify list" where
  "rollback_modifies e key s l collapse =
     (case txn_record e key s of
        RecordNone _ \<Rightarrow>
          (if l_short_value l = None \<and> l_lock_type l = LtPut then [ModDelete CF_DEFAULT (append_ts key (l_ts l))] else []) @
          opt_put key s (rollback_write e key s (lock_protected key l)) @
          (if collapse then collapsed e key s else [])
      | _ \<Rightarrow> []) @ [ModDelete CF_LOCK key]"

lemma rollback_lock_eq:
  assumes "reader_on e s r" "history_ok e (from_raw raw)"
  shows "if \<exists>c w. txn_record e (from_raw raw) s = SingleRecord c w \<and> w_write_type w \<noteq> WtRollback
    then rollback_lock txn r (from_raw raw) l pessimistic collapse = Panic
    else \<exists>released txn' r'. rollback_lock txn r (from_raw raw) l pessimistic collapse = Ok (Some released, txn', r') \<and>
      reader_on e s r' \<and> t_start_ts txn' = t_start_ts txn \<and>
      t_modifies txn' = t_modifies txn @ rollback_modifies e (from_raw raw) s l collapse"
proof -
  let ?key = "from_raw raw"
  obtain r1 where r1: "sr_get_txn_commit_record r ?key = Ok (txn_record e ?key s, r1)" "reader_on e s r1"
    using sr_txn_record [OF assms] by blast
  show ?thesis
  proof (cases "txn_record e ?key s")
    case (RecordNone ow)
    have ow: "no_record e ?key s" "ow = overlap e ?key s"
      using txn_record_none [OF reader_onD(1) [OF assms(1)] RecordNone] by auto
    let ?txn1 = "if l_short_value l = None \<and> l_lock_type l = LtPut then delete_value txn ?key (l_ts l) else txn"
    let ?txn2 = "put_write_opt ?txn1 ?key s (rollback_write e ?key s (lock_protected ?key l))"
    obtain txn3 r3 where c: "(if collapse then collapse_prev_rollback ?txn2 r1 ?key else Ok (?txn2, r1)) = Ok (txn3, r3)"
      "reader_on e s r3" "t_modifies txn3 = t_modifies ?txn2 @ (if collapse then collapsed e ?key s else [])"
      "t_start_ts txn3 = t_start_ts ?txn2"
      using collapse_prev_rollback_eq [OF r1(2), of ?txn2 raw] r1(2) by (cases collapse) auto
    have "rollback_lock txn r ?key l pessimistic collapse = unlock txn3 r3 ?key pessimistic ts_zero"
      using r1(1) RecordNone make_rollback_eq [OF assms(2) ow(1)] ow(2) reader_onD(4) [OF r1(2)]
      by (simp add: rollback_lock_def Let_def lock_protected_def [symmetric] c(1) cong: if_cong split del: if_split)
    then show ?thesis
      using RecordNone c(2-4) by (auto simp: unlock_eq rollback_modifies_def delete_value_def)
  next
    case (SingleRecord c w)
    then show ?thesis using r1 by (auto simp: rollback_lock_def unlock_eq rollback_modifies_def)
  next
    case (OverlappedRollback c)
    then show ?thesis using r1 by (auto simp: rollback_lock_def unlock_eq rollback_modifies_def)
  qed
qed

definition marked :: "key \<Rightarrow> timestamp \<Rightarrow> lock option \<Rightarrow> bool \<Rightarrow> modify list" where
  "marked key s lo protected =
     (case lo of
        Some l \<Rightarrow>
          if protected \<and> l_min_commit_ts l \<le> s \<and> l_use_async_commit l
          then [ModPut CF_LOCK key (lock_to_bytes (l\<lparr>l_rollback_ts := l_rollback_ts l @ [s]\<rparr>))] else []
      | None \<Rightarrow> [])"

lemma mark_rollback_eq:
  assumes "l_ts l \<noteq> t_start_ts txn"
  shows "\<exists>txn'. mark_rollback_on_mismatching_lock txn key l protected = Ok txn' \<and> t_start_ts txn' = t_start_ts txn \<and>
    t_modifies txn' = t_modifies txn @ marked key (t_start_ts txn) (Some l) protected"
  using assms
  by (auto simp: mark_rollback_on_mismatching_lock_def put_lock_def push_new_lock_def marked_def assert_then_def)

definition missing_modifies :: "btree_engine \<Rightarrow> key \<Rightarrow> timestamp \<Rightarrow> lock option \<Rightarrow> bool \<Rightarrow> modify list" where
  "missing_modifies e key s lo protected =
     (if protected then [] else collapsed e key s) @
     (if records e key s = None then marked key s lo protected else []) @
     opt_put key s (rollback_write e key s protected)"

definition determined :: "txn_commit_record \<Rightarrow> txn_status option" where
  "determined rec =
     (case rec of
        SingleRecord c w \<Rightarrow> Some (if w_write_type w = WtRollback then TsRolledBack else TsCommitted c)
      | OverlappedRollback _ \<Rightarrow> Some TsRolledBack
      | RecordNone _ \<Rightarrow> None)"

lemma check_determined_eq:
  assumes "reader_on e s r" "history_ok e (from_raw raw)"
  shows "\<exists>r'. check_determined_txn_status r (from_raw raw) =
    Ok (determined (txn_record e (from_raw raw) s), r') \<and> reader_on e s r'"
  using sr_txn_record [OF assms]
  by (auto simp: check_determined_txn_status_def determined_def split: txn_commit_record.splits)

lemma missing_lock_eq:
  assumes "reader_on e s r" "history_ok e (from_raw raw)" "t_start_ts txn = s" "\<And>l. lo = Some l \<Longrightarrow> l_ts l \<noteq> s"
  shows "\<exists>txn' r'. check_txn_status_missing_lock txn r (from_raw raw) lo (rollback_protect protected) False =
      Ok (case determined (txn_record e (from_raw raw) s) of Some st \<Rightarrow> st | None \<Rightarrow> TsLockNotExist, txn', r') \<and>
    reader_on e s r' \<and> t_start_ts txn' = s \<and>
    t_modifies txn' = t_modifies txn @
      (if determined (txn_record e (from_raw raw) s) = None then missing_modifies e (from_raw raw) s lo protected else [])"
proof -
  let ?key = "from_raw raw" and ?act = "rollback_protect protected"
  obtain r1 where r1: "sr_get_txn_commit_record r ?key = Ok (txn_record e ?key s, r1)" "reader_on e s r1"
    using sr_txn_record [OF assms(1,2)] by blast
  show ?thesis
  proof (cases "txn_record e ?key s")
    case (RecordNone ow)
    have ow: "no_record e ?key s" "ow = overlap e ?key s"
      using txn_record_none [OF reader_onD(1) [OF assms(1)] RecordNone] by auto
    have act: "?act \<noteq> ActReturnError" "collapse_rollback ?act = Ok (\<not> protected)" "?act = ActProtectedRollback \<longleftrightarrow> protected"
      by (simp_all add: rollback_protect_def)
    obtain txn2 r2 where c: "(if \<not> protected then collapse_prev_rollback txn r1 ?key else Ok (txn, r1)) = Ok (txn2, r2)"
      "reader_on e s r2" "t_modifies txn2 = t_modifies txn @ (if protected then [] else collapsed e ?key s)"
      "t_start_ts txn2 = s"
      using collapse_prev_rollback_eq [OF r1(2), of txn raw] r1(2) assms(3) by (cases protected) auto
    obtain txn3 where m: "(case (lo, ow) of
          (Some l, None) \<Rightarrow> mark_rollback_on_mismatching_lock txn2 ?key l (?act = ActProtectedRollback)
        | _ \<Rightarrow> Ok txn2) = Ok txn3" "t_start_ts txn3 = s"
      "t_modifies txn3 = t_modifies txn2 @ (if records e ?key s = None then marked ?key s lo protected else [])"
    proof (cases lo)
      case None
      then show ?thesis using c(4) by (intro that [of txn2]) (auto simp: marked_def)
    next
      case (Some l)
      then show ?thesis
        using mark_rollback_eq [of l txn2 ?key protected] assms(4) c(4) ow(2) that
        by (cases "records e ?key s") (auto simp: overlap_def act(3))
    qed
    have w: "construct_write ?act s ow = Ok (rollback_write e ?key s protected)"
      using make_rollback_eq [OF assms(2) ow(1)] by (simp add: construct_write_def act(2) ow(2))
    have "check_txn_status_missing_lock txn r ?key lo ?act False =
        Ok (TsLockNotExist, put_write_opt txn3 ?key s (rollback_write e ?key s protected), r2)"
      using r1(1) RecordNone act(1) reader_onD(4) [OF r1(2)]
      by (simp add: check_txn_status_missing_lock_def act(2) c(1) m(1) [simplified] w split del: if_split)
    then show ?thesis
      using RecordNone c(2,3) m(2,3) by (auto simp: determined_def missing_modifies_def)
  next
    case (SingleRecord c w)
    then show ?thesis using r1 assms(3) by (auto simp: check_txn_status_missing_lock_def determined_def)
  next
    case (OverlappedRollback c)
    then show ?thesis using r1 assms(3) by (auto simp: check_txn_status_missing_lock_def determined_def)
  qed
qed

definition own_lock :: "btree_engine \<Rightarrow> key \<Rightarrow> timestamp \<Rightarrow> lock option" where
  "own_lock e key s =
     (case stored_lock e key of Some l \<Rightarrow> if l_ts l = s then Some l else None | None \<Rightarrow> None)"

definition committed_write :: "lock \<Rightarrow> timestamp \<Rightarrow> timestamp \<Rightarrow> write_record" where
  "committed_write l s cts =
     \<lparr>w_write_type = (case write_type_from_lock_type (l_lock_type l) of Some ty \<Rightarrow> ty | None \<Rightarrow> WtLock),
      w_start_ts = s, w_short_value = l_short_value l,
      w_has_overlapped_rollback = (cts \<in> set (l_rollback_ts l)), w_gc_fence = None,
      w_last_change = l_last_change l, w_txn_source = l_txn_source l\<rparr>"

lemma commit_write_eq: "\<not> is_pessimistic_lock l \<Longrightarrow> commit_write l s cts = Ok (committed_write l s cts)"
  by (cases "l_lock_type l")
    (auto simp: commit_write_def committed_write_def is_pessimistic_lock_def write_new_def
      write_set_last_change_def write_set_txn_source_def set_overlapped_rollback_def Let_def)

lemma commit_own:
  assumes "reader_on e s r" "own_lock e (from_raw raw) s = Some l"
  shows "if cts < l_min_commit_ts l
    then commit txn r (from_raw raw) cts = Err (MvCommitTsExpired s cts raw (l_min_commit_ts l))
    else \<exists>released txn' r'. commit txn r (from_raw raw) cts = Ok (Some released, txn', r') \<and> reader_on e s r' \<and>
      t_modifies txn' = t_modifies txn @
        (if is_pessimistic_lock l then []
         else [ModPut CF_WRITE (append_ts (from_raw raw) cts) (write_to_bytes (committed_write l s cts))]) @
        [ModDelete CF_LOCK (from_raw raw)]"
proof -
  have l: "stored_lock e (from_raw raw) = Some l" "l_ts l = s"
    using assms(2) by (auto simp: own_lock_def split: option.splits if_splits)
  obtain r1 where "sr_load_lock r (from_raw raw) = Ok (Some l, r1)" "reader_on e s r1"
    using sr_load_lock_eq [OF assms(1), of "from_raw raw"] l(1) by auto
  then show ?thesis
    using l(2) reader_onD(4) [of e s r1] commit_write_eq [of l s cts]
    by (auto simp: commit_def Let_def unlock_eq put_write_def)
qed

lemma commit_other:
  assumes "reader_on e s r" "history_ok e (from_raw raw)" "own_lock e (from_raw raw) s = None"
  shows "case determined (txn_record e (from_raw raw) s) of
      Some (TsCommitted c) \<Rightarrow> \<exists>r'. commit txn r (from_raw raw) cts = Ok (None, txn, r') \<and> reader_on e s r'
    | _ \<Rightarrow> commit txn r (from_raw raw) cts = Err (MvTxnLockNotFound s cts raw)"
proof -
  obtain r1 where r1: "sr_load_lock r (from_raw raw) = Ok (stored_lock e (from_raw raw), r1)" "reader_on e s r1"
    using sr_load_lock_eq [OF assms(1), of "from_raw raw"] by auto
  obtain r2 where r2: "sr_get_txn_commit_record r1 (from_raw raw) = Ok (txn_record e (from_raw raw) s, r2)" "reader_on e s r2"
    using sr_txn_record [OF r1(2) assms(2)] by blast
  have "commit txn r (from_raw raw) cts =
      (case record_info (txn_record e (from_raw raw) s) of
         Some (_, ty) \<Rightarrow> if ty = WtRollback then Err (MvTxnLockNotFound s cts raw) else Ok (None, txn, r2)
       | None \<Rightarrow> Err (MvTxnLockNotFound s cts raw))"
    using r1(1) r2(1) assms(3) reader_onD(4) [OF r1(2)] reader_onD(4) [OF r2(2)]
    by (cases "stored_lock e (from_raw raw)")
      (auto simp: commit_def Let_def own_lock_def split: option.splits if_splits)
  then show ?thesis
    using r2(2) by (cases "txn_record e (from_raw raw) s") (auto simp: determined_def)
qed

lemma cleanup_own:
  assumes "reader_on e s r" "history_ok e (from_raw raw)" "own_lock e (from_raw raw) s = Some l"
  shows "if \<not> ts_is_zero cur \<and> ts_physical (l_ts l) + l_ttl l \<ge> ts_physical cur
    then cleanup txn r (from_raw raw) cur protect = Err (MvKeyIsLocked (into_lock_info l raw))
    else if \<exists>c w. txn_record e (from_raw raw) s = SingleRecord c w \<and> w_write_type w \<noteq> WtRollback
    then cleanup txn r (from_raw raw) cur protect = Panic
    else \<exists>released txn' r'. cleanup txn r (from_raw raw) cur protect = Ok (Some released, txn', r') \<and>
      reader_on e s r' \<and>
      t_modifies txn' = t_modifies txn @ rollback_modifies e (from_raw raw) s l (\<not> protect)"
proof -
  have l: "stored_lock e (from_raw raw) = Some l" "l_ts l = s"
    using assms(3) by (auto simp: own_lock_def split: option.splits if_splits)
  obtain r1 where r1: "sr_load_lock r (from_raw raw) = Ok (Some l, r1)" "reader_on e s r1"
    using sr_load_lock_eq [OF assms(1), of "from_raw raw"] l(1) by auto
  have "cleanup txn r (from_raw raw) cur protect =
      (if \<not> ts_is_zero cur \<and> ts_physical (l_ts l) + l_ttl l \<ge> ts_physical cur
       then Err (MvKeyIsLocked (into_lock_info l raw))
       else rollback_lock txn r1 (from_raw raw) l (is_pessimistic_txn l) (\<not> protect))"
    using r1 l(2) reader_onD(4) [OF r1(2)] by (simp add: cleanup_def Let_def)
  then show ?thesis
    using rollback_lock_eq [OF r1(2) assms(2), of txn l "is_pessimistic_txn l" "\<not> protect"]
    by (auto split: if_splits)
qed

lemma cleanup_other:
  assumes "reader_on e s r" "history_ok e (from_raw raw)" "own_lock e (from_raw raw) s = None" "t_start_ts txn = s"
  shows "case determined (txn_record e (from_raw raw) s) of
      Some (TsCommitted c) \<Rightarrow> cleanup txn r (from_raw raw) cur protect = Err (MvCommitted s c raw)
    | d \<Rightarrow> \<exists>txn' r'. cleanup txn r (from_raw raw) cur protect = Ok (None, txn', r') \<and> reader_on e s r' \<and>
        t_modifies txn' = t_modifies txn @
          (if d = None then missing_modifies e (from_raw raw) s (stored_lock e (from_raw raw)) protect else [])"
proof -
  let ?lo = "stored_lock e (from_raw raw)"
  obtain r1 where r1: "sr_load_lock r (from_raw raw) = Ok (?lo, r1)" "reader_on e s r1"
    using sr_load_lock_eq [OF assms(1), of "from_raw raw"] by auto
  have lo: "\<And>l. ?lo = Some l \<Longrightarrow> l_ts l \<noteq> s" using assms(3) by (auto simp: own_lock_def)
  obtain txn' r' where m: "check_txn_status_missing_lock txn r1 (from_raw raw) ?lo (rollback_protect protect) False =
      Ok (case determined (txn_record e (from_raw raw) s) of Some st \<Rightarrow> st | None \<Rightarrow> TsLockNotExist, txn', r')"
    "reader_on e s r'" "t_modifies txn' = t_modifies txn @
      (if determined (txn_record e (from_raw raw) s) = None then missing_modifies e (from_raw raw) s ?lo protect else [])"
    using missing_lock_eq [OF r1(2) assms(2,4) lo, where protected = protect] by blast
  have "cleanup txn r (from_raw raw) cur protect =
      and_then (check_txn_status_missing_lock txn r1 (from_raw raw) ?lo (rollback_protect protect) False)
        (\<lambda>(status, txn, r).
           case status of
             TsCommitted commit_ts \<Rightarrow>
               and_then (raw_key (from_raw raw)) (\<lambda>raw. Err (MvCommitted (sr_start_ts r) commit_ts raw))
           | TsRolledBack \<Rightarrow> Ok (None, txn, r)
           | TsLockNotExist \<Rightarrow> Ok (None, txn, r)
           | _ \<Rightarrow> Panic)"
    using r1 lo reader_onD(4) [OF r1(2)] by (cases ?lo) (simp_all add: cleanup_def Let_def)
  then show ?thesis
    using m reader_onD(4) [OF m(2)]
    by (cases "txn_record e (from_raw raw) s") (auto simp: determined_def)
qed

subsection \<open>The store after a batch\<close>

lemma write_modifies_map:
  assumes "engine_wf e" "write_modifies e ms = Ok e'"
  shows "engine_map e' = fold apply_modify ms (engine_map e)"
  using write_modifies_eq [OF assms(1), of ms] assms(2) by (auto split: if_splits)

lemma apply_modify_origin:
  "apply_modify m M CF_WRITE k = Some v \<Longrightarrow> M CF_WRITE k = Some v \<or> m = ModPut CF_WRITE k v"
  "apply_modify m M CF_LOCK k = Some v \<Longrightarrow>
     M CF_LOCK k = Some v \<or> m = ModPut CF_LOCK k v \<or> (\<exists>l. m = ModPessimisticLock k l)"
  by (cases m; auto simp: apply_modify_def split: if_splits)+

lemma fold_write_origin:
  "fold apply_modify ms M CF_WRITE k = Some v \<Longrightarrow> M CF_WRITE k = Some v \<or> ModPut CF_WRITE k v \<in> set ms"
proof (induction ms arbitrary: M)
  case (Cons m ms)
  then show ?case using apply_modify_origin(1) [of m M k v] Cons.IH [of "apply_modify m M"] by auto
qed simp

lemma fold_lock_origin:
  "fold apply_modify ms M CF_LOCK k = Some v \<Longrightarrow>
     M CF_LOCK k = Some v \<or> ModPut CF_LOCK k v \<in> set ms \<or> (\<exists>l. ModPessimisticLock k l \<in> set ms)"
proof (induction ms arbitrary: M)
  case (Cons m ms)
  then show ?case using apply_modify_origin(2) [of m M k v] Cons.IH [of "apply_modify m M"] by auto
qed simp

lemma record_origin:
  assumes "store_ok e" "store_ok e'" "engine_map e' = fold apply_modify ms (engine_map e)" "records e' key c = Some w"
  shows "records e key c = Some w \<or> (\<exists>v. ModPut CF_WRITE (append_ts key c) v \<in> set ms \<and> write_parse v = Ok w)"
proof -
  obtain v where v: "engine_map e' CF_WRITE (append_ts key c) = Some v" "write_parse v = Ok w"
    using assms(4) unfolding records_eq [OF assms(2)] by (auto split: option.splits result.splits)
  then have "engine_map e CF_WRITE (append_ts key c) = Some v \<or> ModPut CF_WRITE (append_ts key c) v \<in> set ms"
    using fold_write_origin [of ms "engine_map e"] assms(3) by simp
  then show ?thesis using v(2) unfolding records_eq [OF assms(1)] by auto
qed

lemma rollback_write_ok:
  assumes "store_ok e" "history_ok e key" "no_record e key s" "rollback_write e key s protected = Some w"
  shows "w_start_ts w \<le> s \<and> (w_write_type w = WtRollback \<longleftrightarrow> w_start_ts w = s) \<and> write_wf w"
proof (cases "records e key s")
  case None
  then show ?thesis
    using assms(4)
    by (auto simp: rollback_write_def new_rollback_def write_wf_def is_short_value_def
        PROTECTED_ROLLBACK_SHORT_VALUE_def SHORT_VALUE_MAX_LEN_def Let_def)
next
  case (Some w0)
  then have w: "w = set_overlapped_rollback w0 True (Some (next_change s 0 (versions e key)))"
    using assms(4) by (simp add: rollback_write_def split: if_splits)
  have "w_start_ts w0 \<le> s" "w_write_type w0 = WtRollback \<longrightarrow> w_start_ts w0 = s" "w_start_ts w0 \<noteq> s"
    using assms(2,3) Some by (auto simp: history_ok_def no_record_def)
  then show ?thesis
    using records_wf [OF assms(1) Some] unfolding w by (auto simp: set_overlapped_rollback_def write_wf_def)
qed

definition only_rollback_puts :: "btree_engine \<Rightarrow> key \<Rightarrow> timestamp \<Rightarrow> modify list \<Rightarrow> bool" where
  "only_rollback_puts e key s ms \<longleftrightarrow>
     (\<forall>k v. ModPut CF_WRITE k v \<in> set ms \<longrightarrow>
        (\<exists>p w. rollback_write e key s p = Some w \<and> k = append_ts key s \<and> v = write_to_bytes w))"

lemma only_rollback_puts:
  "only_rollback_puts e key s (rollback_modifies e key s l collapse)"
  "only_rollback_puts e key s (missing_modifies e key s lo protected)"
proof -
  have o: "ModPut CF_WRITE k v \<in> set (opt_put key s w) \<longleftrightarrow>
      (\<exists>w'. w = Some w' \<and> k = append_ts key s \<and> v = write_to_bytes w')" for k v w
    by (auto simp: opt_put_def split: option.splits)
  have c: "ModPut CF_WRITE k v \<notin> set (collapsed e key s)" "ModPut CF_WRITE k v \<notin> set (marked key s lo protected)" for k v
    by (auto simp: collapsed_def marked_def split: option.splits)
  show "only_rollback_puts e key s (rollback_modifies e key s l collapse)"
    unfolding only_rollback_puts_def rollback_modifies_def
    by (cases "txn_record e key s") (auto simp: o c split: if_splits)
  show "only_rollback_puts e key s (missing_modifies e key s lo protected)"
    unfolding only_rollback_puts_def missing_modifies_def by (auto simp: o c split: if_splits)
qed

lemma after_rollback:
  assumes "store_ok e" "history_ok e key" "no_record e key s" "store_ok e'" "only_rollback_puts e key s ms"
    "engine_map e' = fold apply_modify ms (engine_map e)"
  shows "history_ok e' key \<and> (\<forall>c w. records e' key c = Some w \<and> w_start_ts w = s \<longrightarrow> w_write_type w = WtRollback)"
proof -
  have "w_start_ts w \<le> c \<and> (w_write_type w = WtRollback \<longrightarrow> w_start_ts w = c) \<and>
      (w_start_ts w = s \<longrightarrow> w_write_type w = WtRollback)" if "records e' key c = Some w" for c w
    using record_origin [OF assms(1,4,6) that]
  proof
    assume "records e key c = Some w"
    then show ?thesis using assms(2,3) by (auto simp: history_ok_def no_record_def)
  next
    assume "\<exists>v. ModPut CF_WRITE (append_ts key c) v \<in> set ms \<and> write_parse v = Ok w"
    then obtain p w' where "rollback_write e key s p = Some w'" "c = s" "write_parse (write_to_bytes w') = Ok w"
      using assms(5) unfolding only_rollback_puts_def by force
    then show ?thesis
      using rollback_write_ok [OF assms(1-3), of p w'] by (auto simp: write_parse_to_bytes)
  qed
  then show ?thesis by (auto simp: history_ok_def)
qed

lemma rolled_back_record:
  assumes "store_ok e" "\<forall>c w. records e key c = Some w \<and> w_start_ts w = s \<longrightarrow> w_write_type w = WtRollback"
  shows "determined (txn_record e key s) \<noteq> Some (TsCommitted c)"
  using txn_record_cases [OF assms(1), of key s] assms(2)
  by (auto simp: determined_def split: if_splits option.splits)

subsection \<open>Every batch keeps the store well formed\<close>

lemma store_modify_ok_simps [simp]:
  "store_modify_ok (ModDelete CF_WRITE k)" "store_modify_ok (ModDelete CF_LOCK k)" "store_modify_ok (ModDelete CF_DEFAULT k)"
  "store_modify_ok (ModPut CF_DEFAULT k v)" "store_modify_ok (ModPut CF_LOCK k v) \<longleftrightarrow> lock_value_ok v"
  "store_modify_ok (ModPut CF_WRITE k v) \<longleftrightarrow> write_entry_ok (k, v)"
  by (simp_all add: store_modify_ok_def)

lemma write_entry_okI [intro]: "write_wf w \<Longrightarrow> write_entry_ok (append_ts (from_raw raw) c, write_to_bytes w)"
  by (auto simp: write_entry_ok_def)

definition room_for_rollback_ts :: "btree_engine \<Rightarrow> key \<Rightarrow> bool" where
  "room_for_rollback_ts e key \<longleftrightarrow>
     (case stored_lock e key of Some l \<Rightarrow> length (l_rollback_ts l) < 2 ^ 60 - 2 | None \<Rightarrow> True)"

lemma rollback_put_ok:
  assumes "store_ok e" "history_ok e (from_raw raw)" "no_record e (from_raw raw) s"
  shows "list_all store_modify_ok (opt_put (from_raw raw) s (rollback_write e (from_raw raw) s protected))"
  using rollback_write_ok [OF assms, of protected] by (auto simp: opt_put_def split: option.splits)

lemma rollback_modifies_ok:
  assumes "store_ok e" "history_ok e (from_raw raw)"
  shows "list_all store_modify_ok (rollback_modifies e (from_raw raw) s l collapse)"
proof (cases "txn_record e (from_raw raw) s")
  case (RecordNone ow)
  then have "no_record e (from_raw raw) s" using txn_record_none [OF assms(1)] by blast
  from rollback_put_ok [OF assms this] RecordNone show ?thesis
    by (auto simp: rollback_modifies_def collapsed_def split: option.splits)
qed (simp_all add: rollback_modifies_def)

lemma missing_modifies_ok:
  assumes "store_ok e" "history_ok e (from_raw raw)" "no_record e (from_raw raw) s"
    "room_for_rollback_ts e (from_raw raw)"
  shows "list_all store_modify_ok (missing_modifies e (from_raw raw) s (stored_lock e (from_raw raw)) protected)"
proof -
  have "lock_value_ok (lock_to_bytes (l\<lparr>l_rollback_ts := l_rollback_ts l @ [s]\<rparr>))"
    if "stored_lock e (from_raw raw) = Some l" for l
    using stored_lock_wf [OF assms(1) that] assms(4) that
    by (auto simp: lock_value_ok_def lock_wf_def room_for_rollback_ts_def intro!: exI [of _ "l\<lparr>l_rollback_ts := l_rollback_ts l @ [s]\<rparr>"])
  then show ?thesis
    using rollback_put_ok [OF assms(1-3), of protected]
    by (auto simp: missing_modifies_def collapsed_def marked_def split: option.splits)
qed

lemma committed_write_wf: "lock_wf l \<Longrightarrow> write_wf (committed_write l s cts)"
  by (simp add: lock_wf_def write_wf_def committed_write_def)

lemma cleanup_batch:
  assumes r: "reader_on e s r" and h: "history_ok e (from_raw raw)" and room: "room_for_rollback_ts e (from_raw raw)"
    and c: "cleanup (mvcc_txn_new s) r (from_raw raw) cur protect = Ok (res, txn, r')"
  shows "list_all store_modify_ok (t_modifies txn) \<and>
    only_rollback_puts e (from_raw raw) s (t_modifies txn) \<and>
    (\<forall>c. determined (txn_record e (from_raw raw) s) \<noteq> Some (TsCommitted c)) \<and>
    (determined (txn_record e (from_raw raw) s) \<noteq> None \<longrightarrow>
       t_modifies txn = [] \<or> t_modifies txn = [ModDelete CF_LOCK (from_raw raw)]) \<and>
    (own_lock e (from_raw raw) s \<noteq> None \<longrightarrow> (\<exists>ms. t_modifies txn = ms @ [ModDelete CF_LOCK (from_raw raw)])) \<and>
    (\<forall>v. ModPut CF_LOCK (from_raw raw) v \<in> set (t_modifies txn) \<longrightarrow>
       (\<exists>l. stored_lock e (from_raw raw) = Some l \<and> l_ts l \<noteq> s \<and> v = lock_to_bytes (l\<lparr>l_rollback_ts := l_rollback_ts l @ [s]\<rparr>))) \<and>
    (\<forall>l. ModPessimisticLock (from_raw raw) l \<notin> set (t_modifies txn))"
proof (cases "own_lock e (from_raw raw) s")
  case (Some l)
  let ?R = "rollback_modifies e (from_raw raw) s l (\<not> protect)"
  have m: "t_modifies txn = ?R" "\<not> (\<exists>c w. txn_record e (from_raw raw) s = SingleRecord c w \<and> w_write_type w \<noteq> WtRollback)"
    using cleanup_own [OF r h Some, of cur "mvcc_txn_new s" protect] c by (auto split: if_splits)
  have "ModPut CF_LOCK k v \<notin> set ?R \<and> ModPessimisticLock k pl \<notin> set ?R" for k v pl
    by (auto simp: rollback_modifies_def opt_put_def collapsed_def split: txn_commit_record.splits option.splits)
  then show ?thesis
    using Some m rollback_modifies_ok [OF reader_onD(1) [OF r] h, of s l "\<not> protect"] only_rollback_puts(1) [of e "from_raw raw" s l "\<not> protect"]
    by (auto simp: determined_def rollback_modifies_def split: txn_commit_record.splits if_splits)
next
  case None
  let ?d = "determined (txn_record e (from_raw raw) s)" and ?lo = "stored_lock e (from_raw raw)"
  let ?M = "missing_modifies e (from_raw raw) s ?lo protect"
  have m: "t_modifies txn = (if ?d = None then ?M else [])" "?d \<noteq> Some (TsCommitted c)" for c
    using cleanup_other [OF r h None, of "mvcc_txn_new s" cur protect] \<open>cleanup _ _ _ _ _ = _\<close>
    by (auto split: option.splits txn_status.splits)
  have n: "?d = None \<Longrightarrow> no_record e (from_raw raw) s"
    using txn_record_none [OF reader_onD(1) [OF r]] by (auto simp: determined_def split: txn_commit_record.splits)
  have l: "ModPut CF_LOCK (from_raw raw) v \<in> set ?M \<Longrightarrow>
      \<exists>l. ?lo = Some l \<and> l_ts l \<noteq> s \<and> v = lock_to_bytes (l\<lparr>l_rollback_ts := l_rollback_ts l @ [s]\<rparr>)"
    "ModPessimisticLock k pl \<notin> set ?M" for v k pl
    using None
    by (auto simp: missing_modifies_def opt_put_def collapsed_def marked_def own_lock_def
        split: option.splits if_splits)
  show ?thesis
    using None m n l missing_modifies_ok [OF reader_onD(1) [OF r] h _ room, of s protect]
      only_rollback_puts(2) [of e "from_raw raw" s ?lo protect]
    by (auto simp: only_rollback_puts_def)
qed

subsection \<open>A transaction is committed or rolled back, never both\<close>

abbreviation fresh_reader :: "btree_engine \<Rightarrow> timestamp \<Rightarrow> snapshot_reader" where
  "fresh_reader e s \<equiv> snapshot_reader_new s \<lparr>sn_engine = e, sn_txn_ext = None\<rparr>"

lemma cleanup_store:
  assumes r: "reader_on e s r" and h: "history_ok e (from_raw raw)" and room: "room_for_rollback_ts e (from_raw raw)"
    and c: "cleanup (mvcc_txn_new s) r (from_raw raw) cur protect = Ok (res, txn, r')"
  shows "\<exists>e'. write_modifies e (t_modifies txn) = Ok e' \<and> store_ok e' \<and> history_ok e' (from_raw raw) \<and>
    own_lock e' (from_raw raw) s = None \<and>
    (\<forall>c. determined (txn_record e' (from_raw raw) s) \<noteq> Some (TsCommitted c))"
proof -
  let ?key = "from_raw raw"
  note b = cleanup_batch [OF assms] and se = reader_onD(1) [OF r]
  obtain e' where e': "write_modifies e (t_modifies txn) = Ok e'" "store_ok e'"
    "engine_map e' = fold apply_modify (t_modifies txn) (engine_map e)"
    using store_write [OF se] b by blast
  have "own_lock e' ?key s = None"
  proof (cases "own_lock e ?key s")
    case (Some l)
    then obtain ms where "t_modifies txn = ms @ [ModDelete CF_LOCK ?key]" using b by blast
    then have "engine_map e' CF_LOCK ?key = None" using e'(3) by (simp add: apply_modify_def)
    then show ?thesis by (simp add: own_lock_def stored_lock_def)
  next
    case None
    have "l_ts l \<noteq> s" if l: "stored_lock e' ?key = Some l" for l
    proof -
      obtain v where v: "engine_map e' CF_LOCK ?key = Some v" "lock_parse v = Ok l"
        using l by (auto simp: stored_lock_def split: option.splits result.splits)
      then have "engine_map e CF_LOCK ?key = Some v \<or> ModPut CF_LOCK ?key v \<in> set (t_modifies txn)"
        using fold_lock_origin [of "t_modifies txn" "engine_map e" ?key v] e'(3) b by auto
      then show ?thesis
      proof
        assume "engine_map e CF_LOCK ?key = Some v"
        then have "stored_lock e ?key = Some l" using v(2) by (simp add: stored_lock_def)
        then show ?thesis using None by (auto simp: own_lock_def)
      next
        assume "ModPut CF_LOCK ?key v \<in> set (t_modifies txn)"
        then obtain l' where l': "stored_lock e ?key = Some l'" "l_ts l' \<noteq> s"
          "v = lock_to_bytes (l'\<lparr>l_rollback_ts := l_rollback_ts l' @ [s]\<rparr>)" using b by blast
        have "lock_wf (l'\<lparr>l_rollback_ts := l_rollback_ts l' @ [s]\<rparr>)"
          using stored_lock_wf [OF se l'(1)] room l'(1) by (auto simp: lock_wf_def room_for_rollback_ts_def)
        then show ?thesis using v(2) l'(2,3) by (auto simp: lock_parse_to_bytes)
      qed
    qed
    then show ?thesis by (auto simp: own_lock_def split: option.splits)
  qed
  moreover have "history_ok e' ?key \<and> (\<forall>c. determined (txn_record e' ?key s) \<noteq> Some (TsCommitted c))"
  proof (cases "determined (txn_record e ?key s)")
    case None
    then have "no_record e ?key s"
      using txn_record_none [OF se] by (auto simp: determined_def split: txn_commit_record.splits)
    then show ?thesis
      using after_rollback [OF se h _ e'(2) _ e'(3)] b rolled_back_record [OF e'(2), of ?key s] by blast
  next
    case (Some d)
    then have "t_modifies txn = [] \<or> t_modifies txn = [ModDelete CF_LOCK ?key]" using b by auto
    then have "engine_map e' CF_WRITE = engine_map e CF_WRITE" using e'(3) by (auto simp: apply_modify_def)
    then have rec: "records e' ?key = records e ?key"
      using records_eq [OF se] records_eq [OF e'(2)] by (simp add: fun_eq_iff)
    then have "txn_record e' ?key s = txn_record e ?key s"
      using versions_cong [OF se e'(2)] by (simp add: txn_record_def)
    then show ?thesis using rec h b by (simp add: history_ok_def)
  qed
  ultimately show ?thesis using e' by blast
qed

lemma commit_store:
  assumes r: "reader_on e s r" and l: "own_lock e (from_raw raw) s = Some l" "\<not> is_pessimistic_lock l"
    and cts: "l_min_commit_ts l \<le> cts"
  shows "\<exists>released txn r' e'. commit (mvcc_txn_new s) r (from_raw raw) cts = Ok (Some released, txn, r') \<and>
    write_modifies e (t_modifies txn) = Ok e' \<and> store_ok e' \<and> stored_lock e' (from_raw raw) = None \<and>
    engine_map e' = (engine_map e)(
      CF_WRITE := (engine_map e CF_WRITE)(append_ts (from_raw raw) cts \<mapsto> write_to_bytes (committed_write l s cts)),
      CF_LOCK := (engine_map e CF_LOCK)(from_raw raw := None)) \<and>
    records e' (from_raw raw) = (records e (from_raw raw))(cts \<mapsto> committed_write l s cts)"
proof -
  let ?key = "from_raw raw" and ?w = "committed_write l s cts"
  let ?ms = "[ModPut CF_WRITE (append_ts ?key cts) (write_to_bytes ?w), ModDelete CF_LOCK ?key]"
  note se = reader_onD(1) [OF r]
  have "stored_lock e ?key = Some l" using l(1) by (auto simp: own_lock_def split: option.splits if_splits)
  then have wf: "write_wf ?w" using committed_write_wf [OF stored_lock_wf [OF se]] by blast
  obtain released txn r' where c: "commit (mvcc_txn_new s) r ?key cts = Ok (Some released, txn, r')" "t_modifies txn = ?ms"
    using commit_own [OF r l(1), of cts "mvcc_txn_new s"] l(2) leD [OF cts] by auto
  have "list_all store_modify_ok ?ms" using wf by auto
  from store_write [OF se this] obtain e' where e': "write_modifies e ?ms = Ok e'" "store_ok e'"
    "engine_map e' = fold apply_modify ?ms (engine_map e)" by blast
  have m: "engine_map e' = (engine_map e)(
      CF_WRITE := (engine_map e CF_WRITE)(append_ts ?key cts \<mapsto> write_to_bytes ?w),
      CF_LOCK := (engine_map e CF_LOCK)(?key := None))"
    using e'(3) by (simp add: apply_modify_def)
  have "records e' ?key = (records e ?key)(cts \<mapsto> ?w)"
    using wf by (auto simp: fun_eq_iff records_eq [OF se] records_eq [OF e'(2)] m write_parse_to_bytes)
  moreover have "stored_lock e' ?key = None" by (simp add: stored_lock_def m)
  ultimately show ?thesis using c e' m by auto
qed

text \<open>A store with one user key that is locked.\<close>

definition locked_engine :: "bytes \<Rightarrow> lock \<Rightarrow> (timestamp \<times> write_record) list \<Rightarrow> btree_engine" where
  "locked_engine raw l vs =
     (one_key_engine raw vs)\<lparr>be_cf_contents := (be_cf_contents (one_key_engine raw vs))[1 := [(from_raw raw, lock_to_bytes l)]]\<rparr>"

lemma locked_engine:
  assumes "newest_first vs" "list_all (\<lambda>v. write_wf (snd v)) vs" "lock_wf l"
  shows "store_ok (locked_engine raw l vs)" "stored_lock (locked_engine raw l vs) (from_raw raw) = Some l"
    "versions (locked_engine raw l vs) (from_raw raw) = vs"
proof -
  let ?e = "locked_engine raw l vs"
  have t: "engine_tree ?e CF_WRITE = engine_tree (one_key_engine raw vs) CF_WRITE"
    "engine_tree ?e CF_LOCK = [(from_raw raw, lock_to_bytes l)]"
    by (simp_all add: engine_tree_def locked_engine_def one_key_engine_def DATA_CFS_def)
  have ok: "write_tree_ok (engine_tree ?e CF_WRITE)" using one_key_tree_ok [OF assms(1,2)] unfolding t by simp
  have names: "be_cf_names ?e = DATA_CFS"
    "be_cf_contents ?e = [[], [(from_raw raw, lock_to_bytes l)], engine_tree ?e CF_WRITE]"
    unfolding t by (simp_all add: locked_engine_def one_key_engine_def engine_tree_def DATA_CFS_def)
  have "engine_wf ?e"
    unfolding engine_wf_def names using ok by (simp add: write_tree_ok_def DATA_CFS_def tree_wf_def)
  then show "store_ok ?e"
    using ok assms(3) t(2) names(1)
    by (auto simp: store_ok_def write_tree_ok_def engine_map_def btree_get_eq_Some lock_value_ok_def btree_get_def
        split: if_splits dest: map_of_SomeD)
  show "stored_lock ?e (from_raw raw) = Some l"
    using assms(3) by (simp add: stored_lock_def engine_map_def t(2) btree_get_def lock_parse_to_bytes)
  show "versions ?e (from_raw raw) = vs"
    using one_key_versions [OF assms(2), of raw] by (simp add: versions_def t(1))
qed

definition example_lock :: lock where
  "example_lock = lock_new LtPut [1] 40 3 (Some [9]) 0 1 0 False"

definition example_store :: btree_engine where
  "example_store = locked_engine [1] example_lock example_versions"

lemma example_lock_wf: "lock_wf example_lock"
  by (simp add: example_lock_def lock_new_def lock_wf_def is_short_value_def SHORT_VALUE_MAX_LEN_def)

lemmas example_store = locked_engine [OF example_versions_ok(1,2) example_lock_wf, of "[1]", folded example_store_def]

lemma example_store_history: "history_ok example_store (from_raw [1])" "no_record example_store (from_raw [1]) 40"
  "own_lock example_store (from_raw [1]) 40 = Some example_lock" "room_for_rollback_ts example_store (from_raw [1])"
  "\<not> is_pessimistic_lock example_lock"
  by (auto simp: history_ok_def no_record_def records_def example_store example_versions_def write_new_def
      write_set_last_change_def own_lock_def example_lock_def lock_new_def room_for_rollback_ts_def
      is_pessimistic_lock_def split: if_splits)

lemmas example_reader = reader_on_new [OF example_store(1), of 40]

text \<open>
  C10: A transaction that was cleaned up on a key can no longer commit there. Whatever the state of
  the key, when \<^verbatim>\<open>cleanup\<close> succeeds its batch can be applied to the store, keeps it well formed, and
  a commit of that transaction on the new store is refused as lock-not-found, at every commit
  timestamp.
\<close>

theorem cleanup_excludes_commit:
  assumes "reader_on e s r" and "history_ok e (from_raw raw)" and "room_for_rollback_ts e (from_raw raw)"
    and "cleanup (mvcc_txn_new s) r (from_raw raw) cur protect = Ok (res, txn, r')"
  shows "\<exists>e'. write_modifies e (t_modifies txn) = Ok e' \<and> store_ok e' \<and>
    commit txn' (fresh_reader e' s) (from_raw raw) cts = Err (MvTxnLockNotFound s cts raw)"
proof -
  obtain e' where e': "write_modifies e (t_modifies txn) = Ok e'" "store_ok e'" "history_ok e' (from_raw raw)"
    "own_lock e' (from_raw raw) s = None" "\<And>c. determined (txn_record e' (from_raw raw) s) \<noteq> Some (TsCommitted c)"
    using cleanup_store [OF assms] by blast
  have "commit txn' (fresh_reader e' s) (from_raw raw) cts = Err (MvTxnLockNotFound s cts raw)"
    using commit_other [OF reader_on_new [OF e'(2)] e'(3,4), of txn' cts] e'(5)
    by (auto split: option.splits txn_status.splits)
  then show ?thesis using e' by blast
qed

theorem cleanup_excludes_commit_witness:
  "\<exists>res txn r' e'. cleanup (mvcc_txn_new 40) (fresh_reader example_store 40) (from_raw [1]) 0 True = Ok (res, txn, r') \<and>
     write_modifies example_store (t_modifies txn) = Ok e' \<and>
     commit txn (fresh_reader e' 40) (from_raw [1]) 50 = Err (MvTxnLockNotFound 40 50 [1])"
proof -
  have "txn_record example_store (from_raw [1]) 40 \<noteq> SingleRecord c w" for c w
    using txn_record_cases [OF example_store(1), of "from_raw [1]" 40] example_store_history(2)
    by (auto split: option.splits)
  then obtain res txn r' where c: "cleanup (mvcc_txn_new 40) (fresh_reader example_store 40) (from_raw [1]) 0 True = Ok (res, txn, r')"
    using cleanup_own [OF example_reader example_store_history(1,3), of 0 "mvcc_txn_new 40" True]
    by (auto simp: ts_is_zero_def)
  show ?thesis
    using c cleanup_excludes_commit [OF example_reader example_store_history(1,4) c, of txn 50] by blast
qed

text \<open>
  C11: A committed transaction can no longer be rolled back. When the key holds the prewrite lock of the
  transaction and no record of it, committing at a timestamp the lock allows succeeds, its batch
  keeps the store well formed, and cleaning the transaction up on the new store is refused with the
  commit timestamp, whether the rollback is protected or not.
\<close>

theorem commit_excludes_cleanup:
  assumes "reader_on e s r" and "history_ok e (from_raw raw)" and "no_record e (from_raw raw) s"
    and "own_lock e (from_raw raw) s = Some l" and "\<not> is_pessimistic_lock l"
    and "l_min_commit_ts l \<le> cts" and "s \<le> cts"
  shows "\<exists>released txn r' e'. commit (mvcc_txn_new s) r (from_raw raw) cts = Ok (Some released, txn, r') \<and>
    write_modifies e (t_modifies txn) = Ok e' \<and> store_ok e' \<and>
    cleanup (mvcc_txn_new s) (fresh_reader e' s) (from_raw raw) cur protect = Err (MvCommitted s cts raw)"
proof -
  let ?key = "from_raw raw" and ?w = "committed_write l s cts"
  obtain released txn r' e' where c: "commit (mvcc_txn_new s) r ?key cts = Ok (Some released, txn, r')"
    "write_modifies e (t_modifies txn) = Ok e'" "store_ok e'" "stored_lock e' ?key = None"
    "records e' ?key = (records e ?key)(cts \<mapsto> ?w)"
    using commit_store [OF assms(1,4,5,6)] by blast
  have w: "w_start_ts ?w = s" "w_write_type ?w \<noteq> WtRollback"
    using assms(5) by (auto simp: committed_write_def is_pessimistic_lock_def split: option.splits)
      (cases "l_lock_type l"; simp)+
  have h: "history_ok e' ?key" using assms(2,7) w by (auto simp: history_ok_def c(5))
  have "\<not> no_record e' ?key s" "records e' ?key c' = Some w' \<Longrightarrow> w_start_ts w' = s \<Longrightarrow> c' = cts \<and> w' = ?w" for c' w'
    using assms(3) w(1) by (auto simp: no_record_def c(5) split: if_splits)
  then have "txn_record e' ?key s = SingleRecord cts ?w"
    using txn_record_cases [OF c(3), of ?key s] by (metis (no_types, lifting))
  moreover have "own_lock e' ?key s = None" by (simp add: own_lock_def c(4))
  ultimately have "cleanup (mvcc_txn_new s) (fresh_reader e' s) ?key cur protect = Err (MvCommitted s cts raw)"
    using cleanup_other [OF reader_on_new [OF c(3)] h, where s = s and txn = "mvcc_txn_new s" and cur = cur and protect = protect] w(2)
    by (simp add: determined_def)
  then show ?thesis using c by blast
qed

theorem commit_excludes_cleanup_witness:
  "\<exists>released txn r' e'. commit (mvcc_txn_new 40) (fresh_reader example_store 40) (from_raw [1]) 50 = Ok (Some released, txn, r') \<and>
     write_modifies example_store (t_modifies txn) = Ok e' \<and>
     cleanup (mvcc_txn_new 40) (fresh_reader e' 40) (from_raw [1]) 0 True = Err (MvCommitted 40 50 [1])"
proof -
  have "l_min_commit_ts example_lock \<le> 50" "(40 :: timestamp) \<le> 50" by (simp_all add: example_lock_def lock_new_def)
  from commit_excludes_cleanup [OF example_reader example_store_history(1,2,3,5) this, of 0 True] show ?thesis by blast
qed

subsection \<open>Reading after a commit\<close>

lemma change_at_newer:
  "ts < c \<Longrightarrow> change_at ((c, w) # vs) ts = change_at vs ts"
  "c \<le> ts \<Longrightarrow> is_change w \<Longrightarrow> change_at ((c, w) # vs) ts = Some (c, w)"
  by (auto simp: change_at_def)

lemma pointers_ok_newer:
  assumes "pointers_ok vs limit" "\<forall>v\<in>set vs. fst v < c" "is_change w" "0 < c"
  shows "pointers_ok ((c, w) # vs) limit"
proof -
  have "pointer_ok ((c, w) # vs) limit v" if v: "v \<in> set vs" for v
  proof -
    have p: "pointer_ok vs limit v" "fst v < c" using assms(1,2) v by (auto simp: pointers_ok_def list_all_iff)
    have "0 < fst v" using p(1) by (simp add: pointer_ok_def)
    then have "fst v - 1 < fst v" using ts_le_prev_iff [of "fst v" "fst v - 1"] by simp
    then have "fst v - 1 < c" using p(2) by simp
    then have "change_at ((c, w) # vs) (fst v - 1) = change_at vs (fst v - 1)" by (rule change_at_newer(1))
    moreover have "map_of ((c, w) # vs) lts = map_of vs lts" if "lts < fst v" for lts using that p(2) by auto
    ultimately show ?thesis using p unfolding pointer_ok_def by (auto split: option.splits)
  qed
  moreover have "pointer_ok ((c, w) # vs) limit (c, w)" using assms(3,4) by (simp add: pointer_ok_def)
  ultimately show ?thesis by (simp add: pointers_ok_def list_all_iff)
qed

lemma sr_get_eq:
  assumes "reader_on e s r" "pointers_ok (versions e (from_raw raw)) (Some s)"
  shows "case visible (versions e (from_raw raw)) ts (Some s) of
      None \<Rightarrow> map_ok fst (sr_get r (from_raw raw) ts) = Ok None
    | Some (w, c) \<Rightarrow>
       (case value_of e (from_raw raw) w of
          Some v \<Rightarrow> map_ok fst (sr_get r (from_raw raw) ts) = Ok (Some v)
        | None \<Rightarrow> sr_get r (from_raw raw) ts = Err (MvDefaultNotFound (append_ts (from_raw raw) (w_start_ts w))))"
  using reader_get_eq [OF reader_onD(2) [OF assms(1)], of raw "Some s" ts] assms(2) reader_onD(3,4) [OF assms(1)]
  by (auto simp: sr_get_def on_reader_def split: option.splits)

lemma commit_read_eq:
  assumes "reader_on e s r" and "own_lock e (from_raw raw) s = Some l" and "l_lock_type l = LtPut"
    and "l_min_commit_ts l \<le> cts" and "\<forall>c w. records e (from_raw raw) c = Some w \<longrightarrow> c < cts" and "0 < cts"
    and "value_of e (from_raw raw) (committed_write l s cts) = Some v"
    and "pointers_ok (versions e (from_raw raw)) (Some t)"
  shows "\<exists>released txn r' e'. commit (mvcc_txn_new s) r (from_raw raw) cts = Ok (Some released, txn, r') \<and>
    write_modifies e (t_modifies txn) = Ok e' \<and>
    map_ok fst (sr_get (fresh_reader e' t) (from_raw raw) ts) =
      (if cts \<le> ts then Ok (Some v) else map_ok fst (sr_get (fresh_reader e t) (from_raw raw) ts))"
proof -
  let ?key = "from_raw raw" and ?w = "committed_write l s cts"
  have np: "\<not> is_pessimistic_lock l" using assms(3) by (simp add: is_pessimistic_lock_def)
  note se = reader_onD(1) [OF assms(1)]
  obtain released txn r' e' where c: "commit (mvcc_txn_new s) r ?key cts = Ok (Some released, txn, r')"
    "write_modifies e (t_modifies txn) = Ok e'" "store_ok e'"
    "engine_map e' = (engine_map e)(
      CF_WRITE := (engine_map e CF_WRITE)(append_ts ?key cts \<mapsto> write_to_bytes ?w),
      CF_LOCK := (engine_map e CF_LOCK)(?key := None))"
    "records e' ?key = (records e ?key)(cts \<mapsto> ?w)"
    using commit_store [OF assms(1,2) np assms(4)] by blast
  have w: "is_change ?w" "w_write_type ?w = WtPut" "\<not> fenced (Some t) ?w"
    using assms(3) by (simp_all add: committed_write_def is_change_def fenced_def check_gc_fence_as_latest_version_def)
  have below: "\<forall>x\<in>set (versions e ?key). fst x < cts" using assms(5) in_versions [OF se] by auto
  have "versions e' ?key = (cts, ?w) # versions e ?key"
    using newest_first_unique [OF newest_first_store [OF c(3)], of "(cts, ?w) # versions e ?key" ?key]
      newest_first_store [OF se, of ?key] below c(5)
    by (simp add: records_def [symmetric] fun_upd_def)
  note vs = this
  have ptr: "pointers_ok (versions e' ?key) (Some t)"
    unfolding vs by (rule pointers_ok_newer [OF assms(8) below w(1) assms(6)])
  have val: "value_of e' ?key x = value_of e ?key x" for x
    by (simp add: value_of_def c(4) split: option.splits)
  have "map_ok fst (sr_get (fresh_reader e' t) ?key ts) =
      (if cts \<le> ts then Ok (Some v) else map_ok fst (sr_get (fresh_reader e t) ?key ts))"
  proof (cases "cts \<le> ts")
    case True
    then have "visible (versions e' ?key) ts (Some t) = Some (?w, cts)"
      unfolding vs visible_def using change_at_newer(2) [OF True w(1)] w(2,3) by simp
    then show ?thesis
      using sr_get_eq [OF reader_on_new [OF c(3)] ptr, of ts] True assms(7) by (simp add: val)
  next
    case False
    then have "visible (versions e' ?key) ts (Some t) = visible (versions e ?key) ts (Some t)"
      unfolding vs visible_def using change_at_newer(1) [of ts cts] by simp
    then show ?thesis
      using sr_get_eq [OF reader_on_new [OF c(3)] ptr, of ts] sr_get_eq [OF reader_on_new [OF se] assms(8), of ts] False
      by (auto simp: val split: option.splits)
  qed
  then show ?thesis using c by blast
qed

text \<open>
  C12: A committed put is read exactly from its commit timestamp on. When the key holds the prewrite
  lock of a put, the commit timestamp is above every record of the key, and the value is in the lock
  or in the default column family, then after the commit every read at or above the commit timestamp
  returns that value, and every read below it returns what it returned before the commit.
\<close>

theorem commit_then_read:
  assumes "reader_on e s r" and "own_lock e (from_raw raw) s = Some l" and "l_lock_type l = LtPut"
    and "l_min_commit_ts l \<le> cts" and "\<forall>c w. records e (from_raw raw) c = Some w \<longrightarrow> c < cts" and "0 < cts"
    and "value_of e (from_raw raw) (committed_write l s cts) = Some v"
    and "pointers_ok (versions e (from_raw raw)) (Some t)"
  shows "\<exists>released txn r' e'. commit (mvcc_txn_new s) r (from_raw raw) cts = Ok (Some released, txn, r') \<and>
    write_modifies e (t_modifies txn) = Ok e' \<and>
    map_ok fst (sr_get (fresh_reader e' t) (from_raw raw) ts) =
      (if cts \<le> ts then Ok (Some v) else map_ok fst (sr_get (fresh_reader e t) (from_raw raw) ts))"
  using commit_read_eq [OF assms] .

theorem commit_then_read_witness:
  "\<exists>released txn r' e'. commit (mvcc_txn_new 40) (fresh_reader example_store 40) (from_raw [1]) 50 = Ok (Some released, txn, r') \<and>
     write_modifies example_store (t_modifies txn) = Ok e' \<and>
     map_ok fst (sr_get (fresh_reader e' 60) (from_raw [1]) 60) = Ok (Some [9])"
proof -
  have "l_lock_type example_lock = LtPut" "l_min_commit_ts example_lock \<le> 50" "(0 :: timestamp) < 50"
    by (simp_all add: example_lock_def lock_new_def)
  moreover have "\<forall>c w. records example_store (from_raw [1]) c = Some w \<longrightarrow> c < 50"
    by (auto simp: records_def example_store example_versions_def split: if_splits)
  moreover have "value_of example_store (from_raw [1]) (committed_write example_lock 40 50) = Some [9]"
    by (simp add: value_of_def committed_write_def example_lock_def lock_new_def)
  moreover have "pointers_ok (versions example_store (from_raw [1])) (Some 60)"
    unfolding example_store by (rule example_versions_ok(3))
  ultimately show ?thesis
    using commit_then_read [OF example_reader example_store_history(3), of 50 "[9]" 60 60] by auto
qed

end
