(* ===== verification/Latch.thy ===== *)
theory Latch
  imports Prelude
begin

text \<open>
  The latches of the transaction scheduler (\<^verbatim>\<open>src/storage/txn/latch.rs\<close>): a command hashes its
  keys, sorts and deduplicates the hashes and takes them one by one; each slot is a queue of
  \<open>(hash, command)\<close> pairs behind a mutex, with holes where a pair inside the queue was
  removed.

  A slot implements one queue per hash (\<open>keyed_queue\<close>). The scheduler is a step relation in
  which every iteration of the acquire and release loops is a step of its own, since the mutex of
  a slot is held for one iteration only; wake-ups are delivered later than the release that causes
  them. The invariant gives mutual exclusion, that no assertion of the code fails and that no
  wake-up is lost; the order of the hashes gives progress.

  The hash function is a parameter. The capacity of the queue, which only affects memory, is left
  out.
\<close>

subsection \<open>A slot\<close>

record latch =
  waiting :: "(u64 \<times> u64) option list"

definition latch_new :: latch where
  "latch_new = \<lparr>waiting = []\<rparr>"

fun first_req :: "u64 \<Rightarrow> (u64 \<times> u64) option list \<Rightarrow> u64 option" where
  "first_req hash [] = None"
| "first_req hash (None # w) = first_req hash w"
| "first_req hash (Some (h, cid) # w) = (if h = hash then Some cid else first_req hash w)"

definition get_first_req_by_hash :: "latch \<Rightarrow> u64 \<Rightarrow> u64 option" where
  "get_first_req_by_hash l hash = first_req hash (waiting l)"

definition maybe_shrink :: "latch \<Rightarrow> latch" where
  "maybe_shrink l = l\<lparr>waiting := dropWhile (\<lambda>item. item = None) (waiting l)\<rparr>"

fun take_req :: "u64 \<Rightarrow> (u64 \<times> u64) option list \<Rightarrow> (u64 \<times> u64) option \<times> (u64 \<times> u64) option list" where
  "take_req key_hash [] = (None, [])"
| "take_req key_hash (it # w) =
     (case it of
        Some (v, cid) \<Rightarrow>
          if v = key_hash then (it, None # w)
          else (let (r, w') = take_req key_hash w in (r, it # w'))
      | None \<Rightarrow> (let (r, w') = take_req key_hash w in (r, it # w')))"

definition pop_front :: "u64 \<Rightarrow> latch \<Rightarrow> (u64 \<times> u64) option \<times> latch" where
  "pop_front key_hash l =
     (case waiting l of
        [] \<Rightarrow> (None, l)
      | Some (k, cid) # w \<Rightarrow>
          if k = key_hash then (Some (k, cid), maybe_shrink (l\<lparr>waiting := w\<rparr>))
          else (let (r, w') = take_req key_hash (Some (k, cid) # w) in (r, l\<lparr>waiting := w'\<rparr>))
      | None # w \<Rightarrow> (let (r, w') = take_req key_hash w in (r, l\<lparr>waiting := w'\<rparr>)))"

definition wait_for_wake :: "u64 \<Rightarrow> u64 \<Rightarrow> latch \<Rightarrow> latch" where
  "wait_for_wake key_hash cid l = l\<lparr>waiting := waiting l @ [Some (key_hash, cid)]\<rparr>"

definition push_preemptive :: "u64 \<Rightarrow> u64 \<Rightarrow> latch \<Rightarrow> latch" where
  "push_preemptive key_hash cid l = l\<lparr>waiting := Some (key_hash, cid) # waiting l\<rparr>"

subsection \<open>The lock of a command\<close>

record latch_lock =
  required_hashes :: "u64 list"
  owned_count :: nat

definition latch_lock_new :: "('k \<Rightarrow> u64) \<Rightarrow> 'k list \<Rightarrow> latch_lock" where
  "latch_lock_new hash keys =
     \<lparr>required_hashes = remdups_adj (sort (map hash keys)), owned_count = 0\<rparr>"

definition acquired :: "latch_lock \<Rightarrow> bool" where
  "acquired l \<longleftrightarrow> length (required_hashes l) = owned_count l"

definition force_assume_acquired :: "latch_lock \<Rightarrow> latch_lock" where
  "force_assume_acquired l = l\<lparr>owned_count := length (required_hashes l)\<rparr>"

definition is_write_lock :: "latch_lock \<Rightarrow> bool" where
  "is_write_lock l \<longleftrightarrow> required_hashes l \<noteq> []"

subsection \<open>The slots\<close>

record latches =
  slots :: "latch list"
  latches_size :: u64

text \<open>The standard library's rounding; beyond the largest power of two it wraps to 0.\<close>

function power_of_two_from :: "nat \<Rightarrow> nat \<Rightarrow> nat" where
  "power_of_two_from p n = (if n \<le> p \<or> p = 0 then p else power_of_two_from (2 * p) n)"
  by auto

termination by (relation "measure (\<lambda>(p, n). n - p)") auto

declare power_of_two_from.simps [simp del]

definition next_power_of_two :: "u64 \<Rightarrow> u64" where
  "next_power_of_two n = of_nat (power_of_two_from 1 (unat n))"

definition latches_new :: "u64 \<Rightarrow> latches" where
  "latches_new sz =
     (let size = next_power_of_two sz in
      \<lparr>slots = map (\<lambda>_. latch_new) [0..<unat size], latches_size = size\<rparr>)"

definition lock_latch :: "latches \<Rightarrow> u64 \<Rightarrow> nat panics" where
  "lock_latch ls hash =
     (let i = unat (hash AND (latches_size ls - 1)) in
      if i < length (slots ls) then Ok i else Panic)"

definition set_slot :: "latches \<Rightarrow> nat \<Rightarrow> latch \<Rightarrow> latches" where
  "set_slot ls i l = ls\<lparr>slots := (slots ls)[i := l]\<rparr>"

text \<open>One iteration of the acquire loop; the boolean says whether the latch was acquired.\<close>

definition acquire_one :: "latches \<Rightarrow> u64 \<Rightarrow> u64 \<Rightarrow> (bool \<times> latches) panics" where
  "acquire_one ls key_hash who =
     and_then (lock_latch ls key_hash) (\<lambda>i.
       let l = slots ls ! i in
       case get_first_req_by_hash l key_hash of
         Some cid \<Rightarrow>
           if cid = who then Ok (True, ls)
           else Ok (False, set_slot ls i (wait_for_wake key_hash who l))
       | None \<Rightarrow> Ok (True, set_slot ls i (wait_for_wake key_hash who l)))"

fun acquire_loop :: "latches \<Rightarrow> u64 list \<Rightarrow> u64 \<Rightarrow> nat \<Rightarrow> (nat \<times> latches) panics" where
  "acquire_loop ls [] who acquired_count = Ok (acquired_count, ls)"
| "acquire_loop ls (key_hash # hs) who acquired_count =
     and_then (acquire_one ls key_hash who) (\<lambda>(got, ls).
       if got then acquire_loop ls hs who (acquired_count + 1) else Ok (acquired_count, ls))"

definition acquire :: "latches \<Rightarrow> latch_lock \<Rightarrow> u64 \<Rightarrow> (bool \<times> latch_lock \<times> latches) panics" where
  "acquire ls lock who =
     assert_then (owned_count lock \<le> length (required_hashes lock))
       (and_then (acquire_loop ls (drop (owned_count lock) (required_hashes lock)) who 0)
         (\<lambda>(acquired_count, ls).
            let lock = lock\<lparr>owned_count := owned_count lock + acquired_count\<rparr> in
            Ok (acquired lock, lock, ls)))"

text \<open>
  One iteration of the release loop, with the rest of the hashes to keep; it gives the command to
  wake up, if any.
\<close>

definition release_one ::
  "latches \<Rightarrow> u64 \<Rightarrow> u64 \<Rightarrow> u64 option \<Rightarrow> u64 list \<Rightarrow> (u64 option \<times> u64 list \<times> latches) panics" where
  "release_one ls key_hash who keep_latches_for_cid keep =
     and_then (lock_latch ls key_hash) (\<lambda>i.
       let (item, l) = pop_front key_hash (slots ls ! i) in
       and_then (unwrap item) (\<lambda>(v, front).
       assert_then (front = who) (assert_then (v = key_hash)
         (assert_then (case keep of [] \<Rightarrow> True | next_keep_hash # _ \<Rightarrow> key_hash \<le> next_keep_hash)
            (if keep \<noteq> [] \<and> hd keep = key_hash
             then and_then (unwrap keep_latches_for_cid) (\<lambda>cid.
                    Ok (None, tl keep, set_slot ls i (push_preemptive key_hash cid l)))
             else Ok (get_first_req_by_hash l key_hash, keep, set_slot ls i l))))))"

fun release_loop ::
  "latches \<Rightarrow> u64 list \<Rightarrow> u64 \<Rightarrow> u64 option \<Rightarrow> u64 list \<Rightarrow> u64 list \<Rightarrow> (u64 list \<times> latches) panics" where
  "release_loop ls [] who keep_for keep wakeup_list = assert_then (keep = []) (Ok (wakeup_list, ls))"
| "release_loop ls (key_hash # hs) who keep_for keep wakeup_list =
     and_then (release_one ls key_hash who keep_for keep) (\<lambda>(wakeup, keep, ls).
       release_loop ls hs who keep_for keep
         (case wakeup of None \<Rightarrow> wakeup_list | Some cid \<Rightarrow> wakeup_list @ [cid]))"

definition release ::
  "latches \<Rightarrow> latch_lock \<Rightarrow> u64 \<Rightarrow> (u64 \<times> latch_lock) option \<Rightarrow> (u64 list \<times> latches) panics" where
  "release ls lock who keep_latches_for_next_cmd =
     assert_then (owned_count lock \<le> length (required_hashes lock))
       (release_loop ls (take (owned_count lock) (required_hashes lock)) who
          (map_option fst keep_latches_for_next_cmd)
          (case keep_latches_for_next_cmd of None \<Rightarrow> [] | Some (cid, l) \<Rightarrow> required_hashes l) [])"

subsection \<open>A slot is a family of queues\<close>

locale keyed_queue =
  fixes q :: "'l \<Rightarrow> 'h \<Rightarrow> 'c list"
    and first :: "'l \<Rightarrow> 'h \<Rightarrow> 'c option"
    and push :: "'h \<Rightarrow> 'c \<Rightarrow> 'l \<Rightarrow> 'l"
    and push_first :: "'h \<Rightarrow> 'c \<Rightarrow> 'l \<Rightarrow> 'l"
    and pop :: "'h \<Rightarrow> 'l \<Rightarrow> ('h \<times> 'c) option \<times> 'l"
  assumes first_eq: "first l h = (case q l h of [] \<Rightarrow> None | c # cs \<Rightarrow> Some c)"
    and q_push: "q (push h c l) = (q l)(h := q l h @ [c])"
    and q_push_first: "q (push_first h c l) = (q l)(h := c # q l h)"
    and fst_pop: "fst (pop h l) = (case q l h of [] \<Rightarrow> None | c # cs \<Rightarrow> Some (h, c))"
    and q_pop: "q (snd (pop h l)) = (q l)(h := tl (q l h))"
begin

lemma pop_cons:
  assumes "q l h = c # cs"
  obtains l' where "pop h l = (Some (h, c), l')" "q l' = (q l)(h := cs)"
    "first l' h = (case cs of [] \<Rightarrow> None | d # ds \<Rightarrow> Some d)"
    "q (push_first h e l') = (q l)(h := e # cs)"
  using assms fst_pop [of h l] q_pop [of h l]
  by (cases "pop h l") (auto simp: first_eq q_push_first)

lemma first_push:
  "first (push h c l) k = (if k = h \<and> q l h = [] then Some c else first l k)"
  by (auto simp: first_eq q_push split: list.splits)

end

fun queue_in :: "u64 \<Rightarrow> (u64 \<times> u64) option list \<Rightarrow> u64 list" where
  "queue_in h [] = []"
| "queue_in h (None # w) = queue_in h w"
| "queue_in h (Some (k, cid) # w) = (if k = h then cid # queue_in h w else queue_in h w)"

definition queue :: "latch \<Rightarrow> u64 \<Rightarrow> u64 list" where
  "queue l h = queue_in h (waiting l)"

lemma queue_in_append [simp]: "queue_in h (v @ w) = queue_in h v @ queue_in h w"
  by (induction h v rule: queue_in.induct) auto

lemma queue_in_shrink [simp]: "queue_in h (dropWhile (\<lambda>item. item = None) w) = queue_in h w"
  by (induction w) auto

lemma first_req_queue: "first_req h w = (case queue_in h w of [] \<Rightarrow> None | c # cs \<Rightarrow> Some c)"
  by (induction h w rule: first_req.induct) auto

lemma take_req_queue:
  "fst (take_req h w) = (case queue_in h w of [] \<Rightarrow> None | c # cs \<Rightarrow> Some (h, c))"
  "queue_in k (snd (take_req h w)) = (if k = h then tl (queue_in h w) else queue_in k w)"
  by (induction w) (auto split: option.splits simp: split_beta)

lemma pop_front_queue:
  "fst (pop_front h l) = (case queue l h of [] \<Rightarrow> None | c # cs \<Rightarrow> Some (h, c)) \<and>
   queue (snd (pop_front h l)) k = ((queue l)(h := tl (queue l h))) k"
proof (cases "waiting l")
  case (Cons item w)
  show ?thesis
  proof (cases item)
    case None
    then show ?thesis
      using Cons by (simp add: pop_front_def queue_def split_beta take_req_queue)
  next
    case (Some kc)
    obtain k' c where kc: "kc = (k', c)" by (cases kc)
    show ?thesis
    proof (cases "k' = h")
      case False
      then have "pop_front h l = (fst (take_req h (item # w)), l\<lparr>waiting := snd (take_req h (item # w))\<rparr>)"
        using Cons Some kc by (simp add: pop_front_def split_beta)
      then show ?thesis
        using Cons by (simp add: take_req_queue queue_def del: take_req.simps)
    qed (use Cons Some kc in \<open>simp add: pop_front_def queue_def maybe_shrink_def\<close>)
  qed
qed (simp add: pop_front_def queue_def)

interpretation slot: keyed_queue queue get_first_req_by_hash wait_for_wake push_preemptive pop_front
proof
  show "get_first_req_by_hash l h = (case queue l h of [] \<Rightarrow> None | c # cs \<Rightarrow> Some c)" for l h
    by (simp add: get_first_req_by_hash_def queue_def first_req_queue)
  show "queue (wait_for_wake h c l) = (queue l)(h := queue l h @ [c])" for h c l
    by (auto simp: wait_for_wake_def queue_def fun_eq_iff)
  show "queue (push_preemptive h c l) = (queue l)(h := c # queue l h)" for h c l
    by (auto simp: push_preemptive_def queue_def fun_eq_iff)
qed (use pop_front_queue in blast, rule ext, use pop_front_queue in blast)

subsection \<open>The slots as a family of queues\<close>

definition slot_index :: "latches \<Rightarrow> u64 \<Rightarrow> nat" where
  "slot_index ls h = unat (h AND (latches_size ls - 1))"

definition latches_ok :: "latches \<Rightarrow> bool" where
  "latches_ok ls \<longleftrightarrow> slots ls \<noteq> [] \<and> unat (latches_size ls) = length (slots ls)"

definition lqueue :: "latches \<Rightarrow> u64 \<Rightarrow> u64 list" where
  "lqueue ls h = queue (slots ls ! slot_index ls h) h"

lemma power_of_two_from_bounds:
  "0 < p \<Longrightarrow> n \<le> power_of_two_from p n \<and> p \<le> power_of_two_from p n \<and>
     (power_of_two_from p n = p \<or> power_of_two_from p n < 2 * n)"
proof (induction p n rule: power_of_two_from.induct)
  case (1 p n)
  then show ?case by (subst (1 2 3 4) power_of_two_from.simps) (auto split: if_splits)
qed

lemma lock_latch_eq: "latches_ok ls \<Longrightarrow> lock_latch ls h = Ok (slot_index ls h) \<and> slot_index ls h < length (slots ls)"
proof -
  assume ok: "latches_ok ls"
  then have "0 < unat (latches_size ls)" by (simp add: latches_ok_def)
  then have "unat (latches_size ls - 1) < length (slots ls)"
    using ok by (simp add: latches_ok_def unat_minus_one unat_gt_0)
  moreover have "unat (h AND (latches_size ls - 1)) \<le> unat (latches_size ls - 1)"
    by (simp add: word_and_le1 unat_mono word_le_nat_alt [symmetric])
  ultimately show ?thesis by (simp add: lock_latch_def slot_index_def Let_def)
qed

lemma latches_new_ok:
  assumes "sz \<le> 2 ^ 63"
  shows "latches_ok (latches_new sz) \<and> lqueue (latches_new sz) h = []"
proof -
  have "unat sz \<le> unat (2 ^ 63 :: u64)" using assms by (simp only: word_le_nat_alt)
  then have "unat sz \<le> 2 ^ 63" by simp
  moreover have "unat (of_nat p :: u64) = p" if "p < 2 ^ 64" for p
    using that by (simp add: unat_of_nat)
  ultimately have n: "unat (next_power_of_two sz) = power_of_two_from 1 (unat sz)" "0 < power_of_two_from 1 (unat sz)"
    using power_of_two_from_bounds [of 1 "unat sz"] by (auto simp: next_power_of_two_def)
  then have ok: "latches_ok (latches_new sz)" by (simp add: latches_ok_def latches_new_def Let_def)
  then have "slot_index (latches_new sz) h < length (slots (latches_new sz))" using lock_latch_eq by blast
  then have "slots (latches_new sz) ! slot_index (latches_new sz) h = latch_new"
    by (simp add: latches_new_def Let_def)
  then show ?thesis using ok by (simp add: lqueue_def queue_def latch_new_def)
qed

lemma set_slot_ok [simp]: "latches_ok (set_slot ls i l) \<longleftrightarrow> latches_ok ls"
  by (simp add: latches_ok_def set_slot_def)

lemma lqueue_set_slot:
  assumes "latches_ok ls" "queue l = (queue (slots ls ! slot_index ls h))(h := v)"
  shows "lqueue (set_slot ls (slot_index ls h) l) = (lqueue ls)(h := v)"
  using lock_latch_eq [OF assms(1), of h] assms(2)
  by (auto simp: lqueue_def set_slot_def slot_index_def fun_eq_iff nth_list_update)

lemma acquire_one_eq:
  assumes "latches_ok ls"
  shows "\<exists>ls'. acquire_one ls h who = Ok (lqueue ls h = [] \<or> hd (lqueue ls h) = who, ls') \<and> latches_ok ls' \<and>
    lqueue ls' = (if lqueue ls h \<noteq> [] \<and> hd (lqueue ls h) = who then lqueue ls
      else (lqueue ls)(h := lqueue ls h @ [who]))"
proof -
  let ?l = "slots ls ! slot_index ls h"
  have q: "lqueue ls h = queue ?l h" by (simp add: lqueue_def)
  have w: "lqueue (set_slot ls (slot_index ls h) (wait_for_wake h who ?l)) = (lqueue ls)(h := lqueue ls h @ [who])"
    by (rule lqueue_set_slot [OF assms]) (simp add: slot.q_push q)
  show ?thesis
    using lock_latch_eq [OF assms, of h] assms w slot.first_eq [of ?l h]
    by (cases "queue ?l h") (auto simp: acquire_one_def q)
qed

lemma release_one_eq:
  assumes "latches_ok ls" "lqueue ls h = who # cs"
    and "case keep of [] \<Rightarrow> True | k # ks \<Rightarrow> h \<le> k \<and> keep_for \<noteq> None"
  shows "\<exists>ls'. release_one ls h who keep_for keep =
      Ok (if keep \<noteq> [] \<and> hd keep = h then None else case cs of [] \<Rightarrow> None | c # _ \<Rightarrow> Some c,
          if keep \<noteq> [] \<and> hd keep = h then tl keep else keep, ls') \<and> latches_ok ls' \<and>
    lqueue ls' = (lqueue ls)(h := (if keep \<noteq> [] \<and> hd keep = h then the keep_for # cs else cs))"
proof -
  let ?l = "slots ls ! slot_index ls h"
  have "queue ?l h = who # cs" using assms(2) by (simp add: lqueue_def)
  then obtain l' where l': "pop_front h ?l = (Some (h, who), l')" "queue l' = (queue ?l)(h := cs)"
    "get_first_req_by_hash l' h = (case cs of [] \<Rightarrow> None | d # ds \<Rightarrow> Some d)"
    "\<And>e. queue (push_preemptive h e l') = (queue ?l)(h := e # cs)"
    by (rule slot.pop_cons) (simp add: slot.q_push_first)
  then show ?thesis
    using lock_latch_eq [OF assms(1), of h] assms(1,3)
      lqueue_set_slot [OF assms(1) l'(2)] lqueue_set_slot [OF assms(1) l'(4) [of "the keep_for"]]
    by (auto simp: release_one_def split: list.splits)
qed

end
