(* ===== verification/Latch_Scheduler.thy ===== *)
theory Latch_Scheduler
  imports Latch
begin

text \<open>
  The scheduler's use of the latches (\<^verbatim>\<open>schedule_command\<close>, \<^verbatim>\<open>acquire_lock_on_wakeup\<close>,
  \<^verbatim>\<open>release_latches\<close> and \<^verbatim>\<open>try_to_wake_up\<close> in \<^verbatim>\<open>src/storage/txn/scheduler.rs\<close>) as a step relation.
  A command is inside its acquire loop, waiting for a wake-up, back in the loop after one, holding
  all its latches, about to inherit latches, or inside its release loop.
\<close>

subsection \<open>Commands and steps\<close>

datatype phase = Acquiring | Waiting | Retrying | Holding | Inheriting | Releasing "u64 option"

text \<open>
  The position counts the acquired latches, or the released ones in the release loop. A wake-up is
  pending from the release that sends it to its delivery.
\<close>

record cmd =
  c_hashes :: "u64 list"
  c_pos :: nat
  c_phase :: phase

record latch_state =
  st_latches :: latches
  st_cmds :: "u64 \<rightharpoonup> cmd"
  st_woken :: "u64 set"

definition latch_init :: "u64 \<Rightarrow> latch_state" where
  "latch_init sz = \<lparr>st_latches = latches_new sz, st_cmds = Map.empty, st_woken = {}\<rparr>"

definition new_cmd :: "u64 list \<Rightarrow> phase \<Rightarrow> cmd" where
  "new_cmd hashes ph =
     \<lparr>c_hashes = required_hashes (latch_lock_new id hashes), c_pos = 0, c_phase = ph\<rparr>"

text \<open>Steps of the commands that are in the scheduler.\<close>

inductive progress :: "latch_state \<Rightarrow> latch_state \<Rightarrow> bool" where
  AcquireHit:
    "st_cmds s c = Some m \<Longrightarrow> c_phase m = Acquiring \<or> c_phase m = Retrying \<Longrightarrow> c_pos m < length (c_hashes m) \<Longrightarrow>
     acquire_one (st_latches s) (c_hashes m ! c_pos m) c = Ok (True, ls) \<Longrightarrow>
     progress s (s\<lparr>st_latches := ls,
       st_cmds := (st_cmds s)(c \<mapsto> m\<lparr>c_pos := c_pos m + 1, c_phase := Acquiring\<rparr>)\<rparr>)"
| AcquireMiss:
    "st_cmds s c = Some m \<Longrightarrow> c_phase m = Acquiring \<or> c_phase m = Retrying \<Longrightarrow> c_pos m < length (c_hashes m) \<Longrightarrow>
     acquire_one (st_latches s) (c_hashes m ! c_pos m) c = Ok (False, ls) \<Longrightarrow>
     progress s (s\<lparr>st_latches := ls, st_cmds := (st_cmds s)(c \<mapsto> m\<lparr>c_phase := Waiting\<rparr>)\<rparr>)"
| AcquireDone:
    "st_cmds s c = Some m \<Longrightarrow> c_phase m = Acquiring \<Longrightarrow> c_pos m = length (c_hashes m) \<Longrightarrow>
     progress s (s\<lparr>st_cmds := (st_cmds s)(c \<mapsto> m\<lparr>c_phase := Holding\<rparr>)\<rparr>)"
| Wake:
    "st_cmds s c = Some m \<Longrightarrow> c_phase m = Waiting \<Longrightarrow> c \<in> st_woken s \<Longrightarrow>
     progress s (s\<lparr>st_cmds := (st_cmds s)(c \<mapsto> m\<lparr>c_phase := Retrying\<rparr>), st_woken := st_woken s - {c}\<rparr>)"
| Expire:
    "st_cmds s c = Some m \<Longrightarrow> c_phase m = Waiting \<Longrightarrow> c \<in> st_woken s \<Longrightarrow>
     progress s (s\<lparr>st_cmds := (st_cmds s)(c \<mapsto>
         m\<lparr>c_hashes := take (c_pos m + 1) (c_hashes m), c_pos := 0, c_phase := Releasing None\<rparr>),
       st_woken := st_woken s - {c}\<rparr>)"
| Finish:
    "st_cmds s c = Some m \<Longrightarrow> c_phase m = Holding \<Longrightarrow>
     progress s (s\<lparr>st_cmds := (st_cmds s)(c \<mapsto> m\<lparr>c_pos := 0, c_phase := Releasing None\<rparr>)\<rparr>)"
| ReleaseOne:
    "st_cmds s c = Some m \<Longrightarrow> c_phase m = Releasing None \<Longrightarrow> c_pos m < length (c_hashes m) \<Longrightarrow>
     release_one (st_latches s) (c_hashes m ! c_pos m) c None [] = Ok (wakeup, keep, ls) \<Longrightarrow>
     progress s (s\<lparr>st_latches := ls, st_cmds := (st_cmds s)(c \<mapsto> m\<lparr>c_pos := c_pos m + 1\<rparr>),
       st_woken := st_woken s \<union> set_option wakeup\<rparr>)"
| ReleaseKeep:
    "st_cmds s c = Some m \<Longrightarrow> c_phase m = Releasing (Some e) \<Longrightarrow> c_pos m < length (c_hashes m) \<Longrightarrow>
     st_cmds s e = Some k \<Longrightarrow>
     release_one (st_latches s) (c_hashes m ! c_pos m) c (Some e) (drop (c_pos k) (c_hashes k)) =
       Ok (wakeup, keep, ls) \<Longrightarrow>
     progress s (s\<lparr>st_latches := ls,
       st_cmds := (st_cmds s)(c \<mapsto> m\<lparr>c_pos := c_pos m + 1\<rparr>, e \<mapsto> k\<lparr>c_pos := length (c_hashes k) - length keep\<rparr>),
       st_woken := st_woken s \<union> set_option wakeup\<rparr>)"
| ReleaseDone:
    "st_cmds s c = Some m \<Longrightarrow> c_phase m = Releasing None \<Longrightarrow> c_pos m = length (c_hashes m) \<Longrightarrow>
     progress s (s\<lparr>st_cmds := (st_cmds s)(c := None)\<rparr>)"
| ReleaseKept:
    "st_cmds s c = Some m \<Longrightarrow> c_phase m = Releasing (Some e) \<Longrightarrow> c_pos m = length (c_hashes m) \<Longrightarrow>
     st_cmds s e = Some k \<Longrightarrow> c_pos k = length (c_hashes k) \<Longrightarrow>
     progress s (s\<lparr>st_cmds := (st_cmds s)(c := None, e \<mapsto> k\<lparr>c_phase := Holding\<rparr>)\<rparr>)"

text \<open>
  New commands: one with the hashes of its keys, or one that gets latches of a finished command,
  for a subset of its hashes.
\<close>

inductive arrival :: "latch_state \<Rightarrow> latch_state \<Rightarrow> bool" where
  Start:
    "st_cmds s c = None \<Longrightarrow> arrival s (s\<lparr>st_cmds := (st_cmds s)(c \<mapsto> new_cmd hashes Acquiring)\<rparr>)"
| HandOver:
    "st_cmds s c = Some m \<Longrightarrow> c_phase m = Holding \<Longrightarrow> st_cmds s e = None \<Longrightarrow> set hashes \<subseteq> set (c_hashes m) \<Longrightarrow>
     arrival s (s\<lparr>st_cmds := (st_cmds s)(c \<mapsto> m\<lparr>c_pos := 0, c_phase := Releasing (Some e)\<rparr>,
       e \<mapsto> new_cmd hashes Inheriting)\<rparr>)"

inductive latch_reachable :: "u64 \<Rightarrow> latch_state \<Rightarrow> bool" for sz where
  "latch_reachable sz (latch_init sz)"
| "latch_reachable sz s \<Longrightarrow> progress s t \<Longrightarrow> latch_reachable sz t"
| "latch_reachable sz s \<Longrightarrow> arrival s t \<Longrightarrow> latch_reachable sz t"

subsection \<open>The invariant\<close>

definition owned :: "cmd \<Rightarrow> u64 list" where
  "owned m =
     (case c_phase m of
        Holding \<Rightarrow> c_hashes m
      | Releasing keep \<Rightarrow> drop (c_pos m) (c_hashes m)
      | _ \<Rightarrow> take (c_pos m) (c_hashes m))"

definition target :: "cmd \<Rightarrow> u64" where
  "target m = c_hashes m ! c_pos m"

definition enqueued :: "cmd \<Rightarrow> bool" where
  "enqueued m \<longleftrightarrow> c_phase m = Waiting \<or> c_phase m = Retrying"

definition cmd_ok :: "cmd \<Rightarrow> bool" where
  "cmd_ok m \<longleftrightarrow> sorted_wrt (<) (c_hashes m) \<and> c_pos m \<le> length (c_hashes m) \<and>
     (enqueued m \<longrightarrow> c_pos m < length (c_hashes m))"

text \<open>A command owns the queues it heads, and a queue holds its owner and those that wait for it.\<close>

definition owners_ok :: "(u64 \<Rightarrow> u64 list) \<Rightarrow> (u64 \<rightharpoonup> cmd) \<Rightarrow> bool" where
  "owners_ok Q C \<longleftrightarrow>
     (\<forall>c m. C c = Some m \<longrightarrow> cmd_ok m \<and> (\<forall>h\<in>set (owned m). \<exists>cs. Q h = c # cs)) \<and>
     (\<forall>h. distinct (Q h) \<and>
        (\<forall>c\<in>set (Q h). \<exists>m. C c = Some m \<and> (h \<in> set (owned m) \<or> enqueued m \<and> h = target m)))"

text \<open>A waiting command is woken exactly when it heads its queue: no wake-up is lost or made up.\<close>

definition waiters_ok :: "(u64 \<Rightarrow> u64 list) \<Rightarrow> (u64 \<rightharpoonup> cmd) \<Rightarrow> u64 set \<Rightarrow> bool" where
  "waiters_ok Q C W \<longleftrightarrow>
     (\<forall>c m. C c = Some m \<longrightarrow> c_phase m = Waiting \<longrightarrow>
        c \<in> set (Q (target m)) \<and> (c \<in> W \<longleftrightarrow> hd (Q (target m)) = c)) \<and>
     (\<forall>c m. C c = Some m \<longrightarrow> c_phase m = Retrying \<longrightarrow> (\<exists>cs. Q (target m) = c # cs)) \<and>
     (\<forall>c\<in>W. \<exists>m. C c = Some m \<and> c_phase m = Waiting)"

text \<open>A command that inherits latches has exactly one command that releases them to it.\<close>

definition heirs_ok :: "(u64 \<rightharpoonup> cmd) \<Rightarrow> bool" where
  "heirs_ok C \<longleftrightarrow>
     (\<forall>c m e. C c = Some m \<longrightarrow> c_phase m = Releasing (Some e) \<longrightarrow>
        (\<exists>k. C e = Some k \<and> c_phase k = Inheriting \<and>
           set (drop (c_pos k) (c_hashes k)) \<subseteq> set (drop (c_pos m) (c_hashes m)))) \<and>
     (\<forall>c m d n e. C c = Some m \<longrightarrow> c_phase m = Releasing (Some e) \<longrightarrow>
        C d = Some n \<longrightarrow> c_phase n = Releasing (Some e) \<longrightarrow> c = d) \<and>
     (\<forall>e k. C e = Some k \<longrightarrow> c_phase k = Inheriting \<longrightarrow>
        (\<exists>c m. C c = Some m \<and> c_phase m = Releasing (Some e)))"

definition latch_inv :: "latch_state \<Rightarrow> bool" where
  "latch_inv s \<longleftrightarrow> latches_ok (st_latches s) \<and> finite (dom (st_cmds s)) \<and>
     owners_ok (lqueue (st_latches s)) (st_cmds s) \<and>
     waiters_ok (lqueue (st_latches s)) (st_cmds s) (st_woken s) \<and> heirs_ok (st_cmds s)"

lemma owners_okD:
  assumes "owners_ok Q C"
  shows "C c = Some m \<Longrightarrow> cmd_ok m"
    and "C c = Some m \<Longrightarrow> h \<in> set (owned m) \<Longrightarrow> \<exists>cs. Q h = c # cs"
    and "distinct (Q h)"
    and "c \<in> set (Q h) \<Longrightarrow> \<exists>m. C c = Some m \<and> (h \<in> set (owned m) \<or> enqueued m \<and> h = target m)"
  using assms unfolding owners_ok_def by blast+

lemma waiters_okD:
  assumes "waiters_ok Q C W"
  shows "C c = Some m \<Longrightarrow> c_phase m = Waiting \<Longrightarrow>
      c \<in> set (Q (target m)) \<and> (c \<in> W \<longleftrightarrow> hd (Q (target m)) = c)"
    and "C c = Some m \<Longrightarrow> c_phase m = Retrying \<Longrightarrow> \<exists>cs. Q (target m) = c # cs"
    and "c \<in> W \<Longrightarrow> \<exists>m. C c = Some m \<and> c_phase m = Waiting"
  using assms unfolding waiters_ok_def by blast+

lemma heirs_okD:
  assumes "heirs_ok C"
  shows "C c = Some m \<Longrightarrow> c_phase m = Releasing (Some e) \<Longrightarrow>
      \<exists>k. C e = Some k \<and> c_phase k = Inheriting \<and>
        set (drop (c_pos k) (c_hashes k)) \<subseteq> set (drop (c_pos m) (c_hashes m))"
    and "C c = Some m \<Longrightarrow> c_phase m = Releasing (Some e) \<Longrightarrow>
      C d = Some n \<Longrightarrow> c_phase n = Releasing (Some e) \<Longrightarrow> c = d"
    and "C e = Some k \<Longrightarrow> c_phase k = Inheriting \<Longrightarrow> \<exists>c m. C c = Some m \<and> c_phase m = Releasing (Some e)"
  using assms unfolding heirs_ok_def by blast+

lemma target_not_taken:
  assumes "sorted_wrt (<) (hs :: u64 list)" "n < length hs"
  shows "hs ! n \<notin> set (take n hs)" "hs ! n \<notin> set (drop (Suc n) hs)"
proof -
  have "hs = take n hs @ hs ! n # drop (Suc n) hs" using assms(2) by (simp add: id_take_nth_drop)
  then have "sorted_wrt (<) (take n hs @ hs ! n # drop (Suc n) hs)" using assms(1) by simp
  then show "hs ! n \<notin> set (take n hs)" "hs ! n \<notin> set (drop (Suc n) hs)"
    by (auto simp: sorted_wrt_append)
qed

text \<open>A command that is not in a queue yet, or only as its owner.\<close>

lemma not_in_target:
  assumes "owners_ok Q C" "C c = Some m" "c_phase m = Acquiring" "c_pos m < length (c_hashes m)"
  shows "c \<notin> set (Q (target m))"
  using owners_okD(4) [OF assms(1), of c "target m"] owners_okD(1) [OF assms(1,2)] assms(2-4)
    target_not_taken(1) [of "c_hashes m" "c_pos m"]
  by (auto simp: owned_def enqueued_def target_def cmd_ok_def)

text \<open>Replacing the state of one command while the queues stay.\<close>

lemma owners_ok_upd:
  assumes "owners_ok Q C" "C c = Some m" "cmd_ok m'"
    and "\<And>h. h \<in> set (owned m') \<Longrightarrow> \<exists>cs. Q h = c # cs"
    and "\<And>h. h \<in> set (owned m) \<or> enqueued m \<and> h = target m \<Longrightarrow>
      h \<in> set (owned m') \<or> enqueued m' \<and> h = target m'"
  shows "owners_ok Q (C(c \<mapsto> m'))"
  unfolding owners_ok_def
proof (intro conjI allI impI ballI)
  fix d n assume "(C(c \<mapsto> m')) d = Some n"
  then show "cmd_ok n" using owners_okD(1) [OF assms(1), of d n] assms(3) by (auto split: if_splits)
next
  fix d n h assume "(C(c \<mapsto> m')) d = Some n" "h \<in> set (owned n)"
  then show "\<exists>cs. Q h = d # cs"
    using owners_okD(2) [OF assms(1), of d n h] assms(4) [of h] by (auto split: if_splits)
next
  fix h show "distinct (Q h)" by (rule owners_okD(3) [OF assms(1)])
next
  fix h d assume "d \<in> set (Q h)"
  then show "\<exists>n. (C(c \<mapsto> m')) d = Some n \<and> (h \<in> set (owned n) \<or> enqueued n \<and> h = target n)"
    using owners_okD(4) [OF assms(1), of d h] assms(2) assms(5) [of h] by auto
qed

lemma waiters_ok_upd:
  assumes "waiters_ok Q C W" "C c = Some m" "c_phase m' \<noteq> Waiting"
    and "c_phase m' = Retrying \<Longrightarrow> \<exists>cs. Q (target m') = c # cs"
  shows "waiters_ok Q (C(c \<mapsto> m')) (W - {c})"
  unfolding waiters_ok_def
proof (intro conjI allI impI ballI)
  fix d n assume "(C(c \<mapsto> m')) d = Some n" "c_phase n = Waiting"
  then have "C d = Some n" "d \<noteq> c" using assms(3) by (auto split: if_splits)
  then show "d \<in> set (Q (target n))" "d \<in> W - {c} \<longleftrightarrow> hd (Q (target n)) = d"
    using waiters_okD(1) [OF assms(1) _ \<open>c_phase n = Waiting\<close>] by auto
next
  fix d n assume "(C(c \<mapsto> m')) d = Some n" "c_phase n = Retrying"
  then show "\<exists>cs. Q (target n) = d # cs"
    using waiters_okD(2) [OF assms(1), of d n] assms(4) by (auto split: if_splits)
next
  fix d assume "d \<in> W - {c}"
  then show "\<exists>n. (C(c \<mapsto> m')) d = Some n \<and> c_phase n = Waiting"
    using waiters_okD(3) [OF assms(1), of d] by auto
qed

lemma heirs_ok_upd:
  assumes "heirs_ok C" "C c = Some m" "c_phase m \<noteq> Inheriting" "c_phase m' \<noteq> Inheriting"
    and "\<And>e. c_phase m \<noteq> Releasing (Some e)" and "\<And>e. c_phase m' \<noteq> Releasing (Some e)"
  shows "heirs_ok (C(c \<mapsto> m'))"
  unfolding heirs_ok_def
proof (intro conjI allI impI)
  fix d n e assume d: "(C(c \<mapsto> m')) d = Some n" "c_phase n = Releasing (Some e)"
  then have "C d = Some n" using assms(6) by (auto split: if_splits)
  then obtain k where "C e = Some k" "c_phase k = Inheriting"
      "set (drop (c_pos k) (c_hashes k)) \<subseteq> set (drop (c_pos n) (c_hashes n))"
    using heirs_okD(1) [OF assms(1) _ d(2)] by blast
  then show "\<exists>k. (C(c \<mapsto> m')) e = Some k \<and> c_phase k = Inheriting \<and>
      set (drop (c_pos k) (c_hashes k)) \<subseteq> set (drop (c_pos n) (c_hashes n))"
    using assms(2,3) by auto
next
  fix d n d' n' e assume "(C(c \<mapsto> m')) d = Some n" "c_phase n = Releasing (Some e)"
    "(C(c \<mapsto> m')) d' = Some n'" "c_phase n' = Releasing (Some e)"
  then show "d = d'" using heirs_okD(2) [OF assms(1), of d n e d' n'] assms(6) [of e] by (auto split: if_splits)
next
  fix e k assume "(C(c \<mapsto> m')) e = Some k" "c_phase k = Inheriting"
  then have "C e = Some k" using assms(4) by (auto split: if_splits)
  then show "\<exists>d n. (C(c \<mapsto> m')) d = Some n \<and> c_phase n = Releasing (Some e)"
    using heirs_okD(3) [OF assms(1) _ \<open>c_phase k = Inheriting\<close>] assms(2,5) by (metis fun_upd_other option.inject)
qed

text \<open>Appending a command to the queue of its next hash.\<close>

lemma owners_ok_enqueue:
  assumes ok: "owners_ok Q C" and m: "C c = Some m" "c_phase m = Acquiring" "c_pos m < length (c_hashes m)"
    and m': "m' = (if Q (target m) = [] then m\<lparr>c_pos := c_pos m + 1\<rparr> else m\<lparr>c_phase := Waiting\<rparr>)"
  shows "owners_ok (Q(target m := Q (target m) @ [c])) (C(c \<mapsto> m'))"
  unfolding owners_ok_def
proof (intro conjI allI impI ballI)
  have new: "c \<notin> set (Q (target m))" by (rule not_in_target [OF ok m])
  have o: "set (owned m') = (if Q (target m) = [] then insert (target m) (set (owned m)) else set (owned m))"
    using m m' by (auto simp: owned_def target_def take_Suc_conv_app_nth)
  have e: "enqueued m' \<longleftrightarrow> Q (target m) \<noteq> []" "target m' = target m \<or> Q (target m) = []"
    using m m' by (auto simp: enqueued_def target_def)
  have ne: "\<not> enqueued m" using m by (simp add: enqueued_def)
  fix d n
  show "cmd_ok n" if "(C(c \<mapsto> m')) d = Some n"
    using that owners_okD(1) [OF ok, of d n] owners_okD(1) [OF ok m(1)] m m'
    by (auto simp: cmd_ok_def enqueued_def split: if_splits)
  show "\<exists>cs. (Q(target m := Q (target m) @ [c])) h = d # cs"
    if p: "(C(c \<mapsto> m')) d = Some n" "h \<in> set (owned n)" for h
  proof (cases "d = c")
    case True
    then have "h = target m \<and> Q h = [] \<or> (\<exists>cs. Q h = c # cs)"
      using p owners_okD(2) [OF ok m(1), of h] o by (auto split: if_splits)
    then show ?thesis using True by auto
  next
    case False
    then have "C d = Some n" using p(1) by simp
    then obtain cs where "Q h = d # cs" using owners_okD(2) [OF ok _ p(2)] by blast
    then show ?thesis by (cases "h = target m") simp_all
  qed
  show "distinct ((Q(target m := Q (target m) @ [c])) h)" for h
    using owners_okD(3) [OF ok, of h] new by auto
  show "\<exists>n. (C(c \<mapsto> m')) d = Some n \<and> (h \<in> set (owned n) \<or> enqueued n \<and> h = target n)"
    if "d \<in> set ((Q(target m := Q (target m) @ [c])) h)" for d h
  proof (cases "d = c")
    case True
    then have "h = target m \<or> c \<in> set (Q h)" using that by (auto split: if_splits)
    then have "h = target m \<or> h \<in> set (owned m)"
      using owners_okD(4) [OF ok, of c h] m(1) ne by auto
    then show ?thesis using o e True by (cases "Q (target m) = []") auto
  next
    case False
    then have "d \<in> set (Q h)" using that by (auto split: if_splits)
    then show ?thesis using owners_okD(4) [OF ok, of d h] False by auto
  qed
qed

lemma waiters_ok_enqueue:
  assumes ok: "owners_ok Q C" "waiters_ok Q C W"
    and m: "C c = Some m" "c_phase m = Acquiring" "c_pos m < length (c_hashes m)"
    and m': "m' = (if Q (target m) = [] then m\<lparr>c_pos := c_pos m + 1\<rparr> else m\<lparr>c_phase := Waiting\<rparr>)"
  shows "waiters_ok (Q(target m := Q (target m) @ [c])) (C(c \<mapsto> m')) W"
  unfolding waiters_ok_def
proof (intro conjI allI impI ballI)
  have new: "c \<notin> set (Q (target m))" by (rule not_in_target [OF ok(1) m])
  have nw: "c \<notin> W" using waiters_okD(3) [OF ok(2), of c] m by auto
  have ph: "c_phase m' = Waiting \<Longrightarrow> Q (target m) \<noteq> [] \<and> target m' = target m" "c_phase m' \<noteq> Retrying"
    using m m' by (auto simp: target_def split: if_splits)
  let ?Q = "Q(target m := Q (target m) @ [c])"
  fix d n assume d: "(C(c \<mapsto> m')) d = Some n"
  show "d \<in> set (?Q (target n))" "d \<in> W \<longleftrightarrow> hd (?Q (target n)) = d" if w: "c_phase n = Waiting"
  proof -
    have "d \<in> set (?Q (target n)) \<and> (d \<in> W \<longleftrightarrow> hd (?Q (target n)) = d)"
    proof (cases "d = c")
      case True
      then have n: "n = m'" using d by simp
      then have "Q (target m) \<noteq> []" "target n = target m" using w ph by auto
      moreover have "hd (Q (target m)) \<noteq> c" using new calculation(1) by (metis hd_in_set)
      ultimately show ?thesis using nw True by simp
    next
      case False
      then have "C d = Some n" using d by simp
      then have x: "d \<in> set (Q (target n))" "d \<in> W \<longleftrightarrow> hd (Q (target n)) = d"
        using waiters_okD(1) [OF ok(2) _ w] by blast+
      then have "hd (?Q (target n)) = hd (Q (target n))" by (auto simp: hd_append)
      moreover have "d \<in> set (?Q (target n))" using x(1) by (cases "target n = target m") simp_all
      ultimately show ?thesis using x(2) by metis
    qed
    then show "d \<in> set (?Q (target n))" "d \<in> W \<longleftrightarrow> hd (?Q (target n)) = d" by simp_all
  qed
  show "\<exists>cs. ?Q (target n) = d # cs" if "c_phase n = Retrying"
    using that d ph waiters_okD(2) [OF ok(2), of d n] by (auto split: if_splits)
next
  fix d assume "d \<in> W"
  then show "\<exists>n. (C(c \<mapsto> m')) d = Some n \<and> c_phase n = Waiting"
    using waiters_okD(3) [OF ok(2), of d] m by (auto split: if_splits)
qed

text \<open>Removing the owner of a queue.\<close>

lemma owned_release:
  assumes "cmd_ok m" "c_phase m = Releasing keep" "c_pos m < length (c_hashes m)"
  shows "owned m = target m # owned (m\<lparr>c_pos := c_pos m + 1\<rparr>)"
    "target m \<notin> set (owned (m\<lparr>c_pos := c_pos m + 1\<rparr>))"
  using assms target_not_taken(2) [of "c_hashes m" "c_pos m"]
  by (simp_all add: owned_def target_def cmd_ok_def Cons_nth_drop_Suc)

lemma owners_ok_release:
  assumes ok: "owners_ok Q C" and m: "C c = Some m" "c_phase m = Releasing keep" "c_pos m < length (c_hashes m)"
    and Q: "Q (target m) = c # cs"
  shows "owners_ok (Q(target m := cs)) (C(c \<mapsto> m\<lparr>c_pos := c_pos m + 1\<rparr>))"
  unfolding owners_ok_def
proof (intro conjI allI impI ballI)
  note o = owned_release [OF owners_okD(1) [OF ok m(1)] m(2,3)]
  have ne: "\<not> enqueued m" using m by (simp add: enqueued_def)
  have dist: "distinct (c # cs)" using owners_okD(3) [OF ok, of "target m"] Q by simp
  let ?m = "m\<lparr>c_pos := c_pos m + 1\<rparr>"
  fix d n
  show "cmd_ok n" if "(C(c \<mapsto> ?m)) d = Some n"
    using that owners_okD(1) [OF ok, of d n] owners_okD(1) [OF ok m(1)] m
    by (auto simp: cmd_ok_def enqueued_def split: if_splits)
  show "\<exists>ds. (Q(target m := cs)) h = d # ds" if p: "(C(c \<mapsto> ?m)) d = Some n" "h \<in> set (owned n)" for h
  proof -
    have "(\<exists>ds. Q h = d # ds) \<and> h \<noteq> target m"
    proof (cases "d = c")
      case True
      then show ?thesis using p o owners_okD(2) [OF ok m(1), of h] by auto
    next
      case False
      then have "\<exists>ds. Q h = d # ds" using p owners_okD(2) [OF ok, of d n h] by simp
      then show ?thesis using False Q by auto
    qed
    then show ?thesis by simp
  qed
  show "distinct ((Q(target m := cs)) h)" for h using owners_okD(3) [OF ok, of h] dist by simp
  show "\<exists>n. (C(c \<mapsto> ?m)) d = Some n \<and> (h \<in> set (owned n) \<or> enqueued n \<and> h = target n)"
    if p: "d \<in> set ((Q(target m := cs)) h)" for d h
  proof (cases "d = c")
    case True
    then have "h \<noteq> target m" "c \<in> set (Q h)" using p dist by (auto split: if_splits)
    then show ?thesis using owners_okD(4) [OF ok, of c h] m(1) ne o(1) True by auto
  next
    case False
    then have "d \<in> set (Q h)" using p Q by (auto split: if_splits)
    then show ?thesis using owners_okD(4) [OF ok, of d h] False by auto
  qed
qed

lemma next_waiter:
  assumes "owners_ok Q C" "waiters_ok Q C W" "Q h = c # cs" "d \<in> set cs"
  shows "d \<noteq> c \<and> d \<notin> W \<and> (\<exists>n. C d = Some n \<and> c_phase n = Waiting \<and> target n = h)"
proof -
  have d: "d \<in> set (Q h)" "d \<noteq> c" using assms(3,4) owners_okD(3) [OF assms(1), of h] by auto
  then obtain n where n: "C d = Some n" "h \<in> set (owned n) \<or> enqueued n \<and> h = target n"
    using owners_okD(4) [OF assms(1)] by blast
  have "h \<notin> set (owned n)" using owners_okD(2) [OF assms(1) n(1), of h] assms(3) d(2) by auto
  then have e: "enqueued n" "h = target n" using n(2) by auto
  moreover have "c_phase n \<noteq> Retrying" using waiters_okD(2) [OF assms(2) n(1)] assms(3) d(2) e(2) by auto
  ultimately have w: "c_phase n = Waiting" by (simp add: enqueued_def)
  have "d \<notin> W" using waiters_okD(1) [OF assms(2) n(1) w] assms(3) d(2) e(2) by simp
  then show ?thesis using n(1) w e(2) d(2) by simp
qed

lemma waiters_ok_release:
  assumes ok: "owners_ok Q C" "waiters_ok Q C W" and m: "C c = Some m" "c_phase m = Releasing keep"
    and Q: "Q h = c # cs" and m': "c_phase m' = Releasing keep"
  shows "waiters_ok (Q(h := cs)) (C(c \<mapsto> m')) (W \<union> set_option (case cs of [] \<Rightarrow> None | d # ds \<Rightarrow> Some d))"
  unfolding waiters_ok_def
proof (intro conjI allI impI ballI)
  let ?W = "W \<union> set_option (case cs of [] \<Rightarrow> None | d # ds \<Rightarrow> Some d)"
  have W: "d \<in> ?W \<longleftrightarrow> d \<in> W \<or> cs \<noteq> [] \<and> d = hd cs" for d by (cases cs) auto
  note nxt = next_waiter [OF ok Q]
  fix d n assume d: "(C(c \<mapsto> m')) d = Some n"
  show "d \<in> set ((Q(h := cs)) (target n))" "d \<in> ?W \<longleftrightarrow> hd ((Q(h := cs)) (target n)) = d"
    if w: "c_phase n = Waiting"
  proof -
    have "d \<noteq> c" "C d = Some n" using d w m' by (auto split: if_splits)
    then have x: "d \<in> set (Q (target n))" "d \<in> W \<longleftrightarrow> hd (Q (target n)) = d"
      using waiters_okD(1) [OF ok(2) _ w] by blast+
    have "d \<in> set ((Q(h := cs)) (target n)) \<and> (d \<in> ?W \<longleftrightarrow> hd ((Q(h := cs)) (target n)) = d)"
    proof (cases "target n = h")
      case True
      then have "d \<in> set cs" using x(1) Q \<open>d \<noteq> c\<close> by simp
      then show ?thesis using nxt [of d] True W [of d] by auto
    next
      case False
      then have "cs \<noteq> [] \<Longrightarrow> d \<noteq> hd cs" using nxt [of d] \<open>C d = Some n\<close> by (metis hd_in_set option.inject)
      then have "d \<in> ?W \<longleftrightarrow> d \<in> W" using W [of d] by blast
      then show ?thesis using False x by simp
    qed
    then show "d \<in> set ((Q(h := cs)) (target n))" "d \<in> ?W \<longleftrightarrow> hd ((Q(h := cs)) (target n)) = d"
      by simp_all
  qed
  show "\<exists>ds. (Q(h := cs)) (target n) = d # ds" if r: "c_phase n = Retrying"
  proof -
    have "d \<noteq> c" "C d = Some n" using d r m' by (auto split: if_splits)
    then show ?thesis using waiters_okD(2) [OF ok(2) _ r] Q by auto
  qed
next
  fix d assume "d \<in> W \<union> set_option (case cs of [] \<Rightarrow> None | d # ds \<Rightarrow> Some d)"
  then have "d \<in> W \<or> d \<in> set cs" by (cases cs) auto
  then have "d \<noteq> c \<and> (\<exists>n. C d = Some n \<and> c_phase n = Waiting)"
    using waiters_okD(3) [OF ok(2), of d] next_waiter [OF ok Q, of d] m by auto
  then show "\<exists>n. (C(c \<mapsto> m')) d = Some n \<and> c_phase n = Waiting" by auto
qed

text \<open>Handing a queue to an heir.\<close>

lemma heir_target:
  assumes "owners_ok Q C" "C e = Some k" "c_phase k = Inheriting" "c_pos k < length (c_hashes k)"
  shows "e \<notin> set (Q (target k))"
  using owners_okD(4) [OF assms(1), of e "target k"] owners_okD(1) [OF assms(1,2)] assms(2-4)
    target_not_taken(1) [of "c_hashes k" "c_pos k"]
  by (auto simp: owned_def enqueued_def target_def cmd_ok_def)

lemma owners_ok_inherit:
  assumes ok: "owners_ok Q C" and k: "C e = Some k" "c_phase k = Inheriting" "c_pos k < length (c_hashes k)"
    and free: "\<And>d n. C d = Some n \<Longrightarrow> target k \<notin> set (owned n)"
  shows "owners_ok (Q(target k := e # Q (target k))) (C(e \<mapsto> k\<lparr>c_pos := c_pos k + 1\<rparr>))"
  unfolding owners_ok_def
proof (intro conjI allI impI ballI)
  let ?k = "k\<lparr>c_pos := c_pos k + 1\<rparr>" and ?Q = "Q(target k := e # Q (target k))"
  have o: "set (owned ?k) = insert (target k) (set (owned k))"
    using k by (auto simp: owned_def target_def take_Suc_conv_app_nth)
  have ne: "\<not> enqueued k" using k by (simp add: enqueued_def)
  fix d n
  show "cmd_ok n" if "(C(e \<mapsto> ?k)) d = Some n"
    using that owners_okD(1) [OF ok, of d n] owners_okD(1) [OF ok k(1)] k
    by (auto simp: cmd_ok_def enqueued_def split: if_splits)
  show "\<exists>cs. ?Q h = d # cs" if p: "(C(e \<mapsto> ?k)) d = Some n" "h \<in> set (owned n)" for h
  proof (cases "d = e")
    case True
    then show ?thesis using p o owners_okD(2) [OF ok k(1), of h] by auto
  next
    case False
    then have "C d = Some n" using p(1) by simp
    then show ?thesis using free [of d n] p(2) owners_okD(2) [OF ok, of d n h] by auto
  qed
  show "distinct (?Q h)" for h using owners_okD(3) [OF ok, of h] heir_target [OF ok k] by auto
  show "\<exists>n. (C(e \<mapsto> ?k)) d = Some n \<and> (h \<in> set (owned n) \<or> enqueued n \<and> h = target n)"
    if p: "d \<in> set (?Q h)" for d h
  proof (cases "d = e")
    case True
    then have "h = target k \<or> e \<in> set (Q h)" using p by (auto split: if_splits)
    then have "h \<in> set (owned ?k)" using owners_okD(4) [OF ok, of e h] k(1) ne o by auto
    then show ?thesis using True by simp
  next
    case False
    then have "d \<in> set (Q h)" using p by (auto split: if_splits)
    then show ?thesis using owners_okD(4) [OF ok, of d h] False by auto
  qed
qed

lemma owners_ok_handover:
  assumes ok: "owners_ok Q C" and m: "C c = Some m" "c_phase m = Releasing keep" "c_pos m < length (c_hashes m)"
    and Q: "Q (target m) = c # cs"
    and k: "C e = Some k" "c_phase k = Inheriting" "c_pos k < length (c_hashes k)" "target k = target m"
  shows "owners_ok (Q(target m := e # cs)) (C(c \<mapsto> m\<lparr>c_pos := c_pos m + 1\<rparr>, e \<mapsto> k\<lparr>c_pos := c_pos k + 1\<rparr>))"
proof -
  let ?C = "C(c \<mapsto> m\<lparr>c_pos := c_pos m + 1\<rparr>)" and ?Q = "Q(target m := cs)"
  have ce: "e \<noteq> c" using m k by auto
  have "target k \<notin> set (owned n)" if "?C d = Some n" for d n
  proof (cases "d = c")
    case True
    then show ?thesis using that owned_release(2) [OF owners_okD(1) [OF ok m(1)] m(2,3)] k(4) by simp
  next
    case False
    then show ?thesis using that owners_okD(2) [OF ok, of d n "target k"] Q k(4) by auto
  qed
  from owners_ok_inherit [OF owners_ok_release [OF ok m Q] _ k(2,3) this] show ?thesis
    using k ce by simp
qed

lemma waiters_ok_handover:
  assumes ok: "owners_ok Q C" "waiters_ok Q C W" and m: "C c = Some m" "c_phase m = Releasing keep"
    and Q: "Q h = c # cs" and m': "c_phase m' = Releasing keep"
    and k: "C e = Some k" "c_phase k = Inheriting" "c_phase k' = Inheriting"
  shows "waiters_ok (Q(h := e # cs)) (C(c \<mapsto> m', e \<mapsto> k')) W"
  unfolding waiters_ok_def
proof (intro conjI allI impI ballI)
  fix d n assume d: "(C(c \<mapsto> m', e \<mapsto> k')) d = Some n"
  show "d \<in> set ((Q(h := e # cs)) (target n))" "d \<in> W \<longleftrightarrow> hd ((Q(h := e # cs)) (target n)) = d"
    if w: "c_phase n = Waiting"
  proof -
    have dc: "d \<noteq> c" "d \<noteq> e" "C d = Some n" using d w m' k(3) by (auto split: if_splits)
    then have x: "d \<in> set (Q (target n))" "d \<in> W \<longleftrightarrow> hd (Q (target n)) = d"
      using waiters_okD(1) [OF ok(2) _ w] by blast+
    have "d \<in> set ((Q(h := e # cs)) (target n)) \<and> (d \<in> W \<longleftrightarrow> hd ((Q(h := e # cs)) (target n)) = d)"
      using x Q dc(1,2) by (cases "target n = h") auto
    then show "d \<in> set ((Q(h := e # cs)) (target n))" "d \<in> W \<longleftrightarrow> hd ((Q(h := e # cs)) (target n)) = d"
      by simp_all
  qed
  show "\<exists>ds. (Q(h := e # cs)) (target n) = d # ds" if r: "c_phase n = Retrying"
  proof -
    have "d \<noteq> c" "C d = Some n" using d r m' k(3) by (auto split: if_splits)
    then show ?thesis using waiters_okD(2) [OF ok(2) _ r] Q by auto
  qed
next
  fix d assume "d \<in> W"
  then obtain n where "C d = Some n" "c_phase n = Waiting" using waiters_okD(3) [OF ok(2)] by blast
  then show "\<exists>n. (C(c \<mapsto> m', e \<mapsto> k')) d = Some n \<and> c_phase n = Waiting" using m k by auto
qed

text \<open>Commands that leave and commands that come.\<close>

lemma owners_ok_remove:
  assumes "owners_ok Q C" "C c = Some m" "owned m = []" "\<not> enqueued m"
  shows "owners_ok Q (C(c := None))"
proof -
  have "c \<notin> set (Q h)" for h using owners_okD(4) [OF assms(1), of c h] assms(2-4) by auto
  then show ?thesis
    unfolding owners_ok_def using owners_okD [OF assms(1)]
    by (intro conjI allI impI ballI) (auto split: if_splits)
qed

lemma waiters_ok_remove:
  assumes "waiters_ok Q C W" "C c = Some m" "c_phase m \<noteq> Waiting"
  shows "waiters_ok Q (C(c := None)) W"
proof -
  have "c \<notin> W" using waiters_okD(3) [OF assms(1), of c] assms(2,3) by auto
  then have "d \<in> W \<Longrightarrow> \<exists>n. (C(c := None)) d = Some n \<and> c_phase n = Waiting" for d
    using waiters_okD(3) [OF assms(1), of d] by auto
  moreover have "(C(c := None)) d = Some n \<Longrightarrow> C d = Some n" for d n by (auto split: if_splits)
  ultimately show ?thesis using assms(1) unfolding waiters_ok_def by blast
qed

lemma owners_ok_new:
  assumes "owners_ok Q C" "C c = None" "cmd_ok m" "owned m = []"
  shows "owners_ok Q (C(c \<mapsto> m))"
  unfolding owners_ok_def
proof (intro conjI allI impI ballI)
  fix d n assume "(C(c \<mapsto> m)) d = Some n"
  then show "cmd_ok n" using owners_okD(1) [OF assms(1), of d n] assms(3) by (auto split: if_splits)
next
  fix d n h assume "(C(c \<mapsto> m)) d = Some n" "h \<in> set (owned n)"
  then show "\<exists>cs. Q h = d # cs" using owners_okD(2) [OF assms(1), of d n h] assms(4) by (auto split: if_splits)
next
  fix h show "distinct (Q h)" by (rule owners_okD(3) [OF assms(1)])
next
  fix h d assume "d \<in> set (Q h)"
  then show "\<exists>n. (C(c \<mapsto> m)) d = Some n \<and> (h \<in> set (owned n) \<or> enqueued n \<and> h = target n)"
    using owners_okD(4) [OF assms(1), of d h] assms(2) by auto
qed

lemma waiters_ok_new:
  assumes "waiters_ok Q C W" "C c = None" "\<not> enqueued m"
  shows "waiters_ok Q (C(c \<mapsto> m)) W"
proof -
  have "c \<notin> W" using waiters_okD(3) [OF assms(1), of c] assms(2) by auto
  then have "d \<in> W \<Longrightarrow> \<exists>n. (C(c \<mapsto> m)) d = Some n \<and> c_phase n = Waiting" for d
    using waiters_okD(3) [OF assms(1), of d] by auto
  moreover have "(C(c \<mapsto> m)) d = Some n \<Longrightarrow> enqueued n \<Longrightarrow> C d = Some n" for d n
    using assms(3) by (auto split: if_splits)
  ultimately show ?thesis using assms(1) unfolding waiters_ok_def enqueued_def by blast
qed

lemma heirs_ok_new:
  assumes "heirs_ok C" "C c = None" "c_phase m = Acquiring"
  shows "heirs_ok (C(c \<mapsto> m))"
  unfolding heirs_ok_def
proof (intro conjI allI impI)
  fix d n e assume d: "(C(c \<mapsto> m)) d = Some n" "c_phase n = Releasing (Some e)"
  then have "C d = Some n" using assms(3) by (auto split: if_splits)
  from heirs_okD(1) [OF assms(1) this d(2)] show "\<exists>k. (C(c \<mapsto> m)) e = Some k \<and> c_phase k = Inheriting \<and>
      set (drop (c_pos k) (c_hashes k)) \<subseteq> set (drop (c_pos n) (c_hashes n))"
    using assms(2) by (metis fun_upd_other option.distinct(1))
next
  fix d n d' n' e assume "(C(c \<mapsto> m)) d = Some n" "c_phase n = Releasing (Some e)"
    "(C(c \<mapsto> m)) d' = Some n'" "c_phase n' = Releasing (Some e)"
  then show "d = d'" using heirs_okD(2) [OF assms(1), of d n e d' n'] assms(3) by (auto split: if_splits)
next
  fix e k assume "(C(c \<mapsto> m)) e = Some k" "c_phase k = Inheriting"
  then have "C e = Some k" using assms(3) by (auto split: if_splits)
  then show "\<exists>d n. (C(c \<mapsto> m)) d = Some n \<and> c_phase n = Releasing (Some e)"
    using heirs_okD(3) [OF assms(1) _ \<open>c_phase k = Inheriting\<close>] assms(2) by (metis fun_upd_other option.distinct(1))
qed

lemma heirs_ok_remove:
  assumes "heirs_ok C" "C c = Some m" "c_phase m = Releasing None"
  shows "heirs_ok (C(c := None))"
proof -
  let ?C = "C(c := None)"
  have C: "?C d = Some n \<Longrightarrow> C d = Some n" for d n by (auto split: if_splits)
  have stays: "C d = Some n \<Longrightarrow> c_phase n \<noteq> Releasing None \<Longrightarrow> ?C d = Some n" for d n
    using assms(2,3) by auto
  show ?thesis
    unfolding heirs_ok_def
  proof (intro conjI allI impI)
    fix d n e assume "?C d = Some n" "c_phase n = Releasing (Some e)"
    with heirs_okD(1) [OF assms(1) C] show "\<exists>k. ?C e = Some k \<and> c_phase k = Inheriting \<and>
        set (drop (c_pos k) (c_hashes k)) \<subseteq> set (drop (c_pos n) (c_hashes n))"
      using stays by fastforce
  next
    fix d n d' n' e assume "?C d = Some n" "c_phase n = Releasing (Some e)"
      "?C d' = Some n'" "c_phase n' = Releasing (Some e)"
    then show "d = d'" using heirs_okD(2) [OF assms(1) C _ C] by blast
  next
    fix e k assume "?C e = Some k" "c_phase k = Inheriting"
    with heirs_okD(3) [OF assms(1) C] obtain d n where "C d = Some n" "c_phase n = Releasing (Some e)" by blast
    then show "\<exists>d n. ?C d = Some n \<and> c_phase n = Releasing (Some e)" using stays by fastforce
  qed
qed

lemma heirs_ok_keep:
  assumes ok: "heirs_ok C" and m: "C c = Some m" "c_phase m = Releasing (Some e)" "c_phase m' = Releasing (Some e)"
    and k: "C e = Some k" "c_phase k' = Inheriting"
    and sub: "set (drop (c_pos k') (c_hashes k')) \<subseteq> set (drop (c_pos m') (c_hashes m'))"
  shows "heirs_ok (C(c \<mapsto> m', e \<mapsto> k'))"
  unfolding heirs_ok_def
proof (intro conjI allI impI)
  let ?C = "C(c \<mapsto> m', e \<mapsto> k')"
  have e: "c_phase k = Inheriting" "e \<noteq> c" using heirs_okD(1) [OF ok m(1,2)] k(1) m by auto
  fix d n f assume d: "?C d = Some n" "c_phase n = Releasing (Some f)"
  have de: "d \<noteq> e" using d k(2) by (auto split: if_splits)
  show "\<exists>j. ?C f = Some j \<and> c_phase j = Inheriting \<and>
      set (drop (c_pos j) (c_hashes j)) \<subseteq> set (drop (c_pos n) (c_hashes n))"
  proof (cases "d = c")
    case True
    then have "n = m'" "f = e" using d de m(3) by auto
    then show ?thesis using k(2) sub by simp
  next
    case False
    then have C: "C d = Some n" using d de by simp
    then have "f \<noteq> e" using heirs_okD(2) [OF ok m(1,2), of d n] d(2) False by auto
    moreover have "f \<noteq> c" using heirs_okD(1) [OF ok C d(2)] m by auto
    ultimately show ?thesis using heirs_okD(1) [OF ok C d(2)] by simp
  qed
  show "d = d'" if "?C d' = Some n'" "c_phase n' = Releasing (Some f)" for d' n'
    using that d de k(2) m heirs_okD(2) [OF ok, of d n f d' n'] heirs_okD(2) [OF ok, of d n f c m]
      heirs_okD(2) [OF ok, of c m f d' n']
    by (auto split: if_splits)
next
  let ?C = "C(c \<mapsto> m', e \<mapsto> k')"
  have e: "e \<noteq> c" using heirs_okD(1) [OF ok m(1,2)] k(1) m by auto
  fix f j assume f: "?C f = Some j" "c_phase j = Inheriting"
  show "\<exists>d n. ?C d = Some n \<and> c_phase n = Releasing (Some f)"
  proof (cases "f = e")
    case True
    then show ?thesis using m(3) e by (intro exI [of _ c] exI [of _ m']) simp
  next
    case False
    then have "C f = Some j" "f \<noteq> c" using f m(3) by (auto split: if_splits)
    then obtain d n where "C d = Some n" "c_phase n = Releasing (Some f)" using heirs_okD(3) [OF ok _ f(2)] by blast
    moreover have "d \<noteq> c" "d \<noteq> e" using calculation m(1,2) False heirs_okD(1) [OF ok m(1,2)] by auto
    ultimately show ?thesis by (intro exI [of _ d] exI [of _ n]) simp
  qed
qed

subsection \<open>Every step keeps the invariant\<close>

lemma latch_invD:
  assumes "latch_inv s"
  shows "latches_ok (st_latches s)" "finite (dom (st_cmds s))"
    "owners_ok (lqueue (st_latches s)) (st_cmds s)"
    "waiters_ok (lqueue (st_latches s)) (st_cmds s) (st_woken s)" "heirs_ok (st_cmds s)"
  using assms by (simp_all add: latch_inv_def)

lemma acquire_first:
  assumes "latch_inv s" "st_cmds s c = Some m" "c_phase m = Acquiring" "c_pos m < length (c_hashes m)"
  shows "\<exists>ls. acquire_one (st_latches s) (target m) c = Ok (lqueue (st_latches s) (target m) = [], ls) \<and>
    latches_ok ls \<and>
    lqueue ls = (lqueue (st_latches s))(target m := lqueue (st_latches s) (target m) @ [c])"
proof -
  have "hd (lqueue (st_latches s) (target m)) \<noteq> c" if "lqueue (st_latches s) (target m) \<noteq> []"
    using not_in_target [OF latch_invD(3) [OF assms(1)] assms(2-4)] hd_in_set [OF that] by metis
  then show ?thesis
    using acquire_one_eq [OF latch_invD(1) [OF assms(1)], of "target m" c] by auto
qed

lemma acquire_again:
  assumes "latch_inv s" "st_cmds s c = Some m" "c_phase m = Retrying"
  shows "\<exists>ls. acquire_one (st_latches s) (target m) c = Ok (True, ls) \<and>
    latches_ok ls \<and> lqueue ls = lqueue (st_latches s)"
  using acquire_one_eq [OF latch_invD(1) [OF assms(1)], of "target m" c]
    waiters_okD(2) [OF latch_invD(4) [OF assms(1)] assms(2,3)]
  by auto

lemma release_queue:
  assumes "latch_inv s" "st_cmds s c = Some m" "c_phase m = Releasing keep" "c_pos m < length (c_hashes m)"
  shows "\<exists>cs. lqueue (st_latches s) (target m) = c # cs"
proof -
  have "target m \<in> set (owned m)"
    using owned_release(1) [OF owners_okD(1) [OF latch_invD(3) [OF assms(1)] assms(2)] assms(3,4)]
    by (metis list.set_intros(1))
  then show ?thesis using owners_okD(2) [OF latch_invD(3) [OF assms(1)] assms(2)] by blast
qed

lemma kept_hashes:
  assumes "latch_inv s" "st_cmds s c = Some m" "c_phase m = Releasing (Some e)" "c_pos m < length (c_hashes m)"
    and k: "st_cmds s e = Some k"
  shows "c_phase k = Inheriting \<and>
    (case drop (c_pos k) (c_hashes k) of
       [] \<Rightarrow> True
     | a # as \<Rightarrow> c_pos k < length (c_hashes k) \<and> target k = a \<and> as = drop (c_pos k + 1) (c_hashes k) \<and> target m \<le> a \<and>
         set (if a = target m then as else a # as) \<subseteq> set (drop (c_pos m + 1) (c_hashes m)))"
proof -
  note ok = owners_okD(1) [OF latch_invD(3) [OF assms(1)]]
  have sub: "c_phase k = Inheriting" "set (drop (c_pos k) (c_hashes k)) \<subseteq> set (drop (c_pos m) (c_hashes m))"
    using heirs_okD(1) [OF latch_invD(5) [OF assms(1)] assms(2,3)] k by auto
  have dm: "drop (c_pos m) (c_hashes m) = target m # drop (c_pos m + 1) (c_hashes m)"
    using assms(4) by (simp add: target_def Cons_nth_drop_Suc)
  have sm: "sorted_wrt (<) (drop (c_pos m) (c_hashes m))" "sorted_wrt (<) (drop (c_pos k) (c_hashes k))"
    using ok [OF assms(2)] ok [OF k] by (simp_all add: cmd_ok_def sorted_wrt_drop)
  show ?thesis
  proof (cases "drop (c_pos k) (c_hashes k)")
    case (Cons a as)
    have lt: "c_pos k < length (c_hashes k)" using Cons by (metis drop_all list.distinct(1) not_le)
    then have k': "target k = a" "as = drop (c_pos k + 1) (c_hashes k)"
      using Cons Cons_nth_drop_Suc [OF lt] by (simp_all add: target_def)
    have "a = target m \<or> a \<in> set (drop (c_pos m + 1) (c_hashes m))" "\<forall>x\<in>set as. a < x"
      "\<forall>x\<in>set as. x = target m \<or> x \<in> set (drop (c_pos m + 1) (c_hashes m))"
      "\<forall>x\<in>set (drop (c_pos m + 1) (c_hashes m)). target m < x"
      using sub(2) sm Cons dm by auto
    then show ?thesis using sub(1) Cons lt k' by fastforce
  qed (use sub in simp)
qed

lemma acquire_inv:
  assumes i: "latch_inv s" and c: "st_cmds s c = Some m" "c_phase m = Acquiring \<or> c_phase m = Retrying"
    "c_pos m < length (c_hashes m)" and a: "acquire_one (st_latches s) (target m) c = Ok (got, ls)"
    and m': "m' = (if got then m\<lparr>c_pos := c_pos m + 1, c_phase := Acquiring\<rparr> else m\<lparr>c_phase := Waiting\<rparr>)"
  shows "latch_inv (s\<lparr>st_latches := ls, st_cmds := (st_cmds s)(c \<mapsto> m')\<rparr>)"
proof (cases "c_phase m = Acquiring")
  case True
  let ?q = "lqueue (st_latches s) (target m)"
  have ls: "got \<longleftrightarrow> ?q = []" "latches_ok ls" "lqueue ls = (lqueue (st_latches s))(target m := ?q @ [c])"
    using acquire_first [OF i c(1) True c(3)] a by auto
  have m'': "m' = (if ?q = [] then m\<lparr>c_pos := c_pos m + 1\<rparr> else m\<lparr>c_phase := Waiting\<rparr>)"
    using m' ls(1) True by simp
  show ?thesis
    unfolding latch_inv_def
    using owners_ok_enqueue [OF latch_invD(3) [OF i] c(1) True c(3) m'']
      waiters_ok_enqueue [OF latch_invD(3,4) [OF i] c(1) True c(3) m'']
      heirs_ok_upd [OF latch_invD(5) [OF i] c(1), of m'] latch_invD(2) [OF i] ls True m'
    by auto
next
  case False
  then have r: "c_phase m = Retrying" using c(2) by simp
  have ls: "got" "latches_ok ls" "lqueue ls = lqueue (st_latches s)"
    using acquire_again [OF i c(1) r] a by auto
  then have m'': "m' = m\<lparr>c_pos := c_pos m + 1, c_phase := Acquiring\<rparr>" using m' by simp
  have o: "set (owned m') = insert (target m) (set (owned m))"
    using r c(3) m'' by (auto simp: owned_def target_def take_Suc_conv_app_nth)
  have "owners_ok (lqueue ls) ((st_cmds s)(c \<mapsto> m'))"
    unfolding ls(3)
  proof (rule owners_ok_upd [OF latch_invD(3) [OF i] c(1)])
    show "cmd_ok m'" using owners_okD(1) [OF latch_invD(3) [OF i] c(1)] c(3) m'' by (simp add: cmd_ok_def enqueued_def)
    show "\<exists>cs. lqueue (st_latches s) h = c # cs" if "h \<in> set (owned m')" for h
      using that o owners_okD(2) [OF latch_invD(3) [OF i] c(1), of h]
        waiters_okD(2) [OF latch_invD(4) [OF i] c(1) r] by auto
  qed (use o in auto)
  moreover have "st_woken s - {c} = st_woken s"
    using waiters_okD(3) [OF latch_invD(4) [OF i], of c] c(1) r by auto
  then have "waiters_ok (lqueue ls) ((st_cmds s)(c \<mapsto> m')) (st_woken s)"
    using waiters_ok_upd [OF latch_invD(4) [OF i] c(1), of m'] ls(3) m'' by auto
  ultimately show ?thesis
    unfolding latch_inv_def
    using heirs_ok_upd [OF latch_invD(5) [OF i] c(1), of m'] latch_invD(2) [OF i] ls r m'' by auto
qed

lemma release_none_inv:
  assumes i: "latch_inv s" and c: "st_cmds s c = Some m" "c_phase m = Releasing None" "c_pos m < length (c_hashes m)"
    and r: "release_one (st_latches s) (target m) c None [] = Ok (wakeup, keep, ls)"
  shows "latch_inv (s\<lparr>st_latches := ls, st_cmds := (st_cmds s)(c \<mapsto> m\<lparr>c_pos := c_pos m + 1\<rparr>),
    st_woken := st_woken s \<union> set_option wakeup\<rparr>)"
proof -
  obtain cs where q: "lqueue (st_latches s) (target m) = c # cs" using release_queue [OF i c] by blast
  have ls: "wakeup = (case cs of [] \<Rightarrow> None | d # ds \<Rightarrow> Some d)" "latches_ok ls"
    "lqueue ls = (lqueue (st_latches s))(target m := cs)"
    using release_one_eq [OF latch_invD(1) [OF i] q, of None "[]"] r by auto
  show ?thesis
    unfolding latch_inv_def
    using owners_ok_release [OF latch_invD(3) [OF i] c q]
      waiters_ok_release [OF latch_invD(3,4) [OF i] c(1,2) q, of "m\<lparr>c_pos := c_pos m + 1\<rparr>"]
      heirs_ok_upd [OF latch_invD(5) [OF i] c(1), of "m\<lparr>c_pos := c_pos m + 1\<rparr>"] latch_invD(2) [OF i] ls c(2)
    by auto
qed

lemma release_keep_inv:
  assumes i: "latch_inv s" and c: "st_cmds s c = Some m" "c_phase m = Releasing (Some e)" "c_pos m < length (c_hashes m)"
    and e: "st_cmds s e = Some k"
    and r: "release_one (st_latches s) (target m) c (Some e) (drop (c_pos k) (c_hashes k)) = Ok (wakeup, keep, ls)"
  shows "latch_inv (s\<lparr>st_latches := ls,
    st_cmds := (st_cmds s)(c \<mapsto> m\<lparr>c_pos := c_pos m + 1\<rparr>, e \<mapsto> k\<lparr>c_pos := length (c_hashes k) - length keep\<rparr>),
    st_woken := st_woken s \<union> set_option wakeup\<rparr>)"
proof -
  let ?m = "m\<lparr>c_pos := c_pos m + 1\<rparr>" and ?keep = "drop (c_pos k) (c_hashes k)"
  let ?k = "k\<lparr>c_pos := length (c_hashes k) - length keep\<rparr>"
  obtain cs where q: "lqueue (st_latches s) (target m) = c # cs" using release_queue [OF i c] by blast
  note kept = kept_hashes [OF i c e]
  have ce: "e \<noteq> c" using kept c e by auto
  have le: "c_pos k \<le> length (c_hashes k)" using owners_okD(1) [OF latch_invD(3) [OF i] e] by (simp add: cmd_ok_def)
  have ls: "wakeup = (if ?keep \<noteq> [] \<and> hd ?keep = target m then None else case cs of [] \<Rightarrow> None | d # ds \<Rightarrow> Some d)"
    "keep = (if ?keep \<noteq> [] \<and> hd ?keep = target m then tl ?keep else ?keep)" "latches_ok ls"
    "lqueue ls = (lqueue (st_latches s))(target m :=
       (if ?keep \<noteq> [] \<and> hd ?keep = target m then e # cs else cs))"
    using release_one_eq [OF latch_invD(1) [OF i] q, of "Some e" ?keep] kept r by (auto split: list.splits)
  have kph: "c_phase k = Inheriting" using kept by simp
  have sub: "set (drop (c_pos ?k) (c_hashes ?k)) \<subseteq> set (drop (c_pos ?m) (c_hashes ?m))"
    using kept ls(2) le by (cases ?keep) (auto split: if_splits)
  have h: "heirs_ok ((st_cmds s)(c \<mapsto> ?m, e \<mapsto> ?k))"
    by (rule heirs_ok_keep [OF latch_invD(5) [OF i] c(1,2) _ e _ sub]) (simp_all add: c(2) kph)
  show ?thesis
  proof (cases "?keep \<noteq> [] \<and> hd ?keep = target m")
    case True
    then have k: "c_pos k < length (c_hashes k)" "target k = target m" "?k = k\<lparr>c_pos := c_pos k + 1\<rparr>"
      using kept ls(2) by (auto split: list.splits)
    show ?thesis
      unfolding latch_inv_def
      using owners_ok_handover [OF latch_invD(3) [OF i] c q e kph k(1,2)]
        waiters_ok_handover [OF latch_invD(3,4) [OF i] c(1,2) q _ e kph, of ?m ?k] k(3) h ls True latch_invD(2) [OF i]
        c(2) kph
      by auto
  next
    case False
    then have k: "?k = k" using ls(2) le by simp
    have "(st_cmds s)(c \<mapsto> ?m, e \<mapsto> k) = (st_cmds s)(c \<mapsto> ?m)" using e ce by (auto simp: fun_eq_iff)
    then show ?thesis
      unfolding latch_inv_def
      using owners_ok_release [OF latch_invD(3) [OF i] c q]
        waiters_ok_release [OF latch_invD(3,4) [OF i] c(1,2) q, of ?m] k h ls False latch_invD(2) [OF i] c(2)
      by auto
  qed
qed

lemma wake_inv:
  assumes i: "latch_inv s" and c: "st_cmds s c = Some m" "c_phase m = Waiting" "c \<in> st_woken s"
    and m': "m' = m\<lparr>c_phase := Retrying\<rparr> \<or>
      m' = m\<lparr>c_hashes := take (c_pos m + 1) (c_hashes m), c_pos := 0, c_phase := Releasing None\<rparr>"
  shows "latch_inv (s\<lparr>st_cmds := (st_cmds s)(c \<mapsto> m'), st_woken := st_woken s - {c}\<rparr>)"
proof -
  let ?Q = "lqueue (st_latches s)"
  have ok: "cmd_ok m" by (rule owners_okD(1) [OF latch_invD(3) [OF i] c(1)])
  then have lt: "c_pos m < length (c_hashes m)" using c(2) by (simp add: cmd_ok_def enqueued_def)
  have "c \<in> set (?Q (target m))" "hd (?Q (target m)) = c"
    using waiters_okD(1) [OF latch_invD(4) [OF i] c(1,2)] c(3) by auto
  then have q: "\<exists>cs. ?Q (target m) = c # cs" by (cases "?Q (target m)") auto
  have o: "set (owned m') = (if c_phase m' = Retrying then set (owned m) else insert (target m) (set (owned m)))"
    "enqueued m' \<longleftrightarrow> c_phase m' = Retrying" "c_phase m' = Retrying \<Longrightarrow> target m' = target m"
    using m' lt c(2) by (auto simp: owned_def enqueued_def target_def take_Suc_conv_app_nth)
  have "owners_ok ?Q ((st_cmds s)(c \<mapsto> m'))"
  proof (rule owners_ok_upd [OF latch_invD(3) [OF i] c(1)])
    show "cmd_ok m'"
      using m' ok lt by (auto simp: cmd_ok_def enqueued_def sorted_wrt_take)
    show "\<exists>cs. ?Q h = c # cs" if "h \<in> set (owned m')" for h
      using that o q owners_okD(2) [OF latch_invD(3) [OF i] c(1), of h] by (auto split: if_splits)
  qed (use o in \<open>auto split: if_splits\<close>)
  moreover have "waiters_ok ?Q ((st_cmds s)(c \<mapsto> m')) (st_woken s - {c})"
    using waiters_ok_upd [OF latch_invD(4) [OF i] c(1), of m'] m' q o(3) by auto
  moreover have "heirs_ok ((st_cmds s)(c \<mapsto> m'))"
    using m' c(2) by (intro heirs_ok_upd [OF latch_invD(5) [OF i] c(1)]) auto
  ultimately show ?thesis unfolding latch_inv_def using latch_invD(1,2) [OF i] by simp
qed

lemma same_owned_inv:
  assumes i: "latch_inv s" and c: "st_cmds s c = Some m" and ok: "cmd_ok m'" "owned m' = owned m"
    and ph: "c_phase m = Acquiring \<and> c_phase m' = Holding \<or> c_phase m = Holding \<and> c_phase m' = Releasing None"
  shows "latch_inv (s\<lparr>st_cmds := (st_cmds s)(c \<mapsto> m')\<rparr>)"
proof -
  have "owners_ok (lqueue (st_latches s)) ((st_cmds s)(c \<mapsto> m'))"
    using owners_okD(2) [OF latch_invD(3) [OF i] c] ok ph
    by (intro owners_ok_upd [OF latch_invD(3) [OF i] c]) (auto simp: enqueued_def)
  moreover have "c \<notin> st_woken s" using waiters_okD(3) [OF latch_invD(4) [OF i], of c] c ph by auto
  then have "waiters_ok (lqueue (st_latches s)) ((st_cmds s)(c \<mapsto> m')) (st_woken s)"
    using waiters_ok_upd [OF latch_invD(4) [OF i] c, of m'] ph by auto
  moreover have "heirs_ok ((st_cmds s)(c \<mapsto> m'))"
    using ph by (intro heirs_ok_upd [OF latch_invD(5) [OF i] c]) auto
  ultimately show ?thesis unfolding latch_inv_def using latch_invD(1,2) [OF i] by simp
qed

lemma heirs_ok_kept:
  assumes ok: "heirs_ok C" and m: "C c = Some m" "c_phase m = Releasing (Some e)"
    and k: "C e = Some k" "c_phase k' = Holding"
  shows "heirs_ok (C(c := None, e \<mapsto> k'))"
  unfolding heirs_ok_def
proof (intro conjI allI impI)
  let ?C = "C(c := None, e \<mapsto> k')"
  fix d n f assume d: "?C d = Some n" "c_phase n = Releasing (Some f)"
  have C: "C d = Some n" "d \<noteq> c" using d k(2) by (auto split: if_splits)
  then have "f \<noteq> e" using heirs_okD(2) [OF ok m C(1)] d(2) by auto
  moreover have "f \<noteq> c" using heirs_okD(1) [OF ok C(1) d(2)] m by auto
  ultimately show "\<exists>j. ?C f = Some j \<and> c_phase j = Inheriting \<and>
      set (drop (c_pos j) (c_hashes j)) \<subseteq> set (drop (c_pos n) (c_hashes n))"
    using heirs_okD(1) [OF ok C(1) d(2)] by simp
  show "d = d'" if "?C d' = Some n'" "c_phase n' = Releasing (Some f)" for d' n'
    using that C d(2) k(2) heirs_okD(2) [OF ok, of d n f d' n'] by (auto split: if_splits)
next
  let ?C = "C(c := None, e \<mapsto> k')"
  fix f j assume f: "?C f = Some j" "c_phase j = Inheriting"
  then have C: "C f = Some j" "f \<noteq> e" using k(2) by (auto split: if_splits)
  then obtain d n where d: "C d = Some n" "c_phase n = Releasing (Some f)" using heirs_okD(3) [OF ok _ f(2)] by blast
  then have "d \<noteq> c" "d \<noteq> e" using m k(1) C(2) heirs_okD(1) [OF ok m] by auto
  then show "\<exists>d n. ?C d = Some n \<and> c_phase n = Releasing (Some f)"
    using d by (intro exI [of _ d] exI [of _ n]) simp
qed

lemma heirs_ok_handover:
  assumes ok: "heirs_ok C" and m: "C c = Some m" "c_phase m = Holding" "c_phase m' = Releasing (Some e)"
    and k: "C e = None" "c_phase k = Inheriting"
    and sub: "set (drop (c_pos k) (c_hashes k)) \<subseteq> set (drop (c_pos m') (c_hashes m'))"
  shows "heirs_ok (C(c \<mapsto> m', e \<mapsto> k))"
  unfolding heirs_ok_def
proof (intro conjI allI impI)
  let ?C = "C(c \<mapsto> m', e \<mapsto> k)"
  fix d n f assume d: "?C d = Some n" "c_phase n = Releasing (Some f)"
  have old: "f \<noteq> e \<and> f \<noteq> c \<and> (\<exists>j. C f = Some j \<and> c_phase j = Inheriting \<and>
      set (drop (c_pos j) (c_hashes j)) \<subseteq> set (drop (c_pos n) (c_hashes n)))" if "d \<noteq> c"
  proof -
    have "C d = Some n" using d k(2) that by (auto split: if_splits)
    from heirs_okD(1) [OF ok this d(2)] show ?thesis using k(1) m by auto
  qed
  have new: "n = m' \<and> f = e" if "d = c" using d m k that by (auto split: if_splits)
  show "\<exists>j. ?C f = Some j \<and> c_phase j = Inheriting \<and>
      set (drop (c_pos j) (c_hashes j)) \<subseteq> set (drop (c_pos n) (c_hashes n))"
  proof (cases "d = c")
    case True
    then show ?thesis using new k(2) sub by simp
  next
    case False
    then show ?thesis using old by simp
  qed
  show "d = d'" if p: "?C d' = Some n'" "c_phase n' = Releasing (Some f)" for d' n'
  proof (cases "d' = c")
    case True
    then have "f = e" using p m k by (auto split: if_splits)
    then show ?thesis using old True by blast
  next
    case False
    then have C: "C d' = Some n'" using p k(2) by (auto split: if_splits)
    then have "f \<noteq> e" using heirs_okD(1) [OF ok C p(2)] k(1) by auto
    then have "d \<noteq> c" using new by blast
    then have "C d = Some n" using d k(2) by (auto split: if_splits)
    then show ?thesis using heirs_okD(2) [OF ok _ d(2) C p(2)] by blast
  qed
next
  let ?C = "C(c \<mapsto> m', e \<mapsto> k)"
  have ec: "e \<noteq> c" using m k by auto
  fix f j assume f: "?C f = Some j" "c_phase j = Inheriting"
  show "\<exists>d n. ?C d = Some n \<and> c_phase n = Releasing (Some f)"
  proof (cases "f = e")
    case True
    then show ?thesis using m(3) ec by (intro exI [of _ c] exI [of _ m']) simp
  next
    case False
    then have "C f = Some j" using f m(3) by (auto split: if_splits)
    then obtain d n where d: "C d = Some n" "c_phase n = Releasing (Some f)" using heirs_okD(3) [OF ok _ f(2)] by blast
    then have "d \<noteq> c" "d \<noteq> e" using m k(1) by auto
    then show ?thesis using d by (intro exI [of _ d] exI [of _ n]) simp
  qed
qed

lemma remove_inv:
  assumes i: "latch_inv s" and c: "st_cmds s c = Some m" "c_phase m = Releasing None" "c_pos m = length (c_hashes m)"
  shows "latch_inv (s\<lparr>st_cmds := (st_cmds s)(c := None)\<rparr>)"
  unfolding latch_inv_def
  using owners_ok_remove [OF latch_invD(3) [OF i] c(1)] waiters_ok_remove [OF latch_invD(4) [OF i] c(1)]
    heirs_ok_remove [OF latch_invD(5) [OF i] c(1,2)] latch_invD(1,2) [OF i] c(2,3)
  by (simp add: owned_def enqueued_def)

lemma kept_inv:
  assumes i: "latch_inv s" and c: "st_cmds s c = Some m" "c_phase m = Releasing (Some e)" "c_pos m = length (c_hashes m)"
    and e: "st_cmds s e = Some k" "c_pos k = length (c_hashes k)"
  shows "latch_inv (s\<lparr>st_cmds := (st_cmds s)(c := None, e \<mapsto> k\<lparr>c_phase := Holding\<rparr>)\<rparr>)"
proof -
  let ?k = "k\<lparr>c_phase := Holding\<rparr>"
  have kph: "c_phase k = Inheriting" using heirs_okD(1) [OF latch_invD(5) [OF i] c(1,2)] e(1) by auto
  have ec: "e \<noteq> c" using c kph e by auto
  have tw: "(st_cmds s)(c := None, e \<mapsto> ?k) = ((st_cmds s)(e \<mapsto> ?k))(c := None)" using ec by (simp add: fun_upd_twist)
  have o: "owned ?k = owned k" using kph e(2) by (simp add: owned_def)
  have "owners_ok (lqueue (st_latches s)) ((st_cmds s)(e \<mapsto> ?k))"
  proof (rule owners_ok_upd [OF latch_invD(3) [OF i] e(1)])
    show "cmd_ok ?k" using owners_okD(1) [OF latch_invD(3) [OF i] e(1)] by (simp add: cmd_ok_def enqueued_def)
    show "\<exists>cs. lqueue (st_latches s) h = e # cs" if "h \<in> set (owned ?k)" for h
      using that o owners_okD(2) [OF latch_invD(3) [OF i] e(1), of h] by simp
  qed (use o kph in \<open>auto simp: enqueued_def\<close>)
  then have 1: "owners_ok (lqueue (st_latches s)) ((st_cmds s)(c := None, e \<mapsto> ?k))"
    unfolding tw using c ec by (intro owners_ok_remove) (auto simp: owned_def enqueued_def)
  have "st_woken s - {e} = st_woken s" using waiters_okD(3) [OF latch_invD(4) [OF i], of e] e(1) kph by auto
  then have "waiters_ok (lqueue (st_latches s)) ((st_cmds s)(e \<mapsto> ?k)) (st_woken s)"
    using waiters_ok_upd [OF latch_invD(4) [OF i] e(1), of ?k] by simp
  then have 2: "waiters_ok (lqueue (st_latches s)) ((st_cmds s)(c := None, e \<mapsto> ?k)) (st_woken s)"
    unfolding tw using c ec by (intro waiters_ok_remove) auto
  show ?thesis
    unfolding latch_inv_def using 1 2 heirs_ok_kept [OF latch_invD(5) [OF i] c(1,2) e(1), of ?k] latch_invD(1,2) [OF i]
    by simp
qed

lemma progress_inv: "progress s t \<Longrightarrow> latch_inv s \<Longrightarrow> latch_inv t"
proof (induction rule: progress.induct)
  case (AcquireHit s c m ls)
  then show ?case using acquire_inv [of s c m True ls] by (simp add: target_def)
next
  case (AcquireMiss s c m ls)
  then show ?case using acquire_inv [of s c m False ls] by (simp add: target_def)
next
  case (AcquireDone s c m)
  then show ?case using owners_okD(1) [OF latch_invD(3) AcquireDone(1)]
    by (intro same_owned_inv) (auto simp: cmd_ok_def enqueued_def owned_def)
next
  case (Wake s c m)
  then show ?case by (intro wake_inv) auto
next
  case (Expire s c m)
  then show ?case by (intro wake_inv) auto
next
  case (Finish s c m)
  then show ?case using owners_okD(1) [OF latch_invD(3) Finish(1)]
    by (intro same_owned_inv) (auto simp: cmd_ok_def enqueued_def owned_def)
next
  case (ReleaseOne s c m wakeup keep ls)
  then show ?case using release_none_inv [of s c m wakeup keep ls] by (simp add: target_def)
next
  case (ReleaseKeep s c m e k wakeup keep ls)
  then show ?case using release_keep_inv [of s c m e k wakeup keep ls] by (simp add: target_def)
next
  case (ReleaseDone s c m)
  then show ?case by (intro remove_inv)
next
  case (ReleaseKept s c m e k)
  then show ?case by (intro kept_inv)
qed

lemma sorted_dedup: "sorted xs \<Longrightarrow> sorted_wrt (<) (remdups_adj (xs :: u64 list))"
  by (induction xs rule: remdups_adj.induct) (auto simp: le_less intro: less_le_trans)

lemma new_cmd_ok:
  "ph = Acquiring \<or> ph = Inheriting \<Longrightarrow> cmd_ok (new_cmd hashes ph) \<and> owned (new_cmd hashes ph) = [] \<and>
     \<not> enqueued (new_cmd hashes ph)"
  using sorted_dedup [of "sort hashes"]
  by (auto simp: new_cmd_def latch_lock_new_def cmd_ok_def owned_def enqueued_def)

lemma new_cmd_sel [simp]:
  "c_pos (new_cmd hashes ph) = 0" "c_phase (new_cmd hashes ph) = ph" "set (c_hashes (new_cmd hashes ph)) = set hashes"
  by (simp_all add: new_cmd_def latch_lock_new_def)

lemma arrival_inv: "arrival s t \<Longrightarrow> latch_inv s \<Longrightarrow> latch_inv t"
proof (induction rule: arrival.induct)
  case (Start s c hashes)
  note i = Start(2) and n = new_cmd_ok [of Acquiring hashes]
  show ?case
    unfolding latch_inv_def
    using owners_ok_new [OF latch_invD(3) [OF i] Start(1)] waiters_ok_new [OF latch_invD(4) [OF i] Start(1)]
      heirs_ok_new [OF latch_invD(5) [OF i] Start(1)] latch_invD(1,2) [OF i] n
    by simp
next
  case (HandOver s c m e hashes)
  note i = HandOver(5) and n = new_cmd_ok [of Inheriting hashes]
  let ?m = "m\<lparr>c_pos := 0, c_phase := Releasing (Some e)\<rparr>" and ?k = "new_cmd hashes Inheriting"
  have e: "((st_cmds s)(c \<mapsto> ?m)) e = None" using HandOver(1,3) by auto
  have o: "owned ?m = owned m" using HandOver(2) by (simp add: owned_def)
  have "owners_ok (lqueue (st_latches s)) ((st_cmds s)(c \<mapsto> ?m))"
  proof (rule owners_ok_upd [OF latch_invD(3) [OF i] HandOver(1)])
    show "cmd_ok ?m" using owners_okD(1) [OF latch_invD(3) [OF i] HandOver(1)] by (simp add: cmd_ok_def enqueued_def)
    show "\<exists>cs. lqueue (st_latches s) h = c # cs" if "h \<in> set (owned ?m)" for h
      using that o owners_okD(2) [OF latch_invD(3) [OF i] HandOver(1), of h] by simp
  qed (use o HandOver(2) in \<open>auto simp: enqueued_def\<close>)
  then have 1: "owners_ok (lqueue (st_latches s)) ((st_cmds s)(c \<mapsto> ?m, e \<mapsto> ?k))"
    by (rule owners_ok_new) (use e n in simp_all)
  have "st_woken s - {c} = st_woken s"
    using waiters_okD(3) [OF latch_invD(4) [OF i], of c] HandOver(1,2) by auto
  then have "waiters_ok (lqueue (st_latches s)) ((st_cmds s)(c \<mapsto> ?m)) (st_woken s)"
    using waiters_ok_upd [OF latch_invD(4) [OF i] HandOver(1), of ?m] by simp
  then have 2: "waiters_ok (lqueue (st_latches s)) ((st_cmds s)(c \<mapsto> ?m, e \<mapsto> ?k)) (st_woken s)"
    by (rule waiters_ok_new) (use e n in simp_all)
  have 3: "heirs_ok ((st_cmds s)(c \<mapsto> ?m, e \<mapsto> ?k))"
    by (rule heirs_ok_handover [OF latch_invD(5) [OF i] HandOver(1,2) _ HandOver(3)])
      (use HandOver(4) in simp_all)
  show ?case unfolding latch_inv_def using 1 2 3 latch_invD(1,2) [OF i] by simp
qed

lemma init_inv: "sz \<le> 2 ^ 63 \<Longrightarrow> latch_inv (latch_init sz)"
  by (simp add: latch_inv_def latch_init_def latches_new_ok owners_ok_def waiters_ok_def heirs_ok_def)

lemma reachable_inv: "latch_reachable sz s \<Longrightarrow> sz \<le> 2 ^ 63 \<Longrightarrow> latch_inv s"
  by (induction rule: latch_reachable.induct) (auto intro: init_inv progress_inv arrival_inv)

subsection \<open>Progress\<close>

definition cmd_rank :: "cmd \<Rightarrow> nat" where
  "cmd_rank m =
     (let l = length (c_hashes m); n = c_pos m in
      case c_phase m of
        Acquiring \<Rightarrow> 3 * (l - n) + l + 3
      | Waiting \<Rightarrow> 3 * (l - n) + l + 2
      | Retrying \<Rightarrow> 3 * (l - n) + l + 1
      | Inheriting \<Rightarrow> l + 3
      | Holding \<Rightarrow> l + 2
      | Releasing keep \<Rightarrow> l - n + 1)"

definition rank :: "(u64 \<rightharpoonup> cmd) \<Rightarrow> nat" where
  "rank C = (\<Sum>c\<in>dom C. cmd_rank (the (C c)))"

lemma rank_fun_upd:
  assumes "finite (dom C)" "C c = Some m"
  shows "rank (C(c \<mapsto> m')) + cmd_rank m = rank C + cmd_rank m'"
proof -
  have "(\<Sum>d\<in>dom C - {c}. cmd_rank (the ((C(c \<mapsto> m')) d))) = (\<Sum>d\<in>dom C - {c}. cmd_rank (the (C d)))"
    by (rule sum.cong) auto
  moreover have "dom (C(c \<mapsto> m')) - {c} = dom C - {c}" "c \<in> dom C" using assms(2) by auto
  ultimately show ?thesis
    using sum.remove [of "dom (C(c \<mapsto> m'))" c "\<lambda>d. cmd_rank (the ((C(c \<mapsto> m')) d))"]
      sum.remove [of "dom C" c "\<lambda>d. cmd_rank (the (C d))"] assms by (simp add: rank_def)
qed

lemma rank_remove:
  assumes "finite (dom C)" "C c = Some m"
  shows "rank (C(c := None)) + cmd_rank m = rank C"
proof -
  have "(\<Sum>d\<in>dom C - {c}. cmd_rank (the ((C(c := None)) d))) = (\<Sum>d\<in>dom C - {c}. cmd_rank (the (C d)))"
    by (rule sum.cong) auto
  moreover have "dom (C(c := None)) = dom C - {c}" "c \<in> dom C" using assms(2) by auto
  ultimately show ?thesis
    using sum.remove [of "dom C" c "\<lambda>d. cmd_rank (the (C d))"] assms by (simp add: rank_def)
qed

lemma rank_upd:
  assumes "finite (dom (st_cmds s))" "st_cmds s c = Some m" "cmd_rank m' < cmd_rank m"
    "st_cmds t = (st_cmds s)(c \<mapsto> m')"
  shows "rank (st_cmds t) < rank (st_cmds s)"
  using rank_fun_upd [OF assms(1,2), of m'] assms(3,4) by simp

lemma rank_eq_less: "rank C < n \<Longrightarrow> C = C' \<Longrightarrow> rank C' < n"
  by simp

lemma progress_rank: "progress s t \<Longrightarrow> latch_inv s \<Longrightarrow> rank (st_cmds t) < rank (st_cmds s)"
proof (induction rule: progress.induct)
  case (AcquireHit s c m ls)
  then show ?case using latch_invD(2) [OF AcquireHit(5)]
    by (intro rank_upd [OF _ AcquireHit(1)]) (auto simp: cmd_rank_def Let_def)
next
  case (AcquireMiss s c m ls)
  have "c_phase m = Acquiring"
    using AcquireMiss acquire_again [OF AcquireMiss(5,1)] by (auto simp: target_def)
  then show ?case using latch_invD(2) [OF AcquireMiss(5)]
    by (intro rank_upd [OF _ AcquireMiss(1)]) (auto simp: cmd_rank_def Let_def)
next
  case (AcquireDone s c m)
  then show ?case using latch_invD(2) [OF AcquireDone(4)]
    by (intro rank_upd [OF _ AcquireDone(1)]) (auto simp: cmd_rank_def Let_def)
next
  case (Wake s c m)
  then show ?case using latch_invD(2) [OF Wake(4)]
    by (intro rank_upd [OF _ Wake(1)]) (auto simp: cmd_rank_def Let_def)
next
  case (Expire s c m)
  have "c_pos m < length (c_hashes m)"
    using owners_okD(1) [OF latch_invD(3) [OF Expire(4)] Expire(1)] Expire(2) by (simp add: cmd_ok_def enqueued_def)
  then show ?case using latch_invD(2) [OF Expire(4)] Expire(2)
    by (intro rank_upd [OF _ Expire(1)]) (auto simp: cmd_rank_def Let_def)
next
  case (Finish s c m)
  then show ?case using latch_invD(2) [OF Finish(3)]
    by (intro rank_upd [OF _ Finish(1)]) (auto simp: cmd_rank_def Let_def)
next
  case (ReleaseOne s c m wakeup keep ls)
  then show ?case using latch_invD(2) [OF ReleaseOne(5)]
    by (intro rank_upd [OF _ ReleaseOne(1)]) (auto simp: cmd_rank_def Let_def)
next
  case (ReleaseKeep s c m e k wakeup keep ls)
  let ?m = "m\<lparr>c_pos := c_pos m + 1\<rparr>" and ?k = "k\<lparr>c_pos := length (c_hashes k) - length keep\<rparr>"
  have k: "c_phase k = Inheriting" using kept_hashes [OF ReleaseKeep(6,1-4)] by simp
  then have e: "((st_cmds s)(c \<mapsto> ?m)) e = Some k" using ReleaseKeep(1,2,4) by auto
  have "finite (dom ((st_cmds s)(c \<mapsto> ?m)))" using latch_invD(2) [OF ReleaseKeep(6)] by simp
  from rank_fun_upd [OF this e, of ?k] rank_fun_upd [OF latch_invD(2) [OF ReleaseKeep(6)] ReleaseKeep(1), of ?m]
  have "rank ((st_cmds s)(c \<mapsto> ?m, e \<mapsto> ?k)) + cmd_rank k + cmd_rank m = rank (st_cmds s) + cmd_rank ?m + cmd_rank ?k"
    by linarith
  moreover have "cmd_rank ?k = cmd_rank k" "cmd_rank ?m < cmd_rank m"
    using k ReleaseKeep(2,3) by (simp_all add: cmd_rank_def Let_def)
  ultimately have "rank ((st_cmds s)(c \<mapsto> ?m, e \<mapsto> ?k)) < rank (st_cmds s)" by linarith
  then show ?case by (rule rank_eq_less) (simp add: fun_eq_iff)
next
  case (ReleaseDone s c m)
  have "0 < cmd_rank m" using ReleaseDone(2) by (simp add: cmd_rank_def Let_def)
  then have "rank ((st_cmds s)(c := None)) < rank (st_cmds s)"
    using rank_remove [OF latch_invD(2) [OF ReleaseDone(4)] ReleaseDone(1)] by linarith
  then show ?case by (rule rank_eq_less) (simp add: fun_eq_iff)
next
  case (ReleaseKept s c m e k)
  let ?k = "k\<lparr>c_phase := Holding\<rparr>"
  have k: "c_phase k = Inheriting" using heirs_okD(1) [OF latch_invD(5) [OF ReleaseKept(6)] ReleaseKept(1,2)] ReleaseKept(4) by auto
  then have e: "((st_cmds s)(c := None)) e = Some k" using ReleaseKept(1,2,4) by auto
  have "finite (dom ((st_cmds s)(c := None)))" using latch_invD(2) [OF ReleaseKept(6)] by simp
  from rank_fun_upd [OF this e, of ?k] rank_remove [OF latch_invD(2) [OF ReleaseKept(6)] ReleaseKept(1)]
  have "rank ((st_cmds s)(c := None, e \<mapsto> ?k)) + cmd_rank k + cmd_rank m = rank (st_cmds s) + cmd_rank ?k"
    by linarith
  moreover have "cmd_rank ?k < cmd_rank k" using k by (simp add: cmd_rank_def Let_def)
  ultimately have "rank ((st_cmds s)(c := None, e \<mapsto> ?k)) < rank (st_cmds s)" by linarith
  then show ?case by (rule rank_eq_less) (simp add: fun_eq_iff)
qed

text \<open>The next iteration of a loop never panics: neither the slot, nor an unwrap, nor an assertion fails.\<close>

lemma acquire_ok:
  assumes "latch_inv s" "st_cmds s c = Some m" "c_phase m = Acquiring \<or> c_phase m = Retrying" "c_pos m < length (c_hashes m)"
  shows "\<exists>got ls. acquire_one (st_latches s) (c_hashes m ! c_pos m) c = Ok (got, ls)"
  using acquire_first [OF assms(1,2) _ assms(4)] acquire_again [OF assms(1,2)] assms(3) by (auto simp: target_def)

lemma release_none_ok:
  assumes "latch_inv s" "st_cmds s c = Some m" "c_phase m = Releasing None" "c_pos m < length (c_hashes m)"
  shows "\<exists>wakeup ls. release_one (st_latches s) (c_hashes m ! c_pos m) c None [] = Ok (wakeup, [], ls)"
proof -
  obtain cs where "lqueue (st_latches s) (target m) = c # cs" using release_queue [OF assms] by blast
  then show ?thesis using release_one_eq [OF latch_invD(1) [OF assms(1)], of "target m" c cs None "[]"] by (auto simp: target_def)
qed

lemma drop_rest:
  assumes "ys = drop n xs \<or> ys = tl (drop n xs)"
  shows "ys = drop (length xs - length ys) xs"
proof -
  have d: "drop k xs = drop (length xs - length (drop k xs)) xs" for k by (cases "k \<le> length xs") simp_all
  have "tl (drop n xs) = drop (Suc n) xs" by (simp add: drop_Suc tl_drop)
  then show ?thesis using assms d by metis
qed

lemma release_keep_ok:
  assumes "latch_inv s" "st_cmds s c = Some m" "c_phase m = Releasing (Some e)" "c_pos m < length (c_hashes m)"
    "st_cmds s e = Some k"
  shows "\<exists>wakeup keep ls. release_one (st_latches s) (c_hashes m ! c_pos m) c (Some e) (drop (c_pos k) (c_hashes k)) =
      Ok (wakeup, keep, ls) \<and> keep = drop (length (c_hashes k) - length keep) (c_hashes k)"
proof -
  let ?keep = "drop (c_pos k) (c_hashes k)"
  obtain cs where q: "lqueue (st_latches s) (target m) = c # cs" using release_queue [OF assms(1-4)] by blast
  have "case ?keep of [] \<Rightarrow> True | a # as \<Rightarrow> target m \<le> a \<and> Some e \<noteq> None"
    using kept_hashes [OF assms] by (auto split: list.splits)
  from release_one_eq [OF latch_invD(1) [OF assms(1)] q this] obtain wakeup ls where
    "release_one (st_latches s) (target m) c (Some e) ?keep =
      Ok (wakeup, if ?keep \<noteq> [] \<and> hd ?keep = target m then tl ?keep else ?keep, ls)" by blast
  moreover have "(if ?keep \<noteq> [] \<and> hd ?keep = target m then tl ?keep else ?keep) = drop (length (c_hashes k) - length (if ?keep \<noteq> [] \<and> hd ?keep = target m then tl ?keep else ?keep)) (c_hashes k)" by (rule drop_rest [of _ "c_pos k"]) simp
  ultimately show ?thesis by (auto simp: target_def)
qed

lemma kept_all:
  assumes "latch_inv s" "st_cmds s c = Some m" "c_phase m = Releasing (Some e)"
  shows "\<exists>k. st_cmds s e = Some k \<and> c_phase k = Inheriting \<and> e \<noteq> c \<and> c_pos k \<le> length (c_hashes k) \<and>
    (c_pos m = length (c_hashes m) \<longrightarrow> c_pos k = length (c_hashes k))"
  using heirs_okD(1) [OF latch_invD(5) [OF assms(1)] assms(2,3)] owners_okD(1) [OF latch_invD(3) [OF assms(1)]] assms(2,3)
  by (fastforce simp: cmd_ok_def)

lemma cmd_can_step:
  assumes i: "latch_inv s" and c: "st_cmds s c = Some m" "c_phase m \<noteq> Inheriting" "c_phase m = Waiting \<Longrightarrow> c \<in> st_woken s"
  shows "\<exists>t. progress s t"
proof -
  have le: "c_pos m \<le> length (c_hashes m)" and en: "enqueued m \<Longrightarrow> c_pos m < length (c_hashes m)"
    using owners_okD(1) [OF latch_invD(3) [OF i] c(1)] by (auto simp: cmd_ok_def)
  show ?thesis
  proof (cases "c_phase m")
    case Acquiring
    show ?thesis
    proof (cases "c_pos m = length (c_hashes m)")
      case True
      then show ?thesis using AcquireDone [OF c(1) Acquiring] by blast
    next
      case False
      then have lt: "c_pos m < length (c_hashes m)" using le by simp
      obtain got ls where "acquire_one (st_latches s) (c_hashes m ! c_pos m) c = Ok (got, ls)"
        using acquire_ok [OF i c(1) disjI1 [OF Acquiring] lt] by blast
      then show ?thesis
        using AcquireHit [OF c(1) disjI1 [OF Acquiring] lt, of ls] AcquireMiss [OF c(1) disjI1 [OF Acquiring] lt, of ls]
        by (cases got) auto
    qed
  next
    case Retrying
    then have lt: "c_pos m < length (c_hashes m)" using en by (simp add: enqueued_def)
    obtain ls where "acquire_one (st_latches s) (c_hashes m ! c_pos m) c = Ok (True, ls)"
      using acquire_again [OF i c(1) Retrying] by (auto simp: target_def)
    then show ?thesis using AcquireHit [OF c(1) _ lt] Retrying by blast
  next
    case Waiting
    then show ?thesis using Wake [OF c(1)] c(3) by blast
  next
    case Holding
    then show ?thesis using Finish [OF c(1)] by blast
  next
    case (Releasing keep)
    show ?thesis
    proof (cases keep)
      case None
      then have r: "c_phase m = Releasing None" using Releasing by simp
      show ?thesis
        using ReleaseDone [OF c(1) r] ReleaseOne [OF c(1) r] release_none_ok [OF i c(1) r] le by (metis le_neq_implies_less)
    next
      case (Some e)
      then have r: "c_phase m = Releasing (Some e)" using Releasing by simp
      obtain k where k: "st_cmds s e = Some k" "c_pos m = length (c_hashes m) \<longrightarrow> c_pos k = length (c_hashes k)"
        using kept_all [OF i c(1) r] by blast
      show ?thesis
        using ReleaseKept [OF c(1) r _ k(1)] k(2) ReleaseKeep [OF c(1) r _ k(1)] release_keep_ok [OF i c(1) r _ k(1)] le
        by (metis le_neq_implies_less)
    qed
  qed (use c(2) in simp)
qed

text \<open>
  If no command can move, all of them wait; the one that waits for the largest hash waits behind a
  command that owns it and so waits for a larger one.
\<close>

lemma progress_exists:
  assumes i: "latch_inv s" and ne: "st_cmds s \<noteq> Map.empty"
  shows "\<exists>t. progress s t"
proof (rule ccontr)
  assume stuck: "\<not> ?thesis"
  have w: "c_phase m = Waiting \<and> c \<notin> st_woken s" if c: "st_cmds s c = Some m" for c m
  proof (cases "c_phase m = Inheriting")
    case True
    then obtain d n where "st_cmds s d = Some n" "c_phase n = Releasing (Some c)"
      using heirs_okD(3) [OF latch_invD(5) [OF i] c] by blast
    then show ?thesis using cmd_can_step [OF i, of d n] stuck by simp
  next
    case False
    then show ?thesis using cmd_can_step [OF i c] stuck by blast
  qed
  let ?T = "(\<lambda>c. target (the (st_cmds s c))) ` dom (st_cmds s)"
  have "finite ?T" "?T \<noteq> {}" using latch_invD(2) [OF i] ne by auto
  then have "Max ?T \<in> ?T" by (rule Max_in)
  then obtain c m where c: "st_cmds s c = Some m" "target m = Max ?T" by auto
  let ?q = "lqueue (st_latches s) (target m)"
  have q: "c \<in> set ?q" "hd ?q \<noteq> c" using waiters_okD(1) [OF latch_invD(4) [OF i] c(1)] w [OF c(1)] by auto
  then have "hd ?q \<in> set ?q" by (cases ?q) auto
  then obtain n where n: "st_cmds s (hd ?q) = Some n" "target m \<in> set (owned n) \<or> enqueued n \<and> target m = target n"
    using owners_okD(4) [OF latch_invD(3) [OF i]] by blast
  have nw: "c_phase n = Waiting" "hd ?q \<notin> st_woken s" using w [OF n(1)] by auto
  have "target m \<noteq> target n" using waiters_okD(1) [OF latch_invD(4) [OF i] n(1) nw(1)] nw(2) by auto
  then have "target m \<in> set (take (c_pos n) (c_hashes n))" using n(2) nw(1) by (auto simp: owned_def)
  moreover have "cmd_ok n" by (rule owners_okD(1) [OF latch_invD(3) [OF i] n(1)])
  then have "c_pos n < length (c_hashes n)" "sorted_wrt (<) (c_hashes n)"
    using nw(1) by (auto simp: cmd_ok_def enqueued_def)
  moreover from this have "c_hashes n = take (c_pos n) (c_hashes n) @ target n # drop (Suc (c_pos n)) (c_hashes n)"
    by (simp add: target_def id_take_nth_drop)
  ultimately have "target m < target n" by (metis list.set_intros(1) sorted_wrt_append)
  moreover have "target n \<in> ?T" using n(1) by (force intro: image_eqI)
  then have "target n \<le> Max ?T" by (rule Max_ge [OF \<open>finite ?T\<close>])
  ultimately show False unfolding c(2) by simp
qed

lemma progress_run_inv: "progress\<^sup>*\<^sup>* s t \<Longrightarrow> latch_inv s \<Longrightarrow> latch_inv t"
  by (induction rule: rtranclp_induct) (auto intro: progress_inv)

lemma progress_run_rank: "(progress ^^ n) s t \<Longrightarrow> latch_inv s \<Longrightarrow> latch_inv t \<and> n + rank (st_cmds t) \<le> rank (st_cmds s)"
proof (induction n arbitrary: t)
  case (Suc n)
  then obtain u where u: "(progress ^^ n) s u" "progress u t" by auto
  then show ?case using Suc.IH [OF u(1) Suc.prems(2)] progress_inv [OF u(2)] progress_rank [OF u(2)] by auto
qed simp

subsection \<open>The loops are runs of the steps\<close>

lemma drop_cons:
  assumes "h # hs = drop n xs"
  shows "n < length xs" "h = xs ! n" "hs = drop (n + 1) xs"
proof -
  show lt: "n < length xs" using assms by (metis drop_all list.distinct(1) not_le)
  show "h = xs ! n" "hs = drop (n + 1) xs"
    using Cons_nth_drop_Suc [OF lt] unfolding assms [symmetric] by simp_all
qed

lemma acquire_loop_run:
  assumes "acquire_loop (st_latches s) hs c a = Ok (a', ls)" "hs = drop (c_pos m) (c_hashes m)"
    "st_cmds s c = Some m" "c_phase m = Acquiring \<or> c_phase m = Retrying \<and> hs \<noteq> []" "c_pos m \<le> length (c_hashes m)"
  shows "a \<le> a' \<and> progress\<^sup>*\<^sup>* s (s\<lparr>st_latches := ls, st_cmds := (st_cmds s)(c \<mapsto>
    m\<lparr>c_pos := c_pos m + (a' - a),
      c_phase := if c_pos m + (a' - a) = length (c_hashes m) then Holding else Waiting\<rparr>)\<rparr>)"
  using assms
proof (induction hs arbitrary: s m a)
  case Nil
  then have "c_pos m = length (c_hashes m)" "c_phase m = Acquiring" "a' = a" "ls = st_latches s" by auto
  moreover from this have eq: "m\<lparr>c_pos := c_pos m + (a' - a),
      c_phase := if c_pos m + (a' - a) = length (c_hashes m) then Holding else Waiting\<rparr> = m\<lparr>c_phase := Holding\<rparr>"
    by (intro cmd.equality) simp_all
  ultimately show ?case
    unfolding eq using r_into_rtranclp [of progress, OF AcquireDone [OF Nil(3)]] by (simp del: fun_upd_apply)
next
  case (Cons h hs)
  note lt = drop_cons(1) [OF Cons.prems(2)] and h = drop_cons(2,3) [OF Cons.prems(2)]
  have ph: "c_phase m = Acquiring \<or> c_phase m = Retrying" using Cons.prems(4) by auto
  obtain got ls1 where one: "acquire_one (st_latches s) h c = Ok (got, ls1)"
    using Cons.prems(1) by (auto simp: result_simps)
  show ?case
  proof (cases got)
    case True
    let ?m = "m\<lparr>c_pos := c_pos m + 1, c_phase := Acquiring\<rparr>"
    let ?s = "s\<lparr>st_latches := ls1, st_cmds := (st_cmds s)(c \<mapsto> ?m)\<rparr>"
    have step: "progress s ?s" using AcquireHit [OF Cons.prems(3) ph lt] one h True by simp
    have "acquire_loop (st_latches ?s) hs c (a + 1) = Ok (a', ls)" using Cons.prems(1) one True by simp
    then have run: "a + 1 \<le> a' \<and> progress\<^sup>*\<^sup>* ?s (?s\<lparr>st_latches := ls, st_cmds := (st_cmds ?s)(c \<mapsto>
        ?m\<lparr>c_pos := c_pos ?m + (a' - (a + 1)),
          c_phase := if c_pos ?m + (a' - (a + 1)) = length (c_hashes ?m) then Holding else Waiting\<rparr>)\<rparr>)"
      by (rule Cons.IH) (use lt h(2) in simp_all)
    have "a \<le> a'" and pos: "c_pos ?m + (a' - (a + 1)) = c_pos m + (a' - a)" using conjunct1 [OF run] by simp_all
    then show ?thesis
      using converse_rtranclp_into_rtranclp [of progress, OF step conjunct2 [OF run [unfolded pos]]]
      by (simp del: fun_upd_apply)
  next
    case False
    then have "a' = a" "ls = ls1" using Cons.prems(1) one by auto
    then show ?thesis using r_into_rtranclp [of progress, OF AcquireMiss [OF Cons.prems(3) ph lt]] one h False lt
      by (simp del: fun_upd_apply)
  qed
qed

lemma acquire_loop_ok: "latches_ok ls \<Longrightarrow> \<exists>a' ls'. acquire_loop ls hs c a = Ok (a', ls')"
proof (induction hs arbitrary: ls a)
  case (Cons h hs)
  obtain got ls1 where "acquire_one ls h c = Ok (got, ls1)" "latches_ok ls1"
    using acquire_one_eq [OF Cons.prems] by blast
  then show ?case using Cons.IH [of ls1] by simp
qed simp

lemma release_loop_run:
  assumes "latch_inv s" "st_cmds s c = Some m" "c_phase m = Releasing None" "hs = drop (c_pos m) (c_hashes m)"
    "c_pos m \<le> length (c_hashes m)"
  shows "\<exists>new ls. release_loop (st_latches s) hs c None [] wl = Ok (wl @ new, ls) \<and>
    progress\<^sup>*\<^sup>* s (s\<lparr>st_latches := ls, st_cmds := (st_cmds s)(c := None), st_woken := st_woken s \<union> set new\<rparr>)"
  using assms
proof (induction hs arbitrary: s m wl)
  case Nil
  then have "c_pos m = length (c_hashes m)" by simp
  then show ?case
    using r_into_rtranclp [of progress, OF ReleaseDone [OF Nil(2,3)]]
    by (intro exI [of _ "[]"] exI [of _ "st_latches s"]) (simp del: fun_upd_apply)
next
  case (Cons h hs)
  note lt = drop_cons(1) [OF Cons.prems(4)] and h = drop_cons(2,3) [OF Cons.prems(4)]
  obtain wakeup ls1 where one: "release_one (st_latches s) h c None [] = Ok (wakeup, [], ls1)"
    using release_none_ok [OF Cons.prems(1-3) lt] h(1) by blast
  let ?m = "m\<lparr>c_pos := c_pos m + 1\<rparr>" and ?w = "case wakeup of None \<Rightarrow> [] | Some d \<Rightarrow> [d]"
  let ?s = "s\<lparr>st_latches := ls1, st_cmds := (st_cmds s)(c \<mapsto> ?m), st_woken := st_woken s \<union> set_option wakeup\<rparr>"
  have step: "progress s ?s" using ReleaseOne [OF Cons.prems(2,3) lt] one h(1) by simp
  have "\<exists>new ls. release_loop (st_latches ?s) hs c None [] (wl @ ?w) = Ok ((wl @ ?w) @ new, ls) \<and>
      progress\<^sup>*\<^sup>* ?s (?s\<lparr>st_latches := ls, st_cmds := (st_cmds ?s)(c := None), st_woken := st_woken ?s \<union> set new\<rparr>)"
    by (rule Cons.IH [where m = ?m]) (use progress_inv [OF step Cons.prems(1)] lt h(2) Cons.prems(3) in simp_all)
  then obtain new ls where run: "release_loop ls1 hs c None [] (wl @ ?w) = Ok (wl @ ?w @ new, ls)"
      "progress\<^sup>*\<^sup>* ?s (?s\<lparr>st_latches := ls, st_cmds := (st_cmds ?s)(c := None), st_woken := st_woken ?s \<union> set new\<rparr>)"
    by auto
  have "set_option wakeup = set ?w" "(case wakeup of None \<Rightarrow> wl | Some d \<Rightarrow> wl @ [d]) = wl @ ?w" by (cases wakeup; simp)+
  then show ?case
    using one run(1) converse_rtranclp_into_rtranclp [of progress, OF step run(2)]
    by (intro exI [of _ "?w @ new"] exI [of _ ls]) (simp add: Un_assoc del: fun_upd_apply)
qed

lemma release_keep_run:
  assumes "latch_inv s" "st_cmds s c = Some m" "c_phase m = Releasing (Some e)" "hs = drop (c_pos m) (c_hashes m)"
    "c_pos m \<le> length (c_hashes m)" "st_cmds s e = Some k"
  shows "\<exists>new ls. release_loop (st_latches s) hs c (Some e) (drop (c_pos k) (c_hashes k)) wl = Ok (wl @ new, ls) \<and>
    progress\<^sup>*\<^sup>* s (s\<lparr>st_latches := ls,
      st_cmds := (st_cmds s)(c := None, e \<mapsto> k\<lparr>c_pos := length (c_hashes k), c_phase := Holding\<rparr>),
      st_woken := st_woken s \<union> set new\<rparr>)"
  using assms
proof (induction hs arbitrary: s m k wl)
  case Nil
  then have pos: "c_pos m = length (c_hashes m)" by simp
  then have k: "c_pos k = length (c_hashes k)" using kept_all [OF Nil(1-3)] Nil(6) by auto
  then have eq: "k\<lparr>c_pos := length (c_hashes k), c_phase := Holding\<rparr> = k\<lparr>c_phase := Holding\<rparr>" by (cases k) simp
  show ?case
    unfolding eq
    using r_into_rtranclp [of progress, OF ReleaseKept [OF Nil(2,3) pos Nil(6) k]] k
    by (intro exI [of _ "[]"] exI [of _ "st_latches s"]) (simp del: fun_upd_apply)
next
  case (Cons h hs)
  note lt = drop_cons(1) [OF Cons.prems(4)] and h = drop_cons(2,3) [OF Cons.prems(4)]
  obtain wakeup keep ls1 where one: "release_one (st_latches s) h c (Some e) (drop (c_pos k) (c_hashes k)) = Ok (wakeup, keep, ls1)"
    and keep: "keep = drop (length (c_hashes k) - length keep) (c_hashes k)"
    using release_keep_ok [OF Cons.prems(1-3) lt Cons.prems(6)] h(1) by blast
  have ec: "e \<noteq> c" using kept_all [OF Cons.prems(1-3)] by auto
  let ?m = "m\<lparr>c_pos := c_pos m + 1\<rparr>" and ?k = "k\<lparr>c_pos := length (c_hashes k) - length keep\<rparr>"
  let ?w = "case wakeup of None \<Rightarrow> [] | Some d \<Rightarrow> [d]"
  let ?s = "s\<lparr>st_latches := ls1, st_cmds := (st_cmds s)(c \<mapsto> ?m, e \<mapsto> ?k), st_woken := st_woken s \<union> set_option wakeup\<rparr>"
  have step: "progress s ?s" using ReleaseKeep [OF Cons.prems(2,3) lt Cons.prems(6)] one h(1) by simp
  have "\<exists>new ls. release_loop (st_latches ?s) hs c (Some e) (drop (c_pos ?k) (c_hashes ?k)) (wl @ ?w) = Ok ((wl @ ?w) @ new, ls) \<and>
      progress\<^sup>*\<^sup>* ?s (?s\<lparr>st_latches := ls,
        st_cmds := (st_cmds ?s)(c := None, e \<mapsto> ?k\<lparr>c_pos := length (c_hashes ?k), c_phase := Holding\<rparr>),
        st_woken := st_woken ?s \<union> set new\<rparr>)"
    by (rule Cons.IH [where m = ?m]) (use progress_inv [OF step Cons.prems(1)] lt h(2) Cons.prems(3) ec in simp_all)
  then obtain new ls where run: "release_loop ls1 hs c (Some e) keep (wl @ ?w) = Ok (wl @ ?w @ new, ls)"
      "progress\<^sup>*\<^sup>* ?s (?s\<lparr>st_latches := ls,
        st_cmds := (st_cmds ?s)(c := None, e \<mapsto> ?k\<lparr>c_pos := length (c_hashes ?k), c_phase := Holding\<rparr>),
        st_woken := st_woken ?s \<union> set new\<rparr>)"
    using keep by auto
  have w: "set_option wakeup = set ?w" "(case wakeup of None \<Rightarrow> wl | Some d \<Rightarrow> wl @ [d]) = wl @ ?w" by (cases wakeup; simp)+
  have cmds: "((st_cmds s)(c \<mapsto> ?m, e \<mapsto> ?k))(c := None, e \<mapsto> x) = (st_cmds s)(c := None, e \<mapsto> x)" for x
    using ec by (auto simp: fun_eq_iff)
  show ?case
    using one run(1) w converse_rtranclp_into_rtranclp [of progress, OF step run(2)]
    by (intro exI [of _ "?w @ new"] exI [of _ ls]) (simp add: Un_assoc cmds del: fun_upd_apply)
qed

text \<open>
  The functions of the code. The lock of a command that releases may have hashes beyond the owned ones: a command
  whose deadline passed while it waited releases what it has.
\<close>

lemma acquire_run:
  assumes i: "latch_inv s" and c: "st_cmds s c = Some m" "c_phase m = Acquiring \<or> c_phase m = Retrying"
  shows "\<exists>got lock ls. acquire (st_latches s) \<lparr>required_hashes = c_hashes m, owned_count = c_pos m\<rparr> c = Ok (got, lock, ls) \<and>
    required_hashes lock = c_hashes m \<and>
    progress\<^sup>*\<^sup>* s (s\<lparr>st_latches := ls, st_cmds := (st_cmds s)(c \<mapsto>
      m\<lparr>c_pos := owned_count lock, c_phase := if got then Holding else Waiting\<rparr>)\<rparr>)"
proof -
  have m: "c_pos m \<le> length (c_hashes m)" "c_phase m = Acquiring \<or> c_phase m = Retrying \<and> drop (c_pos m) (c_hashes m) \<noteq> []"
    using owners_okD(1) [OF latch_invD(3) [OF i] c(1)] c(2) by (auto simp: cmd_ok_def enqueued_def)
  obtain n ls where l: "acquire_loop (st_latches s) (drop (c_pos m) (c_hashes m)) c 0 = Ok (n, ls)"
    using acquire_loop_ok [OF latch_invD(1) [OF i]] by blast
  from acquire_loop_run [OF l refl c(1) m(2,1)] l m(1) show ?thesis
    by (simp add: acquire_def acquired_def assert_then_def eq_commute [of "length (c_hashes m)"] del: fun_upd_apply)
qed

lemma release_run:
  assumes i: "latch_inv s" and c: "st_cmds s c = Some m" "c_phase m = Releasing None" "c_pos m = 0"
    and l: "owned_count lock \<le> length (required_hashes lock)" "take (owned_count lock) (required_hashes lock) = c_hashes m"
  shows "\<exists>wakeup_list ls. release (st_latches s) lock c None = Ok (wakeup_list, ls) \<and>
    progress\<^sup>*\<^sup>* s (s\<lparr>st_latches := ls, st_cmds := (st_cmds s)(c := None), st_woken := st_woken s \<union> set wakeup_list\<rparr>)"
  using release_loop_run [OF i c(1,2), of "c_hashes m" "[]"] c(3) l by (simp add: release_def assert_then_def)

lemma release_handover_run:
  assumes i: "latch_inv s" and c: "st_cmds s c = Some m" "c_phase m = Releasing (Some e)" "c_pos m = 0"
    and k: "st_cmds s e = Some k" "c_pos k = 0" "required_hashes next_lock = c_hashes k"
    and l: "owned_count lock \<le> length (required_hashes lock)" "take (owned_count lock) (required_hashes lock) = c_hashes m"
  shows "\<exists>wakeup_list ls. release (st_latches s) lock c (Some (e, next_lock)) = Ok (wakeup_list, ls) \<and>
    progress\<^sup>*\<^sup>* s (s\<lparr>st_latches := ls,
      st_cmds := (st_cmds s)(c := None, e \<mapsto> k\<lparr>c_pos := length (c_hashes k), c_phase := Holding\<rparr>),
      st_woken := st_woken s \<union> set wakeup_list\<rparr>)"
  using release_keep_run [OF i c(1,2), of "c_hashes m" k "[]"] c(3) k l by (simp add: release_def assert_then_def)

lemma reachable_run: "progress\<^sup>*\<^sup>* s t \<Longrightarrow> latch_reachable sz s \<Longrightarrow> latch_reachable sz t"
  by (induction rule: rtranclp_induct) (auto intro: latch_reachable.intros(2))

subsection \<open>Properties of the latches\<close>

text \<open>
  C13: Latches exclude each other and no assertion fails. In every state the scheduler can reach, two
  commands never own the same hash, whatever the interleaving of their acquire and release loops. The next
  iteration of a command inside its acquire loop finds its slot; the next iteration of a command inside its
  release loop finds the command at the front of the queue, so the unwrap and the assertions of \<^verbatim>\<open>release\<close> hold, and
  when it hands latches over to another command the next hash to keep is not behind, the command to keep it for is
  known, and no hash to keep is left at the end. A waiting command has a wake-up pending exactly when it is at the front
  of the queue it waits in.
\<close>

theorem latch_exclusion:
  assumes "latch_reachable sz s" and "sz \<le> 2 ^ 63" and "st_cmds s c = Some m"
  shows "(\<forall>d n h. st_cmds s d = Some n \<and> h \<in> set (owned m) \<and> h \<in> set (owned n) \<longrightarrow> d = c) \<and>
    ((c_phase m = Acquiring \<or> c_phase m = Retrying) \<and> c_pos m < length (c_hashes m) \<longrightarrow>
       (\<exists>r. acquire_one (st_latches s) (c_hashes m ! c_pos m) c = Ok r)) \<and>
    (c_phase m = Releasing None \<and> c_pos m < length (c_hashes m) \<longrightarrow>
       (\<exists>r. release_one (st_latches s) (c_hashes m ! c_pos m) c None [] = Ok r)) \<and>
    (\<forall>e. c_phase m = Releasing (Some e) \<longrightarrow>
       (\<exists>k. st_cmds s e = Some k \<and>
          (c_pos m < length (c_hashes m) \<longrightarrow>
             (\<exists>r. release_one (st_latches s) (c_hashes m ! c_pos m) c (Some e) (drop (c_pos k) (c_hashes k)) = Ok r)) \<and>
          (c_pos m = length (c_hashes m) \<longrightarrow> drop (c_pos k) (c_hashes k) = []))) \<and>
    (c_phase m = Waiting \<longrightarrow> c \<in> set (lqueue (st_latches s) (target m)) \<and>
       (c \<in> st_woken s \<longleftrightarrow> hd (lqueue (st_latches s) (target m)) = c))"
proof (intro conjI)
  have i: "latch_inv s" by (rule reachable_inv [OF assms(1,2)])
  show "\<forall>d n h. st_cmds s d = Some n \<and> h \<in> set (owned m) \<and> h \<in> set (owned n) \<longrightarrow> d = c"
  proof (intro allI impI, elim conjE)
    fix d n h assume "st_cmds s d = Some n" "h \<in> set (owned m)" "h \<in> set (owned n)"
    then show "d = c"
      using owners_okD(2) [OF latch_invD(3) [OF i], of d n h] owners_okD(2) [OF latch_invD(3) [OF i] assms(3), of h] by auto
  qed
  show "(c_phase m = Acquiring \<or> c_phase m = Retrying) \<and> c_pos m < length (c_hashes m) \<longrightarrow>
      (\<exists>r. acquire_one (st_latches s) (c_hashes m ! c_pos m) c = Ok r)"
    using acquire_ok [OF i assms(3)] by blast
  show "c_phase m = Releasing None \<and> c_pos m < length (c_hashes m) \<longrightarrow>
      (\<exists>r. release_one (st_latches s) (c_hashes m ! c_pos m) c None [] = Ok r)"
    using release_none_ok [OF i assms(3)] by blast
  show "\<forall>e. c_phase m = Releasing (Some e) \<longrightarrow>
      (\<exists>k. st_cmds s e = Some k \<and>
         (c_pos m < length (c_hashes m) \<longrightarrow>
            (\<exists>r. release_one (st_latches s) (c_hashes m ! c_pos m) c (Some e) (drop (c_pos k) (c_hashes k)) = Ok r)) \<and>
         (c_pos m = length (c_hashes m) \<longrightarrow> drop (c_pos k) (c_hashes k) = []))"
  proof (intro allI impI)
    fix e assume r: "c_phase m = Releasing (Some e)"
    obtain k where k: "st_cmds s e = Some k" "c_pos m = length (c_hashes m) \<longrightarrow> c_pos k = length (c_hashes k)"
      using kept_all [OF i assms(3) r] by blast
    then show "\<exists>k. st_cmds s e = Some k \<and>
        (c_pos m < length (c_hashes m) \<longrightarrow>
           (\<exists>r. release_one (st_latches s) (c_hashes m ! c_pos m) c (Some e) (drop (c_pos k) (c_hashes k)) = Ok r)) \<and>
        (c_pos m = length (c_hashes m) \<longrightarrow> drop (c_pos k) (c_hashes k) = [])"
      using release_keep_ok [OF i assms(3) r _ k(1)] by auto
  qed
  show "c_phase m = Waiting \<longrightarrow> c \<in> set (lqueue (st_latches s) (target m)) \<and>
      (c \<in> st_woken s \<longleftrightarrow> hd (lqueue (st_latches s) (target m)) = c)"
    using waiters_okD(1) [OF latch_invD(4) [OF i] assms(3)] by blast
qed

text \<open>
  A run with three commands on four slots. Command 1 holds the hashes 1, 3 and 5, of which 1 and 5 share a slot; command 2
  holds 2 and waits for 3 (\<open>example_blocked\<close>). Command 1 finishes and hands 1 and 5 over to command 4 (\<open>example_handing\<close>),
  which wakes command 2 (\<open>example_handed\<close>).
\<close>

definition example_slots :: "(u64 \<times> u64) option list list \<Rightarrow> latches" where
  "example_slots ws = \<lparr>slots = map (\<lambda>w. \<lparr>waiting = w\<rparr>) ws, latches_size = 4\<rparr>"

definition example_cmd :: "u64 list \<Rightarrow> nat \<Rightarrow> phase \<Rightarrow> cmd" where
  "example_cmd hs n ph = \<lparr>c_hashes = hs, c_pos = n, c_phase = ph\<rparr>"

definition example_started :: latch_state where
  "example_started = \<lparr>st_latches = example_slots [[], [], [], []],
     st_cmds = [1 \<mapsto> example_cmd [1, 3, 5] 0 Acquiring, 2 \<mapsto> example_cmd [2, 3] 0 Acquiring], st_woken = {}\<rparr>"

definition example_holding :: latch_state where
  "example_holding = \<lparr>st_latches = example_slots [[], [Some (1, 1), Some (5, 1)], [], [Some (3, 1)]],
     st_cmds = [1 \<mapsto> example_cmd [1, 3, 5] 3 Holding, 2 \<mapsto> example_cmd [2, 3] 0 Acquiring], st_woken = {}\<rparr>"

definition example_blocked :: latch_state where
  "example_blocked =
     \<lparr>st_latches = example_slots [[], [Some (1, 1), Some (5, 1)], [Some (2, 2)], [Some (3, 1), Some (3, 2)]],
      st_cmds = [1 \<mapsto> example_cmd [1, 3, 5] 3 Holding, 2 \<mapsto> example_cmd [2, 3] 1 Waiting], st_woken = {}\<rparr>"

definition example_handing :: latch_state where
  "example_handing = example_blocked\<lparr>st_cmds := [1 \<mapsto> example_cmd [1, 3, 5] 0 (Releasing (Some 4)),
     2 \<mapsto> example_cmd [2, 3] 1 Waiting, 4 \<mapsto> example_cmd [1, 5] 0 Inheriting]\<rparr>"

definition example_handed :: latch_state where
  "example_handed =
     \<lparr>st_latches = example_slots [[], [Some (5, 4), Some (1, 4), None], [Some (2, 2)], [Some (3, 2)]],
      st_cmds = [2 \<mapsto> example_cmd [2, 3] 1 Waiting, 4 \<mapsto> example_cmd [1, 5] 2 Holding], st_woken = {2}\<rparr>"

definition example_woken :: latch_state where
  "example_woken = example_handed\<lparr>st_cmds := [2 \<mapsto> example_cmd [2, 3] 1 Retrying, 4 \<mapsto> example_cmd [1, 5] 2 Holding],
     st_woken := {}\<rparr>"

definition example_resumed :: latch_state where
  "example_resumed = example_woken\<lparr>st_cmds := [2 \<mapsto> example_cmd [2, 3] 2 Holding, 4 \<mapsto> example_cmd [1, 5] 2 Holding]\<rparr>"

definition example_leaving :: latch_state where
  "example_leaving =
     example_resumed\<lparr>st_cmds := [2 \<mapsto> example_cmd [2, 3] 0 (Releasing None), 4 \<mapsto> example_cmd [1, 5] 2 Holding]\<rparr>"

definition example_left :: latch_state where
  "example_left = \<lparr>st_latches = example_slots [[], [Some (5, 4), Some (1, 4), None], [], []],
     st_cmds = [4 \<mapsto> example_cmd [1, 5] 2 Holding], st_woken = {}\<rparr>"

lemmas example_states = example_started_def example_holding_def example_blocked_def example_handing_def example_handed_def
  example_woken_def example_resumed_def example_leaving_def example_left_def

text \<open>The calls of the code in this run.\<close>

lemma example_calls:
  "acquire (st_latches example_started) \<lparr>required_hashes = [1, 3, 5], owned_count = 0\<rparr> 1 =
     Ok (True, \<lparr>required_hashes = [1, 3, 5], owned_count = 3\<rparr>, st_latches example_holding)"
  "acquire (st_latches example_holding) \<lparr>required_hashes = [2, 3], owned_count = 0\<rparr> 2 =
     Ok (False, \<lparr>required_hashes = [2, 3], owned_count = 1\<rparr>, st_latches example_blocked)"
  "release (st_latches example_handing) \<lparr>required_hashes = [1, 3, 5], owned_count = 3\<rparr> 1
       (Some (4, \<lparr>required_hashes = [1, 5], owned_count = 0\<rparr>)) =
     Ok ([2], st_latches example_handed)"
  "acquire (st_latches example_woken) \<lparr>required_hashes = [2, 3], owned_count = 1\<rparr> 2 =
     Ok (True, \<lparr>required_hashes = [2, 3], owned_count = 2\<rparr>, st_latches example_resumed)"
  "release (st_latches example_leaving) \<lparr>required_hashes = [2, 3], owned_count = 2\<rparr> 2 None =
     Ok ([], st_latches example_left)"
  by code_simp+

lemma example_reachable:
  "latch_reachable 4 example_started" "latch_reachable 4 example_holding" "latch_reachable 4 example_blocked"
  "latch_reachable 4 example_handing" "latch_reachable 4 example_handed" "latch_reachable 4 example_woken"
  "latch_reachable 4 example_resumed" "latch_reachable 4 example_leaving"
proof -
  have sz: "(4 :: u64) \<le> 2 ^ 63" by simp
  have n: "new_cmd [5, 1, 3, 1] Acquiring = example_cmd [1, 3, 5] 0 Acquiring" "new_cmd [3, 2] Acquiring = example_cmd [2, 3] 0 Acquiring"
    "new_cmd [5, 1] Inheriting = example_cmd [1, 5] 0 Inheriting" "latches_new 4 = example_slots [[], [], [], []]"
    by code_simp+
  let ?s = "(latch_init 4)\<lparr>st_cmds := [1 \<mapsto> example_cmd [1, 3, 5] 0 Acquiring]\<rparr>"
  have "arrival (latch_init 4) ?s"
    using arrival.Start [of "latch_init 4" 1 "[5, 1, 3, 1]"] n(1) by (simp add: latch_init_def)
  moreover have "arrival ?s example_started"
    using arrival.Start [of ?s 2 "[3, 2]"] n(2,4) by (simp add: latch_init_def example_started_def)
  ultimately show r: "latch_reachable 4 example_started" using latch_reachable.intros by blast
  have "progress\<^sup>*\<^sup>* example_started example_holding"
    using acquire_run [OF reachable_inv [OF r sz], of 1 "example_cmd [1, 3, 5] 0 Acquiring"] example_calls(1)
    by (auto simp: example_started_def example_holding_def example_cmd_def fun_upd_twist)
  then show r: "latch_reachable 4 example_holding" by (rule reachable_run [OF _ r])
  have "progress\<^sup>*\<^sup>* example_holding example_blocked"
    using acquire_run [OF reachable_inv [OF r sz], of 2 "example_cmd [2, 3] 0 Acquiring"] example_calls(2)
    by (auto simp: example_holding_def example_blocked_def example_cmd_def fun_upd_twist)
  then show r: "latch_reachable 4 example_blocked" by (rule reachable_run [OF _ r])
  have "arrival example_blocked example_handing"
    using arrival.HandOver [of example_blocked 1 "example_cmd [1, 3, 5] 3 Holding" 4 "[5, 1]"] n(3)
    by (simp add: example_blocked_def example_handing_def example_cmd_def fun_upd_twist)
  then show r: "latch_reachable 4 example_handing" by (rule latch_reachable.intros(3) [OF r])
  have "progress\<^sup>*\<^sup>* example_handing example_handed"
    using release_handover_run [OF reachable_inv [OF r sz], of 1 "example_cmd [1, 3, 5] 0 (Releasing (Some 4))" 4
        "example_cmd [1, 5] 0 Inheriting" "\<lparr>required_hashes = [1, 5], owned_count = 0\<rparr>"
        "\<lparr>required_hashes = [1, 3, 5], owned_count = 3\<rparr>"] example_calls(3)
    by (auto simp: example_handing_def example_blocked_def example_handed_def example_cmd_def fun_upd_twist numeral_2_eq_2 [symmetric])
  then show r: "latch_reachable 4 example_handed" by (rule reachable_run [OF _ r])
  have "progress example_handed example_woken"
    using progress.Wake [of example_handed 2 "example_cmd [2, 3] 1 Waiting"]
    by (simp add: example_handed_def example_woken_def example_cmd_def fun_upd_twist)
  then show r: "latch_reachable 4 example_woken" by (rule latch_reachable.intros(2) [OF r])
  have "progress\<^sup>*\<^sup>* example_woken example_resumed"
    using acquire_run [OF reachable_inv [OF r sz], of 2 "example_cmd [2, 3] 1 Retrying"] example_calls(4)
    by (auto simp: example_resumed_def example_woken_def example_handed_def example_cmd_def fun_upd_twist)
  then show r: "latch_reachable 4 example_resumed" by (rule reachable_run [OF _ r])
  have "progress example_resumed example_leaving"
    using progress.Finish [of example_resumed 2 "example_cmd [2, 3] 2 Holding"]
    by (simp add: example_resumed_def example_leaving_def example_cmd_def fun_upd_twist)
  then show "latch_reachable 4 example_leaving" by (rule latch_reachable.intros(2) [OF r])
qed

theorem latch_exclusion_witness:
  "latch_reachable 4 example_handing \<and>
   st_cmds example_handing 1 = Some (example_cmd [1, 3, 5] 0 (Releasing (Some 4))) \<and>
   owned (example_cmd [1, 3, 5] 0 (Releasing (Some 4))) = [1, 3, 5] \<and> owned (example_cmd [2, 3] 1 Waiting) = [2] \<and>
   \<not> (\<exists>d n. d \<noteq> 1 \<and> st_cmds example_handing d = Some n \<and> set (owned n) \<inter> {1, 3, 5} \<noteq> {}) \<and>
   (\<exists>r. release_one (st_latches example_handing) 1 1 (Some 4) [1, 5] = Ok r) \<and>
   2 \<in> set (lqueue (st_latches example_handing) 3) \<and> 2 \<notin> st_woken example_handing \<and>
   (\<exists>r. acquire_one (st_latches example_started) 1 1 = Ok r) \<and>
   (\<exists>r. release_one (st_latches example_leaving) 2 2 None [] = Ok r) \<and>
   2 \<in> st_woken example_handed \<and> hd (lqueue (st_latches example_handed) 3) = 2"
proof -
  have sz: "(4 :: u64) \<le> 2 ^ 63" by simp
  have o: "owned (example_cmd [1, 3, 5] 0 (Releasing (Some 4))) = [1, 3, 5]" "owned (example_cmd [2, 3] 1 Waiting) = [2]"
    by (simp_all add: owned_def example_cmd_def)
  have c: "st_cmds example_handing 1 = Some (example_cmd [1, 3, 5] 0 (Releasing (Some 4)))"
    "st_cmds example_handing 2 = Some (example_cmd [2, 3] 1 Waiting)"
    "st_cmds example_handing 4 = Some (example_cmd [1, 5] 0 Inheriting)"
    "st_cmds example_started 1 = Some (example_cmd [1, 3, 5] 0 Acquiring)"
    "st_cmds example_leaving 2 = Some (example_cmd [2, 3] 0 (Releasing None))"
    "st_cmds example_handed 2 = Some (example_cmd [2, 3] 1 Waiting)" "2 \<in> st_woken example_handed" "2 \<notin> st_woken example_handing"
    by (simp_all add: example_states)
  note use = latch_exclusion [OF _ sz]
  have "\<not> (\<exists>d n. d \<noteq> 1 \<and> st_cmds example_handing d = Some n \<and> set (owned n) \<inter> {1, 3, 5} \<noteq> {})"
    using use [OF example_reachable(4) c(1)] o(1) by auto
  moreover have "\<exists>r. release_one (st_latches example_handing) 1 1 (Some 4) [1, 5] = Ok r"
    using use [OF example_reachable(4) c(1)] c(3) by (auto simp: example_cmd_def)
  moreover have "2 \<in> set (lqueue (st_latches example_handing) 3)"
    using use [OF example_reachable(4) c(2)] by (auto simp: example_cmd_def target_def)
  moreover have "\<exists>r. acquire_one (st_latches example_started) 1 1 = Ok r"
    using use [OF example_reachable(1) c(4)] by (auto simp: example_cmd_def)
  moreover have "\<exists>r. release_one (st_latches example_leaving) 2 2 None [] = Ok r"
    using use [OF example_reachable(8) c(5)] by (auto simp: example_cmd_def)
  moreover have "hd (lqueue (st_latches example_handed) 3) = 2"
    using use [OF example_reachable(5) c(6)] c(7) by (auto simp: example_cmd_def target_def)
  ultimately show ?thesis using o c example_reachable(4) by blast
qed

definition example_state :: latch_state where
  "example_state =
     (latch_init 4)\<lparr>st_cmds := (st_cmds (latch_init 4))(7 \<mapsto> new_cmd [3, 1, 3] Acquiring)\<rparr>"

lemma example_state_reachable: "latch_reachable 4 example_state"
  unfolding example_state_def
  by (rule latch_reachable.intros(3) [OF latch_reachable.intros(1)], rule arrival.Start) (simp add: latch_init_def)

lemma example_state_cmd: "st_cmds example_state 7 = Some (new_cmd [3, 1, 3] Acquiring)"
  by (simp add: example_state_def)

text \<open>
  C14: The latches do not deadlock. From every reachable state the commands inside the scheduler take
  only finitely many steps, at most \<^const>\<open>rank\<close> of the state, and as long as a command is left one of them
  can take a step; so when no new command arrives all of them acquire their latches, run and leave,
  in every schedule, and leave every queue empty.
\<close>

theorem latch_liveness:
  assumes "latch_reachable sz s" and "sz \<le> 2 ^ 63"
  shows "(\<forall>n t. (progress ^^ n) s t \<longrightarrow> n \<le> rank (st_cmds s)) \<and>
    (\<forall>t. progress\<^sup>*\<^sup>* s t \<and> (\<nexists>u. progress t u) \<longrightarrow>
       st_cmds t = Map.empty \<and> (\<forall>h. lqueue (st_latches t) h = []))"
proof (intro conjI allI impI)
  have i: "latch_inv s" by (rule reachable_inv [OF assms])
  show "n \<le> rank (st_cmds s)" if "(progress ^^ n) s t" for n t
    using progress_run_rank [OF that i] by simp
  fix t assume t: "progress\<^sup>*\<^sup>* s t \<and> (\<nexists>u. progress t u)"
  then have it: "latch_inv t" using progress_run_inv i by blast
  then show e: "st_cmds t = Map.empty" using progress_exists [OF it] t by blast
  show "lqueue (st_latches t) h = []" for h
  proof (cases "lqueue (st_latches t) h")
    case (Cons d ds)
    then show ?thesis using owners_okD(4) [OF latch_invD(3) [OF it], of d h] e by simp
  qed
qed

theorem latch_liveness_witness:
  "latch_reachable 4 example_state \<and> st_cmds example_state 7 \<noteq> None \<and>
   \<not> (\<exists>t. progress\<^sup>*\<^sup>* example_state t \<and> (\<nexists>u. progress t u) \<and> st_cmds t \<noteq> Map.empty)"
proof -
  have "(4 :: u64) \<le> 2 ^ 63" by simp
  from latch_liveness [OF example_state_reachable this] example_state_reachable example_state_cmd
  show ?thesis by auto
qed

text \<open>
  C20: The functions of the code are runs of these steps and never panic. From every reachable state,
  \<^verbatim>\<open>Latches::acquire\<close> for a command that arrives or has been woken up returns, and leaves the command holding its
  latches or waiting, with the owned count of the lock it returns; \<^verbatim>\<open>Latches::release\<close> of the owned latches returns, removes
  the command and wakes exactly the commands of the list it returns; and with latches to keep it also leaves the next command
  holding them.
\<close>

theorem acquire_release_run:
  assumes "latch_reachable sz s" and "sz \<le> 2 ^ 63" and "st_cmds s c = Some m"
  shows "(c_phase m = Acquiring \<or> c_phase m = Retrying \<longrightarrow>
     (\<exists>got lock ls. acquire (st_latches s) \<lparr>required_hashes = c_hashes m, owned_count = c_pos m\<rparr> c = Ok (got, lock, ls) \<and>
        required_hashes lock = c_hashes m \<and>
        progress\<^sup>*\<^sup>* s (s\<lparr>st_latches := ls, st_cmds := (st_cmds s)(c \<mapsto>
          m\<lparr>c_pos := owned_count lock, c_phase := if got then Holding else Waiting\<rparr>)\<rparr>))) \<and>
    (\<forall>lock. c_pos m = 0 \<and> owned_count lock \<le> length (required_hashes lock) \<and>
        take (owned_count lock) (required_hashes lock) = c_hashes m \<longrightarrow>
     (c_phase m = Releasing None \<longrightarrow>
       (\<exists>wakeup_list ls. release (st_latches s) lock c None = Ok (wakeup_list, ls) \<and>
          progress\<^sup>*\<^sup>* s (s\<lparr>st_latches := ls, st_cmds := (st_cmds s)(c := None), st_woken := st_woken s \<union> set wakeup_list\<rparr>))) \<and>
     (\<forall>e k next_lock. c_phase m = Releasing (Some e) \<and> st_cmds s e = Some k \<and> c_pos k = 0 \<and>
          required_hashes next_lock = c_hashes k \<longrightarrow>
       (\<exists>wakeup_list ls. release (st_latches s) lock c (Some (e, next_lock)) = Ok (wakeup_list, ls) \<and>
          progress\<^sup>*\<^sup>* s (s\<lparr>st_latches := ls,
            st_cmds := (st_cmds s)(c := None, e \<mapsto> k\<lparr>c_pos := length (c_hashes k), c_phase := Holding\<rparr>),
            st_woken := st_woken s \<union> set wakeup_list\<rparr>))))"
proof -
  have i: "latch_inv s" by (rule reachable_inv [OF assms(1,2)])
  show ?thesis
    using acquire_run [OF i assms(3)] release_run [OF i assms(3)] release_handover_run [OF i assms(3)] by blast
qed

theorem acquire_release_run_witness:
  "acquire (st_latches example_started) \<lparr>required_hashes = [1, 3, 5], owned_count = 0\<rparr> 1 =
     Ok (True, \<lparr>required_hashes = [1, 3, 5], owned_count = 3\<rparr>, st_latches example_holding) \<and>
   progress\<^sup>*\<^sup>* example_started example_holding \<and>
   acquire (st_latches example_holding) \<lparr>required_hashes = [2, 3], owned_count = 0\<rparr> 2 =
     Ok (False, \<lparr>required_hashes = [2, 3], owned_count = 1\<rparr>, st_latches example_blocked) \<and>
   progress\<^sup>*\<^sup>* example_holding example_blocked \<and>
   release (st_latches example_handing) \<lparr>required_hashes = [1, 3, 5], owned_count = 3\<rparr> 1
       (Some (4, \<lparr>required_hashes = [1, 5], owned_count = 0\<rparr>)) = Ok ([2], st_latches example_handed) \<and>
   progress\<^sup>*\<^sup>* example_handing example_handed \<and>
   acquire (st_latches example_woken) \<lparr>required_hashes = [2, 3], owned_count = 1\<rparr> 2 =
     Ok (True, \<lparr>required_hashes = [2, 3], owned_count = 2\<rparr>, st_latches example_resumed) \<and>
   progress\<^sup>*\<^sup>* example_woken example_resumed \<and>
   release (st_latches example_leaving) \<lparr>required_hashes = [2, 3], owned_count = 2\<rparr> 2 None =
     Ok ([], st_latches example_left) \<and>
   progress\<^sup>*\<^sup>* example_leaving example_left"
proof (intro conjI example_calls)
  have sz: "(4 :: u64) \<le> 2 ^ 63" by simp
  note run = acquire_release_run [OF _ sz]
  show "progress\<^sup>*\<^sup>* example_started example_holding"
    using run [OF example_reachable(1), of 1 "example_cmd [1, 3, 5] 0 Acquiring"] example_calls(1)
    by (auto simp: example_started_def example_holding_def example_cmd_def fun_upd_twist)
  show "progress\<^sup>*\<^sup>* example_holding example_blocked"
    using run [OF example_reachable(2), of 2 "example_cmd [2, 3] 0 Acquiring"] example_calls(2)
    by (auto simp: example_holding_def example_blocked_def example_cmd_def fun_upd_twist)
  have "st_cmds example_handing 1 = Some (example_cmd [1, 3, 5] 0 (Releasing (Some 4)))"
    by (simp add: example_handing_def)
  from conjunct2 [OF run [OF example_reachable(4) this], rule_format, of "\<lparr>required_hashes = [1, 3, 5], owned_count = 3\<rparr>",
      THEN conjunct2, rule_format, of 4 "example_cmd [1, 5] 0 Inheriting" "\<lparr>required_hashes = [1, 5], owned_count = 0\<rparr>"]
  show "progress\<^sup>*\<^sup>* example_handing example_handed"
    using example_calls(3)
    by (auto simp: example_handing_def example_blocked_def example_handed_def example_cmd_def fun_upd_twist numeral_2_eq_2 [symmetric])
  show "progress\<^sup>*\<^sup>* example_woken example_resumed"
    using run [OF example_reachable(6), of 2 "example_cmd [2, 3] 1 Retrying"] example_calls(4)
    by (auto simp: example_resumed_def example_woken_def example_handed_def example_cmd_def fun_upd_twist)
  have "st_cmds example_leaving 2 = Some (example_cmd [2, 3] 0 (Releasing None))"
    by (simp add: example_leaving_def)
  from conjunct2 [OF run [OF example_reachable(8) this], rule_format, of "\<lparr>required_hashes = [2, 3], owned_count = 2\<rparr>",
      THEN conjunct1, rule_format]
  show "progress\<^sup>*\<^sup>* example_leaving example_left"
    using example_calls(5)
    by (auto simp: example_leaving_def example_resumed_def example_woken_def example_handed_def example_left_def example_cmd_def fun_upd_twist)
qed

end
