(* ===== verification/Deadlock.thy ===== *)
theory Deadlock
  imports Timestamp "HOL-Library.AList"
begin

text \<open>
  The wait-for graph of the deadlock detector (\<^verbatim>\<open>Locks\<close> and \<^verbatim>\<open>DetectTable\<close> of
  \<^verbatim>\<open>src/server/lock_manager/deadlock.rs\<close>). Hash maps are association lists with distinct keys; the
  order in which the search iterates over the edges of a vertex is unspecified in the code and is a
  parameter here (\<open>ord\<close>, the place of a key in the iteration). Instants and durations count
  nanoseconds, and the current instant is an argument of the operation that reads the clock.

  The search terminates without a bound, since a vertex is pushed once. It reports a deadlock exactly
  when the new edge would close a cycle of unexpired edges, the reported chain is such a path, and
  the graph, expired edges included, stays acyclic.
\<close>

definition saturating_duration_since :: "instant \<Rightarrow> instant \<Rightarrow> duration" where
  "saturating_duration_since later earlier = later - earlier"

subsection \<open>The locks one transaction waits for\<close>

record wait_for_entry =
  we_txn :: u64
  we_wait_for_txn :: u64
  we_key_hash :: u64
  we_key :: bytes
  we_resource_group_tag :: bytes

record locks =
  lk_ts :: timestamp
  lk_keys :: "(u64 \<times> bytes) list"
  lk_resource_group_tag :: bytes
  lk_last_detect_time :: instant

definition locks_new :: "timestamp \<Rightarrow> u64 \<Rightarrow> bytes \<Rightarrow> bytes \<Rightarrow> instant \<Rightarrow> locks" where
  "locks_new ts hash key tag now =
     \<lparr>lk_ts = ts, lk_keys = [(hash, key)], lk_resource_group_tag = tag, lk_last_detect_time = now\<rparr>"

definition locks_push :: "locks \<Rightarrow> u64 \<Rightarrow> bytes \<Rightarrow> instant \<Rightarrow> locks" where
  "locks_push l lock_hash key now =
     (let l = (if list_ex (\<lambda>(hash, _). hash = lock_hash) (lk_keys l) then l
               else l\<lparr>lk_keys := lk_keys l @ [(lock_hash, key)]\<rparr>) in
      l\<lparr>lk_last_detect_time := now\<rparr>)"

primrec remove_hash :: "u64 \<Rightarrow> (u64 \<times> bytes) list \<Rightarrow> (u64 \<times> bytes) list" where
  "remove_hash lock_hash [] = []"
| "remove_hash lock_hash (hk # keys) = (if fst hk = lock_hash then keys else hk # remove_hash lock_hash keys)"

definition locks_remove :: "locks \<Rightarrow> u64 \<Rightarrow> bool \<times> locks" where
  "locks_remove l lock_hash =
     (let l = l\<lparr>lk_keys := remove_hash lock_hash (lk_keys l)\<rparr> in (lk_keys l = [], l))"

definition locks_is_expired :: "locks \<Rightarrow> instant \<Rightarrow> duration \<Rightarrow> bool" where
  "locks_is_expired l now ttl \<longleftrightarrow> saturating_duration_since now (lk_last_detect_time l) \<ge> ttl"

definition to_wait_for_entry :: "locks \<Rightarrow> timestamp \<Rightarrow> wait_for_entry panics" where
  "to_wait_for_entry l waiter_ts =
     (case lk_keys l of
        [] \<Rightarrow> Panic
      | (hash, key) # _ \<Rightarrow>
          Ok \<lparr>we_txn = waiter_ts, we_wait_for_txn = lk_ts l, we_key_hash = hash, we_key = key,
              we_resource_group_tag = lk_resource_group_tag l\<rparr>)"

subsection \<open>The table\<close>

type_synonym wait_for = "(timestamp \<times> locks) list"
type_synonym wait_map = "(timestamp \<times> wait_for) list"

record detect_table =
  wait_for_map :: wait_map
  dt_ttl :: duration
  last_active_expire :: instant
  dt_now :: instant

definition detect_table_new :: "duration \<Rightarrow> instant \<Rightarrow> instant \<Rightarrow> detect_table" where
  "detect_table_new ttl t t' =
     \<lparr>wait_for_map = [], dt_ttl = ttl, last_active_expire = t, dt_now = t'\<rparr>"

definition retain_live :: "instant \<Rightarrow> duration \<Rightarrow> wait_for \<Rightarrow> wait_for" where
  "retain_live now ttl es = filter (\<lambda>(_, l). \<not> locks_is_expired l now ttl) es"

definition ACTIVE_EXPIRE_THRESHOLD :: nat where "ACTIVE_EXPIRE_THRESHOLD = 100000"
definition ACTIVE_EXPIRE_INTERVAL :: duration where "ACTIVE_EXPIRE_INTERVAL = 3600 * 1000000000"

definition active_expire :: "detect_table \<Rightarrow> detect_table" where
  "active_expire t =
     (if length (wait_for_map t) \<ge> ACTIVE_EXPIRE_THRESHOLD \<and>
         saturating_duration_since (dt_now t) (last_active_expire t) \<ge> ACTIVE_EXPIRE_INTERVAL
      then
        let m = map (\<lambda>(txn, es). (txn, retain_live (dt_now t) (dt_ttl t) es)) (wait_for_map t) in
        t\<lparr>wait_for_map := filter (\<lambda>(_, es). es \<noteq> []) m, last_active_expire := dt_now t\<rparr>
      else t)"

definition register_if_existed ::
  "detect_table \<Rightarrow> timestamp \<Rightarrow> timestamp \<Rightarrow> u64 \<Rightarrow> bytes \<Rightarrow> bytes \<Rightarrow> bool \<times> detect_table" where
  "register_if_existed t txn_ts lock_ts lock_hash key tag =
     (case map_of (wait_for_map t) txn_ts of
        None \<Rightarrow> (False, t)
      | Some es \<Rightarrow>
          (case map_of es lock_ts of
             None \<Rightarrow> (False, t)
           | Some l \<Rightarrow>
               let l = (locks_push l lock_hash key (dt_now t))\<lparr>lk_resource_group_tag := tag\<rparr> in
               (True, t\<lparr>wait_for_map := AList.update txn_ts (AList.update lock_ts l es) (wait_for_map t)\<rparr>)))"

definition register ::
  "detect_table \<Rightarrow> timestamp \<Rightarrow> timestamp \<Rightarrow> u64 \<Rightarrow> bytes \<Rightarrow> bytes \<Rightarrow> detect_table panics" where
  "register t txn_ts lock_ts lock_hash key tag =
     (let es = (case map_of (wait_for_map t) txn_ts of None \<Rightarrow> [] | Some es \<Rightarrow> es) in
      assert_then (map_of es lock_ts = None)
        (let l = locks_new lock_ts lock_hash key tag (dt_now t) in
         Ok (t\<lparr>wait_for_map := AList.update txn_ts (AList.update (lk_ts l) l es) (wait_for_map t)\<rparr>)))"

definition clean_up_wait_for :: "detect_table \<Rightarrow> timestamp \<Rightarrow> timestamp \<times> u64 \<Rightarrow> detect_table" where
  "clean_up_wait_for t txn_ts digest =
     (case map_of (wait_for_map t) txn_ts of
        None \<Rightarrow> t
      | Some es \<Rightarrow>
          (case map_of es (fst digest) of
             None \<Rightarrow> t
           | Some l \<Rightarrow>
               let (emptied, l) = locks_remove l (snd digest) in
               if emptied
               then let es = AList.delete (fst digest) es in
                    t\<lparr>wait_for_map := if es = [] then AList.delete txn_ts (wait_for_map t)
                                      else AList.update txn_ts es (wait_for_map t)\<rparr>
               else t\<lparr>wait_for_map := AList.update txn_ts (AList.update (fst digest) l es) (wait_for_map t)\<rparr>))"

definition clean_up :: "detect_table \<Rightarrow> timestamp \<Rightarrow> detect_table" where
  "clean_up t txn_ts = t\<lparr>wait_for_map := AList.delete txn_ts (wait_for_map t)\<rparr>"

definition clear_table :: "detect_table \<Rightarrow> detect_table" where
  "clear_table t = t\<lparr>wait_for_map := []\<rparr>"

definition reset_ttl :: "detect_table \<Rightarrow> duration \<Rightarrow> detect_table" where
  "reset_ttl t ttl = t\<lparr>dt_ttl := ttl\<rparr>"

subsection \<open>The search\<close>

text \<open>
  The body of the inner loop either finds the goal or extends the stack (top first) and the
  predecessors (newest first). Every vertex but the first is pushed from an edge of the table, which
  only shrinks, so the number of vertices still to be pushed and popped decreases.
\<close>

type_synonym predecessors = "(timestamp \<times> timestamp) list"

datatype visit = Found locks predecessors | Visited "timestamp list" predecessors

primrec visit_edges :: "timestamp \<Rightarrow> timestamp \<Rightarrow> wait_for \<Rightarrow> timestamp list \<Rightarrow> predecessors \<Rightarrow> visit" where
  "visit_edges txn_ts curr_ts [] stack pushed = Visited stack pushed"
| "visit_edges txn_ts curr_ts (e # es) stack pushed =
     (if fst e = txn_ts then Found (snd e) pushed
      else if map_of pushed (fst e) = None
      then visit_edges txn_ts curr_ts es (fst e # stack) ((fst e, curr_ts) # pushed)
      else visit_edges txn_ts curr_ts es stack pushed)"

definition iterate :: "(timestamp \<Rightarrow> nat) \<Rightarrow> wait_for \<Rightarrow> wait_for" where
  "iterate ord es = sort_key (\<lambda>e. ord (fst e)) es"

definition waited :: "wait_map \<Rightarrow> timestamp set" where
  "waited m = (\<Union>(txn, es)\<in>set m. fst ` set es)"

lemma visit_edges_measure:
  assumes "visit_edges txn_ts curr_ts es stack pushed = Visited stack' pushed'"
    "finite W" "fst ` set es \<subseteq> W"
  shows "length stack' + card (W - fst ` set pushed') = length stack + card (W - fst ` set pushed)"
  using assms
proof (induction es arbitrary: stack pushed)
  case (Cons e es)
  show ?case
  proof (cases "map_of pushed (fst e) = None")
    case True
    then have e: "fst e \<in> W - fst ` set pushed" using Cons.prems(3) by (auto simp: map_of_eq_None_iff)
    have "W - fst ` set ((fst e, curr_ts) # pushed) = W - fst ` set pushed - {fst e}" by auto
    then have "Suc (card (W - fst ` set ((fst e, curr_ts) # pushed))) = card (W - fst ` set pushed)"
      using card_Suc_Diff1 [OF _ e] Cons.prems(2) by simp
    moreover have "length stack' + card (W - fst ` set pushed') =
        length (fst e # stack) + card (W - fst ` set ((fst e, curr_ts) # pushed))"
      by (rule Cons.IH) (use Cons.prems True in \<open>auto split: if_splits\<close>)
    ultimately show ?thesis by simp
  next
    case False
    then show ?thesis using Cons by (auto split: if_splits)
  qed
qed simp

lemma finite_waited: "finite (waited m)"
  by (auto simp: waited_def)

lemma waited_mem:
  assumes "map_of m c = Some es"
  shows "fst ` set es \<subseteq> waited m"
  unfolding waited_def by (rule UN_upper [OF map_of_SomeD [OF assms], of "\<lambda>(txn, es). fst ` set es", simplified])

lemma waited_update:
  assumes "map_of m c = Some es" "set es' \<subseteq> set es"
  shows "waited (AList.update c es' m) \<subseteq> waited m"
proof -
  have "set (AList.update c es' m) \<subseteq> insert (c, es') (set m)"
    by (induction m) auto
  then show ?thesis using assms(2) map_of_SomeD [OF assms(1)] by (fastforce simp: waited_def)
qed

lemma waited_delete: "waited (AList.delete c m) \<subseteq> waited m"
  by (auto simp: waited_def AList.delete_eq)

function detect_loop ::
  "(timestamp \<Rightarrow> nat) \<Rightarrow> instant \<Rightarrow> duration \<Rightarrow> timestamp \<Rightarrow> timestamp list \<Rightarrow> predecessors \<Rightarrow> wait_map \<Rightarrow>
     (timestamp \<times> locks \<times> predecessors) option \<times> wait_map" where
  "detect_loop ord now ttl txn_ts [] pushed m = (None, m)"
| "detect_loop ord now ttl txn_ts (curr_ts # stack) pushed m =
     (case map_of m curr_ts of
        None \<Rightarrow> detect_loop ord now ttl txn_ts stack pushed m
      | Some es \<Rightarrow>
          (let es' = retain_live now ttl es in
           if es' = [] then detect_loop ord now ttl txn_ts stack pushed (AList.delete curr_ts m)
           else
             let m' = AList.update curr_ts es' m in
             case visit_edges txn_ts curr_ts (iterate ord es') stack pushed of
               Found l pushed' \<Rightarrow> (Some (curr_ts, l, pushed'), m')
             | Visited stack' pushed' \<Rightarrow> detect_loop ord now ttl txn_ts stack' pushed' m'))"
  by pat_completeness auto

termination
proof (relation "measure (\<lambda>(ord, now, ttl, txn_ts, stack, pushed, m). length stack + card (waited m - fst ` set pushed))", goal_cases)
  case (3 ord now ttl txn_ts curr_ts stack pushed m es es')
  have "card (waited (AList.delete curr_ts m) - fst ` set pushed) \<le> card (waited m - fst ` set pushed)"
    by (rule card_mono) (use finite_waited waited_delete in auto)
  then show ?case by simp
next
  case (4 ord now ttl txn_ts curr_ts stack pushed m es es' m' stack' pushed')
  have es': "set es' \<subseteq> set es" using 4(2) by (auto simp: retain_live_def)
  have "card (waited m' - fst ` set pushed') \<le> card (waited m - fst ` set pushed')"
    by (rule card_mono) (use finite_waited waited_update [OF 4(1) es'] 4(4) in auto)
  moreover have "fst ` set (iterate ord es') \<subseteq> waited m"
    using image_mono [OF es', of fst] waited_mem [OF 4(1)] by (simp add: iterate_def)
  ultimately show ?case
    using visit_edges_measure [OF 4(5) finite_waited [of m]] by simp
qed simp_all

primrec wait_chain_loop ::
  "nat \<Rightarrow> wait_map \<Rightarrow> timestamp \<Rightarrow> predecessors \<Rightarrow> timestamp \<Rightarrow> wait_for_entry list \<Rightarrow> wait_for_entry list panics" where
  "wait_chain_loop 0 m start preds lock_ts wait_chain = Panic"
| "wait_chain_loop (Suc n) m start preds lock_ts wait_chain =
     and_then (unwrap (map_of preds lock_ts)) (\<lambda>waiter_ts.
       if ts_is_zero waiter_ts then assert_then (lock_ts = start) (Ok (rev wait_chain))
       else
         and_then (unwrap (map_of m waiter_ts)) (\<lambda>es.
         and_then (unwrap (map_of es lock_ts)) (\<lambda>l.
         and_then (to_wait_for_entry l waiter_ts) (\<lambda>entry.
         wait_chain_loop n m start preds waiter_ts (wait_chain @ [entry])))))"

text \<open>The walk back follows the predecessors, each older than the one before, so their number bounds it.\<close>

definition generate_wait_chain ::
  "wait_map \<Rightarrow> timestamp \<Rightarrow> timestamp \<Rightarrow> predecessors \<Rightarrow> wait_for_entry list panics" where
  "generate_wait_chain m start end_ts preds = wait_chain_loop (length preds) m start preds end_ts []"

definition do_detect ::
  "(timestamp \<Rightarrow> nat) \<Rightarrow> detect_table \<Rightarrow> timestamp \<Rightarrow> timestamp \<Rightarrow>
     ((u64 \<times> wait_for_entry list) option \<times> detect_table) panics" where
  "do_detect ord t txn_ts wait_for_ts =
     (case detect_loop ord (dt_now t) (dt_ttl t) txn_ts [wait_for_ts] [(wait_for_ts, ts_zero)] (wait_for_map t) of
        (None, m) \<Rightarrow> Ok (None, t\<lparr>wait_for_map := m\<rparr>)
      | (Some (curr_ts, l, pushed), m) \<Rightarrow>
          and_then (case lk_keys l of [] \<Rightarrow> Panic | (hash, _) # _ \<Rightarrow> Ok hash) (\<lambda>hash.
          and_then (to_wait_for_entry l curr_ts) (\<lambda>last_entry.
          and_then (generate_wait_chain m wait_for_ts curr_ts pushed) (\<lambda>wait_chain.
          Ok (Some (hash, wait_chain @ [last_entry]), t\<lparr>wait_for_map := m\<rparr>)))))"

definition detect ::
  "(timestamp \<Rightarrow> nat) \<Rightarrow> instant \<Rightarrow> detect_table \<Rightarrow> timestamp \<Rightarrow> timestamp \<Rightarrow> u64 \<Rightarrow> bytes \<Rightarrow> bytes \<Rightarrow>
     ((u64 \<times> wait_for_entry list) option \<times> detect_table) panics" where
  "detect ord now t txn_ts lock_ts lock_hash lock_key tag =
     (let t = active_expire (t\<lparr>dt_now := now\<rparr>);
          (existed, t) = register_if_existed t txn_ts lock_ts lock_hash lock_key tag in
      if existed then Ok (None, t)
      else
        and_then (do_detect ord t txn_ts lock_ts) (\<lambda>(res, t).
        case res of
          Some deadlock \<Rightarrow> Ok (Some deadlock, t)
        | None \<Rightarrow> map_ok (\<lambda>t. (None, t)) (register t txn_ts lock_ts lock_hash lock_key tag)))"

subsection \<open>The wait-for graph\<close>

definition edge :: "wait_map \<Rightarrow> timestamp \<Rightarrow> timestamp \<Rightarrow> locks option" where
  "edge m t u = Option.bind (map_of m t) (\<lambda>es. map_of es u)"

definition waits :: "wait_map \<Rightarrow> (timestamp \<times> timestamp) set" where
  "waits m = {(t, u). edge m t u \<noteq> None}"

definition live :: "instant \<Rightarrow> duration \<Rightarrow> wait_map \<Rightarrow> (timestamp \<times> timestamp) set" where
  "live now ttl m = {(t, u). \<exists>l. edge m t u = Some l \<and> \<not> locks_is_expired l now ttl}"

definition edges_ok :: "wait_for \<Rightarrow> bool" where
  "edges_ok es \<longleftrightarrow> distinct (map fst es) \<and> (\<forall>(u, l)\<in>set es. lk_ts l = u \<and> lk_keys l \<noteq> [])"

definition table_ok :: "wait_map \<Rightarrow> bool" where
  "table_ok m \<longleftrightarrow> distinct (map fst m) \<and> (\<forall>(t, es)\<in>set m. t \<noteq> 0 \<and> es \<noteq> [] \<and> edges_ok es)"

lemma edge_update [simp]: "edge (AList.update c es m) t u = (if t = c then map_of es u else edge m t u)"
  by (simp add: edge_def update_conv')

lemma edge_delete [simp]: "edge (AList.delete c m) t u = (if t = c then None else edge m t u)"
  by (simp add: edge_def delete_conv' restrict_map_def)

lemma edge_eq: "map_of m t = Some es \<Longrightarrow> edge m t u = map_of es u"
  by (simp add: edge_def)

lemma table_okD:
  assumes "table_ok m" "map_of m t = Some es"
  shows "t \<noteq> 0" "es \<noteq> []" "edges_ok es"
  using assms map_of_SomeD [OF assms(2)] by (auto simp: table_ok_def)

lemma edges_okD:
  assumes "edges_ok es" "map_of es u = Some l"
  shows "lk_ts l = u" "lk_keys l \<noteq> []"
  using assms map_of_SomeD [OF assms(2)] by (auto simp: edges_ok_def)

lemma table_ok_edge:
  assumes "table_ok m" "edge m t u = Some l"
  shows "t \<noteq> 0" "lk_ts l = u" "lk_keys l \<noteq> []"
proof -
  obtain es where es: "map_of m t = Some es" "map_of es u = Some l"
    using assms(2) by (auto simp: edge_def Option.bind_eq_Some_conv)
  show "t \<noteq> 0" "lk_ts l = u" "lk_keys l \<noteq> []"
    using table_okD [OF assms(1) es(1)] edges_okD [OF _ es(2)] by auto
qed

lemma set_AList_update: "set (AList.update k v al) \<subseteq> insert (k, v) (set al)"
  by (induction al) auto

lemma table_ok_update:
  "table_ok m \<Longrightarrow> t \<noteq> 0 \<Longrightarrow> es \<noteq> [] \<Longrightarrow> edges_ok es \<Longrightarrow> table_ok (AList.update t es m)"
  using set_AList_update [of t es m] by (auto simp: table_ok_def distinct_update)

lemma table_ok_delete: "table_ok m \<Longrightarrow> table_ok (AList.delete t m)"
  by (auto simp: table_ok_def AList.delete_eq distinct_map_filter)

lemma edges_ok_update:
  "edges_ok es \<Longrightarrow> lk_ts l = u \<Longrightarrow> lk_keys l \<noteq> [] \<Longrightarrow> edges_ok (AList.update u l es)"
  using set_AList_update [of u l es] by (auto simp: edges_ok_def distinct_update)

lemma edges_ok_filter: "edges_ok es \<Longrightarrow> edges_ok (filter P es)"
  by (auto simp: edges_ok_def distinct_map_filter)

lemma map_of_filter_distinct':
  "distinct (map fst es) \<Longrightarrow>
   map_of (filter P es) u = (case map_of es u of Some l \<Rightarrow> if P (u, l) then Some l else None | None \<Rightarrow> None)"
  by (induction es) (auto simp: map_of_eq_None_iff image_iff split: option.splits dest: map_of_SomeD)

lemma map_of_retain:
  "edges_ok es \<Longrightarrow>
   map_of (retain_live now ttl es) u =
     (case map_of es u of Some l \<Rightarrow> if locks_is_expired l now ttl then None else Some l | None \<Rightarrow> None)"
  unfolding retain_live_def edges_ok_def by (auto simp: map_of_filter_distinct' split: option.splits)

subsubsection \<open>Dropping expired edges\<close>

definition pruned :: "instant \<Rightarrow> duration \<Rightarrow> wait_map \<Rightarrow> wait_map \<Rightarrow> bool" where
  "pruned now ttl m m' \<longleftrightarrow>
     (\<forall>t u. edge m' t u = edge m t u \<or>
        edge m' t u = None \<and> (\<exists>l. edge m t u = Some l \<and> locks_is_expired l now ttl))"

lemma pruned_refl [simp]: "pruned now ttl m m"
  by (simp add: pruned_def)

lemma pruned_trans: "pruned now ttl m m' \<Longrightarrow> pruned now ttl m' m'' \<Longrightarrow> pruned now ttl m m''"
  unfolding pruned_def by metis

lemma pruned_waits: "pruned now ttl m m' \<Longrightarrow> waits m' \<subseteq> waits m"
  unfolding pruned_def waits_def by clarsimp metis

lemma pruned_live: "pruned now ttl m m' \<Longrightarrow> live now ttl m' = live now ttl m"
  unfolding pruned_def live_def by (auto, (metis option.inject option.discI)+)

lemma live_waits: "live now ttl m \<subseteq> waits m"
  by (auto simp: live_def waits_def)

lemma pruned_edge: "pruned now ttl m m' \<Longrightarrow> edge m' t u = Some l \<Longrightarrow> edge m t u = Some l"
  unfolding pruned_def by (metis option.distinct(1))

lemma pruned_retain:
  assumes "table_ok m" "map_of m c = Some es"
  shows "retain_live now ttl es = [] \<Longrightarrow> pruned now ttl m (AList.delete c m)"
    and "pruned now ttl m (AList.update c (retain_live now ttl es) m)"
proof -
  have r: "map_of (retain_live now ttl es) u =
      (case edge m c u of Some l \<Rightarrow> if locks_is_expired l now ttl then None else Some l | None \<Rightarrow> None)" for u
    using map_of_retain [OF table_okD(3) [OF assms]] edge_eq [OF assms(2)] by simp
  show "pruned now ttl m (AList.update c (retain_live now ttl es) m)"
    by (auto simp: pruned_def r split: option.splits)
  assume e: "retain_live now ttl es = []"
  have "edge m c u = None \<or> (\<exists>l. edge m c u = Some l \<and> locks_is_expired l now ttl)" for u
    using r [of u] unfolding e by (auto split: option.splits if_splits)
  then show "pruned now ttl m (AList.delete c m)" unfolding pruned_def by (metis edge_delete)
qed

lemma map_of_prune:
  "map_of (filter (\<lambda>(_, es). es \<noteq> []) (map (\<lambda>(t, es). (t, f es)) m)) t =
     (if distinct (map fst m) then Option.bind (map_of m t) (\<lambda>es. if f es = [] then None else Some (f es))
      else map_of (filter (\<lambda>(_, es). es \<noteq> []) (map (\<lambda>(t, es). (t, f es)) m)) t)"
  by (induction m) (auto simp: map_of_eq_None_iff image_iff split: option.splits dest: map_of_SomeD)

lemma active_expire_ok:
  assumes "table_ok (wait_for_map t)"
  shows "table_ok (wait_for_map (active_expire t))"
    and "pruned (dt_now t) (dt_ttl t) (wait_for_map t) (wait_for_map (active_expire t))"
    and "dt_now (active_expire t) = dt_now t" "dt_ttl (active_expire t) = dt_ttl t"
proof -
  let ?m = "wait_for_map t"
  let ?m' = "filter (\<lambda>(_, es). es \<noteq> []) (map (\<lambda>(txn, es). (txn, retain_live (dt_now t) (dt_ttl t) es)) ?m)"
  have d: "distinct (map fst ?m)" using assms by (simp add: table_ok_def)
  have "map fst (map (\<lambda>(txn, es). (txn, retain_live (dt_now t) (dt_ttl t) es)) ?m) = map fst ?m" by auto
  then have "distinct (map fst (map (\<lambda>(txn, es). (txn, retain_live (dt_now t) (dt_ttl t) es)) ?m))" using d by argo
  then have "distinct (map fst ?m')" by (rule distinct_map_filter)
  then have "table_ok ?m'"
    using assms by (auto simp: table_ok_def retain_live_def edges_ok_filter)
  moreover have "edge ?m' v u = edge ?m v u \<or>
      edge ?m' v u = None \<and> (\<exists>l. edge ?m v u = Some l \<and> locks_is_expired l (dt_now t) (dt_ttl t))" for v u
  proof (cases "map_of ?m v")
    case None
    then show ?thesis by (simp add: edge_def map_of_prune [of _ ?m] d)
  next
    case (Some es)
    have "edge ?m' v u = map_of (retain_live (dt_now t) (dt_ttl t) es) u"
      using Some d by (simp add: edge_def map_of_prune [of _ ?m])
    then show ?thesis
      using map_of_retain [OF table_okD(3) [OF assms Some]] edge_eq [OF Some] by (auto split: option.splits)
  qed
  then have "pruned (dt_now t) (dt_ttl t) ?m ?m'" by (simp add: pruned_def)
  ultimately show "table_ok (wait_for_map (active_expire t))"
    "pruned (dt_now t) (dt_ttl t) (wait_for_map t) (wait_for_map (active_expire t))"
    "dt_now (active_expire t) = dt_now t" "dt_ttl (active_expire t) = dt_ttl t"
    using assms by (simp_all add: active_expire_def Let_def)
qed

subsection \<open>The search finds the paths to the goal\<close>

primrec preds_ok :: "(timestamp \<times> timestamp) set \<Rightarrow> timestamp \<Rightarrow> predecessors \<Rightarrow> bool" where
  "preds_ok L s [] \<longleftrightarrow> False"
| "preds_ok L s (vp # ps) \<longleftrightarrow>
     (if ps = [] then vp = (s, 0)
      else snd vp \<noteq> 0 \<and> fst vp \<notin> fst ` set ps \<and> snd vp \<in> fst ` set ps \<and> (snd vp, fst vp) \<in> L \<and> preds_ok L s ps)"

lemma visit_edges_ok:
  assumes "preds_ok L s pushed" "cur \<in> fst ` set pushed" "cur \<noteq> 0" "\<forall>e\<in>set es. (cur, fst e) \<in> L"
  shows "case visit_edges txn cur es stack pushed of
      Found l pushed' \<Rightarrow> (txn, l) \<in> set es \<and> preds_ok L s pushed' \<and> fst ` set pushed \<subseteq> fst ` set pushed'
    | Visited stack' pushed' \<Rightarrow> txn \<notin> fst ` set es \<and> preds_ok L s pushed' \<and>
        fst ` set pushed' = fst ` set pushed \<union> fst ` set es \<and>
        set stack' = set stack \<union> (fst ` set es - fst ` set pushed)"
  using assms
proof (induction es arbitrary: stack pushed)
  case (Cons e es)
  show ?case
  proof (cases "fst e = txn \<or> map_of pushed (fst e) \<noteq> None")
    case True
    then show ?thesis
      using Cons.IH [of pushed stack] Cons.prems
      by (cases "fst e = txn") (auto simp: map_of_eq_None_iff image_iff split: visit.splits dest: map_of_SomeD)
  next
    case False
    then have n: "fst e \<notin> fst ` set pushed" "fst e \<noteq> txn" by (auto simp: map_of_eq_None_iff)
    have "preds_ok L s ((fst e, cur) # pushed)" using Cons.prems n(1) by auto
    note ih = Cons.IH [OF this _ Cons.prems(3), of "fst e # stack"]
    have "cur \<in> fst ` set ((fst e, cur) # pushed)" "\<forall>e\<in>set es. (cur, fst e) \<in> L" using Cons.prems by auto
    from ih [OF this] show ?thesis using n False by (auto simp del: preds_ok.simps split: visit.splits)
  qed
qed simp

lemma detect_loop_pruned:
  assumes "table_ok m" "detect_loop ord now ttl txn stack pushed m = (res, m')"
  shows "table_ok m' \<and> pruned now ttl m m'"
  using assms
proof (induction ord now ttl txn stack pushed m rule: detect_loop.induct)
  case (2 ord now ttl txn c stack pushed m)
  show ?case
  proof (cases "map_of m c")
    case None
    then show ?thesis using 2 by simp
  next
    case (Some es)
    note ok = table_okD [OF 2(4) Some]
    let ?es = "retain_live now ttl es"
    show ?thesis
    proof (cases "?es = []")
      case True
      then show ?thesis
        using 2(2) [OF Some refl True table_ok_delete [OF 2(4)]] 2(5) Some
          pruned_trans [OF pruned_retain(1) [OF 2(4) Some True]] by auto
    next
      case False
      have ok': "table_ok (AList.update c ?es m)"
        using table_ok_update [OF 2(4) ok(1) False] edges_ok_filter [OF ok(3)] by (simp add: retain_live_def)
      note p = pruned_retain(2) [OF 2(4) Some, of now ttl]
      show ?thesis
      proof (cases "visit_edges txn c (iterate ord ?es) stack pushed")
        case (Found l ps)
        then show ?thesis using 2(5) Some False ok' p by (auto simp: Let_def)
      next
        case (Visited stack' ps)
        have "detect_loop ord now ttl txn stack' ps (AList.update c ?es m) = (res, m')"
          using 2(5) Some False Visited by (simp add: Let_def)
        then show ?thesis using 2(3) [OF Some refl False refl Visited ok'] pruned_trans [OF p] by blast
      qed
    qed
  qed
qed simp

text \<open>A vertex is done when its remaining edges lead to pushed vertices other than the goal.\<close>

definition explored :: "timestamp \<Rightarrow> timestamp list \<Rightarrow> timestamp set \<Rightarrow> wait_map \<Rightarrow> bool" where
  "explored txn stack P m \<longleftrightarrow>
     set stack \<subseteq> P \<and> (\<forall>v\<in>P - set stack. \<forall>u. edge m v u \<noteq> None \<longrightarrow> u \<in> P \<and> u \<noteq> txn)"

lemma explored_pop:
  assumes "explored txn (c # stack) P m" "pruned now ttl m m'" "P \<subseteq> P'" "set stack' = set stack \<union> (P' - P)"
    "\<And>u. edge m' c u \<noteq> None \<Longrightarrow> u \<in> P' \<and> u \<noteq> txn"
  shows "explored txn stack' P' m'"
  unfolding explored_def
proof (intro conjI ballI allI impI)
  show "set stack' \<subseteq> P'" using assms(1,3,4) by (auto simp: explored_def)
  fix v u assume v: "v \<in> P' - set stack'" and e: "edge m' v u \<noteq> None"
  show "u \<in> P'" "u \<noteq> txn"
  proof -
    have "u \<in> P' \<and> u \<noteq> txn"
    proof (cases "v = c")
      case True
      then show ?thesis using assms(5) e by blast
    next
      case False
      have "edge m v u \<noteq> None" using e pruned_edge [OF assms(2)] by auto
      moreover have "v \<in> P - set (c # stack)" using v False assms(3,4) by auto
      ultimately show ?thesis using assms(1,3) unfolding explored_def by blast
    qed
    then show "u \<in> P'" "u \<noteq> txn" by blast+
  qed
qed

lemma explored_end:
  assumes "explored txn [] P m" "s \<in> P"
  shows "(s, txn) \<notin> (waits m)\<^sup>+"
proof -
  have "u \<in> P \<and> u \<noteq> txn" if "(s, u) \<in> (waits m)\<^sup>+" for u
    using that assms by (induction rule: trancl_induct) (auto simp: explored_def waits_def)
  then show ?thesis by blast
qed

lemma preds_ok_start: "preds_ok L s ps \<Longrightarrow> s \<in> fst ` set ps"
  by (induction ps) (auto split: if_splits)

lemma search_step:
  assumes "table_ok m" "map_of m c = Some es" "live now ttl m = L" "preds_ok L s pushed"
    "explored txn (c # stack) (fst ` set pushed) m" "retain_live now ttl es \<noteq> []"
    "m' = AList.update c (retain_live now ttl es) m"
  shows "table_ok m' \<and> live now ttl m' = L \<and>
    (case visit_edges txn c (iterate ord (retain_live now ttl es)) stack pushed of
       Found l ps \<Rightarrow> edge m' c txn = Some l \<and> (c, txn) \<in> L \<and> c \<in> fst ` set ps \<and> preds_ok L s ps
     | Visited stack' ps \<Rightarrow> preds_ok L s ps \<and> explored txn stack' (fst ` set ps) m')"
proof -
  let ?es = "retain_live now ttl es"
  note ok = table_okD [OF assms(1,2)]
  have es_ok: "edges_ok ?es" using edges_ok_filter [OF ok(3)] by (simp add: retain_live_def)
  have ok': "table_ok m'" unfolding assms(7) using table_ok_update [OF assms(1) ok(1) assms(6) es_ok] .
  note p = pruned_retain(2) [OF assms(1,2), of now ttl, folded assms(7)]
  have L: "live now ttl m' = L" using pruned_live [OF p] assms(3) by simp
  have lv: "(c, fst e) \<in> L \<and> map_of ?es (fst e) = Some (snd e)" if "e \<in> set ?es" for e
  proof -
    have "map_of ?es (fst e) = Some (snd e)" using that es_ok by (simp add: edges_ok_def)
    moreover have "\<not> locks_is_expired (snd e) now ttl" using that by (auto simp: retain_live_def)
    ultimately show ?thesis unfolding L [symmetric] live_def by (simp add: assms(7))
  qed
  have c: "c \<in> fst ` set pushed" using assms(5) by (simp add: explored_def)
  have "\<forall>e\<in>set (iterate ord ?es). (c, fst e) \<in> L" using lv by (simp add: iterate_def)
  note v = visit_edges_ok [OF assms(4) c ok(1) this, of txn stack]
  show ?thesis
  proof (cases "visit_edges txn c (iterate ord ?es) stack pushed")
    case (Found l ps)
    then have "(txn, l) \<in> set ?es" "preds_ok L s ps" "c \<in> fst ` set ps" using v c by (auto simp: iterate_def)
    then show ?thesis using lv [of "(txn, l)"] Found ok' L by (simp add: assms(7))
  next
    case (Visited stack' ps)
    have v': "txn \<notin> fst ` set ?es" "preds_ok L s ps" "fst ` set ps = fst ` set pushed \<union> fst ` set ?es"
      "set stack' = set stack \<union> (fst ` set ?es - fst ` set pushed)"
      using v Visited by (simp_all add: iterate_def)
    have "explored txn stack' (fst ` set ps) m'"
    proof (rule explored_pop [OF assms(5) p])
      fix u assume "edge m' c u \<noteq> None"
      then have "u \<in> fst ` set ?es" by (auto simp: map_of_eq_None_iff assms(7))
      then show "u \<in> fst ` set ps \<and> u \<noteq> txn" using v' by blast
    qed (use v' in auto)
    then show ?thesis using Visited ok' L v'(2) by simp
  qed
qed

lemma detect_loop_correct:
  assumes "table_ok m" "live now ttl m = L" "preds_ok L s pushed" "explored txn stack (fst ` set pushed) m"
    "detect_loop ord now ttl txn stack pushed m = (res, m')"
  shows "case res of
      None \<Rightarrow> (s, txn) \<notin> (waits m')\<^sup>+
    | Some (c, l, ps) \<Rightarrow> edge m' c txn = Some l \<and> (c, txn) \<in> L \<and> c \<in> fst ` set ps \<and> preds_ok L s ps"
  using assms
proof (induction ord now ttl txn stack pushed m rule: detect_loop.induct)
  case (1 ord now ttl txn pushed m)
  then show ?case using explored_end [OF _ preds_ok_start] by auto
next
  case (2 ord now ttl txn c stack pushed m)
  show ?case
  proof (cases "map_of m c")
    case None
    then have "explored txn stack (fst ` set pushed) m"
      by (intro explored_pop [OF 2(7) pruned_refl]) (auto simp: edge_def)
    then show ?thesis using 2(1) [OF None 2(4-6)] 2(8) None by simp
  next
    case (Some es)
    note ok = table_okD [OF 2(4) Some]
    let ?es = "retain_live now ttl es"
    show ?thesis
    proof (cases "?es = []")
      case True
      note p = pruned_retain(1) [OF 2(4) Some True]
      have "explored txn stack (fst ` set pushed) (AList.delete c m)"
        by (intro explored_pop [OF 2(7) p]) auto
      moreover have "live now ttl (AList.delete c m) = L" using pruned_live [OF p] 2(5) by simp
      moreover have "detect_loop ord now ttl txn stack pushed (AList.delete c m) = (res, m')"
        using 2(8) Some True by simp
      ultimately show ?thesis using 2(2) [OF Some refl True table_ok_delete [OF 2(4)] _ 2(6)] by blast
    next
      case False
      note step = search_step [OF 2(4) Some 2(5-7) False refl, where ord = ord]
      show ?thesis
      proof (cases "visit_edges txn c (iterate ord ?es) stack pushed")
        case (Found l ps)
        then have "res = Some (c, l, ps)" "m' = AList.update c ?es m" using 2(8) Some False by (simp_all add: Let_def)
        then show ?thesis using step Found by simp
      next
        case (Visited stack' ps)
        have "detect_loop ord now ttl txn stack' ps (AList.update c ?es m) = (res, m')"
          using 2(8) Some False Visited by (simp add: Let_def)
        then show ?thesis using 2(3) [OF Some refl False refl Visited] step Visited by simp
      qed
    qed
  qed
qed

subsection \<open>The reported chain\<close>

primrec wait_path ::
  "instant \<Rightarrow> duration \<Rightarrow> wait_map \<Rightarrow> timestamp \<Rightarrow> wait_for_entry list \<Rightarrow> timestamp \<Rightarrow> bool" where
  "wait_path now ttl m a [] b \<longleftrightarrow> a = b"
| "wait_path now ttl m a (e # es) b \<longleftrightarrow>
     (\<exists>l. edge m a (we_wait_for_txn e) = Some l \<and> \<not> locks_is_expired l now ttl \<and> to_wait_for_entry l a = Ok e) \<and>
     wait_path now ttl m (we_wait_for_txn e) es b"

lemma wait_path_snoc:
  "wait_path now ttl m a (es @ [e]) b \<longleftrightarrow>
     (\<exists>c l. wait_path now ttl m a es c \<and> edge m c (we_wait_for_txn e) = Some l \<and> \<not> locks_is_expired l now ttl \<and>
        to_wait_for_entry l c = Ok e \<and> we_wait_for_txn e = b)"
  by (induction es arbitrary: a) auto

lemma wait_path_mono:
  assumes "\<And>t u l. edge m t u = Some l \<Longrightarrow> edge m' t u = Some l"
  shows "wait_path now ttl m a es b \<Longrightarrow> wait_path now ttl m' a es b"
  by (induction es arbitrary: a) (use assms in auto)

lemma wait_path_live: "wait_path now ttl m a es b \<Longrightarrow> es \<noteq> [] \<Longrightarrow> (a, b) \<in> (live now ttl m)\<^sup>+"
proof (induction es arbitrary: b rule: rev_induct)
  case (snoc e es)
  obtain c l where c: "wait_path now ttl m a es c" "edge m c b = Some l" "\<not> locks_is_expired l now ttl"
    using snoc.prems(1) unfolding wait_path_snoc by auto
  then have cb: "(c, b) \<in> live now ttl m" by (auto simp: live_def)
  show ?case
  proof (cases "es = []")
    case True
    then show ?thesis using c(1) cb by auto
  next
    case False
    then show ?thesis using snoc.IH [OF c(1)] cb by (meson trancl_into_trancl)
  qed
qed simp

lemma entry_of_edge:
  assumes "table_ok m" "(c, u) \<in> live now ttl m"
  obtains l e where "edge m c u = Some l" "\<not> locks_is_expired l now ttl" "to_wait_for_entry l c = Ok e"
    "we_wait_for_txn e = u" "lk_keys l \<noteq> []" "we_key_hash e = fst (hd (lk_keys l))"
proof -
  obtain l where l: "edge m c u = Some l" "\<not> locks_is_expired l now ttl" using assms(2) by (auto simp: live_def)
  note ok = table_ok_edge(2,3) [OF assms(1) l(1)]
  obtain e where "to_wait_for_entry l c = Ok e" "we_wait_for_txn e = u" "we_key_hash e = fst (hd (lk_keys l))"
    using ok by (cases "lk_keys l") (auto simp: to_wait_for_entry_def)
  with l ok show ?thesis using that by blast
qed

lemma wait_chain_loop_correct:
  assumes "table_ok m" "preds_ok (live now ttl m) s ps" "v \<in> fst ` set ps" "length ps \<le> n"
    "\<And>x. x \<in> fst ` set ps \<Longrightarrow> map_of preds x = map_of ps x"
  shows "\<exists>chain. wait_chain_loop n m s preds v acc = Ok (chain @ rev acc) \<and> wait_path now ttl m s chain v"
  using assms(2-)
proof (induction ps arbitrary: v n acc)
  case (Cons vp ps)
  obtain n' where n: "n = Suc n'" using Cons.prems(3) by (cases n) auto
  have agree: "map_of preds x = map_of ps x" if "x \<in> fst ` set ps" "fst vp \<notin> fst ` set ps" for x
    using Cons.prems(4) [of x] that by (cases vp) auto
  consider "ps = []" | "ps \<noteq> []" "v = fst vp" | "ps \<noteq> []" "v \<noteq> fst vp" by blast
  then show ?case
  proof cases
    case 1
    then show ?thesis using Cons.prems n by (auto simp: ts_is_zero_def)
  next
    case 2
    have vp: "snd vp \<noteq> 0" "snd vp \<in> fst ` set ps" "(snd vp, v) \<in> live now ttl m" "preds_ok (live now ttl m) s ps"
      "fst vp \<notin> fst ` set ps" using Cons.prems(1) 2 by simp_all
    obtain l e where e: "edge m (snd vp) v = Some l" "\<not> locks_is_expired l now ttl" "to_wait_for_entry l (snd vp) = Ok e"
      "we_wait_for_txn e = v" using entry_of_edge [OF assms(1) vp(3)] by metis
    obtain chain where c: "wait_chain_loop n' m s preds (snd vp) (acc @ [e]) = Ok (chain @ rev (acc @ [e]))"
      "wait_path now ttl m s chain (snd vp)"
      using Cons.IH [OF vp(4,2), of n' "acc @ [e]"] agree vp(5) Cons.prems(3) n by auto
    obtain es where es: "map_of m (snd vp) = Some es" "map_of es v = Some l"
      using e(1) by (auto simp: edge_def Option.bind_eq_Some_conv)
    have "map_of preds v = Some (snd vp)" using Cons.prems(4) [of v] 2(2) by (cases vp) simp
    then have "wait_chain_loop n m s preds v acc = Ok ((chain @ [e]) @ rev acc)"
      using n vp(1) es e(3) c(1) by (simp add: ts_is_zero_def)
    moreover have "wait_path now ttl m s (chain @ [e]) v" unfolding wait_path_snoc using c(2) e by auto
    ultimately show ?thesis by blast
  next
    case 3
    have "v \<in> fst ` set ps" "preds_ok (live now ttl m) s ps" "fst vp \<notin> fst ` set ps"
      using Cons.prems(1,2) 3 by auto
    then show ?thesis using Cons.IH [of v n acc] Cons.prems(3) agree by auto
  qed
qed simp

lemma do_detect_correct:
  assumes ok: "table_ok (wait_for_map t)"
  shows "\<exists>res m. do_detect ord t txn lock = Ok (res, t\<lparr>wait_for_map := m\<rparr>) \<and> table_ok m \<and>
    pruned (dt_now t) (dt_ttl t) (wait_for_map t) m \<and>
    (case res of
       None \<Rightarrow> (lock, txn) \<notin> (waits m)\<^sup>+
     | Some (hash, chain) \<Rightarrow> wait_path (dt_now t) (dt_ttl t) m lock chain txn \<and> chain \<noteq> [] \<and> hash = we_key_hash (last chain))"
proof -
  let ?m = "wait_for_map t" and ?now = "dt_now t" and ?ttl = "dt_ttl t"
  obtain res m where d: "detect_loop ord ?now ?ttl txn [lock] [(lock, ts_zero)] ?m = (res, m)" by fastforce
  note p = detect_loop_pruned [OF ok d]
  have "preds_ok (live ?now ?ttl ?m) lock [(lock, ts_zero)]" "explored txn [lock] (fst ` set [(lock, ts_zero)]) ?m"
    by (simp_all add: ts_zero_def explored_def)
  note c = detect_loop_correct [OF ok refl this d]
  show ?thesis
  proof (cases res)
    case None
    then show ?thesis using c d p by (auto simp: do_detect_def)
  next
    case (Some clp)
    then obtain cc l ps where clp: "res = Some (cc, l, ps)" by (cases clp) auto
    have L: "live ?now ?ttl m = live ?now ?ttl ?m" using pruned_live p by blast
    have f: "edge m cc txn = Some l" "(cc, txn) \<in> live ?now ?ttl m" "cc \<in> fst ` set ps" "preds_ok (live ?now ?ttl m) lock ps"
      using c clp L by auto
    obtain e where e: "\<not> locks_is_expired l ?now ?ttl" "to_wait_for_entry l cc = Ok e" "we_wait_for_txn e = txn"
      "lk_keys l \<noteq> []" "we_key_hash e = fst (hd (lk_keys l))"
      using entry_of_edge [OF conjunct1 [OF p] f(2)] f(1) by (metis option.inject)
    obtain chain where ch: "generate_wait_chain m lock cc ps = Ok chain" "wait_path ?now ?ttl m lock chain cc"
      using wait_chain_loop_correct [OF conjunct1 [OF p] f(4,3) order_refl refl, of "[]"]
      by (auto simp: generate_wait_chain_def)
    have "do_detect ord t txn lock = Ok (Some (we_key_hash e, chain @ [e]), t\<lparr>wait_for_map := m\<rparr>)"
      using d clp e ch(1) by (auto simp: do_detect_def split: list.splits prod.splits)
    moreover have "wait_path ?now ?ttl m lock (chain @ [e]) txn"
      unfolding wait_path_snoc using ch(2) f(1) e by auto
    ultimately show ?thesis using p by auto
  qed
qed

subsection \<open>Registering and removing edges\<close>

lemma locks_push_keeps [simp]: "lk_ts (locks_push l h k now) = lk_ts l" "lk_keys l \<noteq> [] \<Longrightarrow> lk_keys (locks_push l h k now) \<noteq> []"
  by (auto simp: locks_push_def Let_def)

lemma register_if_existed_correct:
  assumes "table_ok (wait_for_map t)" "register_if_existed t txn lock h k tag = (existed, t')"
  shows "existed \<longleftrightarrow> (txn, lock) \<in> waits (wait_for_map t)" "existed \<Longrightarrow> table_ok (wait_for_map t')"
    "waits (wait_for_map t') = waits (wait_for_map t)" "\<not> existed \<Longrightarrow> t' = t"
    "dt_now t' = dt_now t" "dt_ttl t' = dt_ttl t"
proof -
  have "(existed \<longleftrightarrow> (txn, lock) \<in> waits (wait_for_map t)) \<and> (existed \<longrightarrow> table_ok (wait_for_map t')) \<and>
    waits (wait_for_map t') = waits (wait_for_map t) \<and> (\<not> existed \<longrightarrow> t' = t) \<and> dt_now t' = dt_now t \<and> dt_ttl t' = dt_ttl t"
  proof (cases "edge (wait_for_map t) txn lock")
    case None
    then have "register_if_existed t txn lock h k tag = (False, t)"
      by (auto simp: register_if_existed_def edge_def split: option.splits)
    then show ?thesis using None assms(2) by (auto simp: waits_def)
  next
    case (Some l)
    then obtain es where es: "map_of (wait_for_map t) txn = Some es" "map_of es lock = Some l"
      by (auto simp: edge_def Option.bind_eq_Some_conv)
    note ok = table_okD [OF assms(1) es(1)]
    let ?l = "(locks_push l h k (dt_now t))\<lparr>lk_resource_group_tag := tag\<rparr>"
    have "AList.update lock ?l es \<noteq> []" "edges_ok (AList.update lock ?l es)"
      using edges_ok_update [OF ok(3), of ?l lock] edges_okD [OF ok(3) es(2)] by auto
    then have "table_ok (AList.update txn (AList.update lock ?l es) (wait_for_map t))"
      using table_ok_update [OF assms(1) ok(1)] by blast
    moreover have "waits (AList.update txn (AList.update lock ?l es) (wait_for_map t)) = waits (wait_for_map t)"
      using es Some edge_eq [OF es(1)] by (auto simp: waits_def update_conv' split: if_splits)
    moreover have "(txn, lock) \<in> waits (wait_for_map t)" using Some by (simp add: waits_def)
    moreover have "existed" "t' = t\<lparr>wait_for_map := AList.update txn (AList.update lock ?l es) (wait_for_map t)\<rparr>"
      using assms(2) es by (simp_all add: register_if_existed_def Let_def)
    ultimately show ?thesis by simp
  qed
  then show "existed \<longleftrightarrow> (txn, lock) \<in> waits (wait_for_map t)" "existed \<Longrightarrow> table_ok (wait_for_map t')"
    "waits (wait_for_map t') = waits (wait_for_map t)" "\<not> existed \<Longrightarrow> t' = t"
    "dt_now t' = dt_now t" "dt_ttl t' = dt_ttl t" by blast+
qed

lemma register_correct:
  assumes "table_ok (wait_for_map t)" "txn \<noteq> 0" "(txn, lock) \<notin> waits (wait_for_map t)"
  shows "\<exists>t'. register t txn lock h k tag = Ok t' \<and> table_ok (wait_for_map t') \<and>
    waits (wait_for_map t') = insert (txn, lock) (waits (wait_for_map t))"
proof -
  let ?m = "wait_for_map t" and ?l = "locks_new lock h k tag (dt_now t)"
  let ?es = "case map_of ?m txn of None \<Rightarrow> [] | Some es \<Rightarrow> es"
  have n: "map_of ?es lock = None" using assms(3) by (auto simp: waits_def edge_def split: option.splits)
  have ok: "edges_ok ?es"
    using table_okD(3) [OF assms(1), of txn] by (cases "map_of ?m txn") (simp_all add: edges_ok_def)
  have l: "lk_ts ?l = lock" "lk_keys ?l \<noteq> []" by (simp_all add: locks_new_def)
  have ne: "AList.update lock ?l ?es \<noteq> []" by (cases ?es) auto
  have "table_ok (AList.update txn (AList.update lock ?l ?es) ?m)"
    using table_ok_update [OF assms(1,2) ne] edges_ok_update [OF ok l] by blast
  moreover have "waits (AList.update txn (AList.update lock ?l ?es) ?m) = insert (txn, lock) (waits ?m)"
    by (auto simp: waits_def edge_def update_conv' split: option.splits if_splits)
  ultimately show ?thesis using n l by (simp add: register_def Let_def)
qed

lemma clean_up_ok:
  assumes "table_ok (wait_for_map t)"
  shows "table_ok (wait_for_map (clean_up t txn))"
    "waits (wait_for_map (clean_up t txn)) = {(a, b) \<in> waits (wait_for_map t). a \<noteq> txn}"
  using assms by (auto simp: clean_up_def table_ok_delete waits_def)

lemma clean_up_wait_for_ok:
  assumes "table_ok (wait_for_map t)"
  shows "table_ok (wait_for_map (clean_up_wait_for t txn d))"
    "waits (wait_for_map (clean_up_wait_for t txn d)) \<subseteq> waits (wait_for_map t)"
    "waits (wait_for_map t) - {(txn, fst d)} \<subseteq> waits (wait_for_map (clean_up_wait_for t txn d))"
proof -
  have "table_ok (wait_for_map (clean_up_wait_for t txn d)) \<and>
    waits (wait_for_map (clean_up_wait_for t txn d)) \<subseteq> waits (wait_for_map t) \<and>
    waits (wait_for_map t) - {(txn, fst d)} \<subseteq> waits (wait_for_map (clean_up_wait_for t txn d))"
  proof (cases "edge (wait_for_map t) txn (fst d)")
    case None
    then have "clean_up_wait_for t txn d = t" by (auto simp: clean_up_wait_for_def edge_def split: option.splits)
    then show ?thesis using assms by auto
  next
    case (Some l)
    then obtain es where es: "map_of (wait_for_map t) txn = Some es" "map_of es (fst d) = Some l"
      by (auto simp: edge_def Option.bind_eq_Some_conv)
    note ok = table_okD [OF assms es(1)]
    let ?l = "l\<lparr>lk_keys := remove_hash (snd d) (lk_keys l)\<rparr>"
    let ?del = "AList.delete (fst d) es" and ?upd = "AList.update (fst d) ?l es"
    have del: "edges_ok ?del" using edges_ok_filter [OF ok(3)] by (simp add: AList.delete_eq)
    have upd: "edges_ok ?upd" "?upd \<noteq> []" if "lk_keys ?l \<noteq> []"
      using edges_ok_update [OF ok(3), of ?l "fst d"] edges_okD(1) [OF ok(3) es(2)] that by auto
    have de: "map_of ?del u = (if u = fst d then None else map_of es u)" for u by (simp add: delete_conv' restrict_map_def)
    show ?thesis
    proof (cases "lk_keys ?l = []")
      case True
      then have "wait_for_map (clean_up_wait_for t txn d) =
          (if ?del = [] then AList.delete txn (wait_for_map t) else AList.update txn ?del (wait_for_map t))"
        using es by (simp add: clean_up_wait_for_def locks_remove_def Let_def)
      moreover have "map_of es u = None" if "?del = []" "u \<noteq> fst d" for u using de [of u] that by simp
      ultimately show ?thesis
        using table_ok_delete [OF assms] table_ok_update [OF assms ok(1) _ del] edge_eq [OF es(1)] de
        by (auto simp: waits_def split: if_splits)
    next
      case False
      then have "wait_for_map (clean_up_wait_for t txn d) = AList.update txn ?upd (wait_for_map t)"
        using es by (simp add: clean_up_wait_for_def locks_remove_def Let_def)
      then show ?thesis
        using table_ok_update [OF assms ok(1) upd(2,1)] False edge_eq [OF es(1)] es(2)
        by (auto simp: waits_def update_conv' split: if_splits)
    qed
  qed
  then show "table_ok (wait_for_map (clean_up_wait_for t txn d))"
    "waits (wait_for_map (clean_up_wait_for t txn d)) \<subseteq> waits (wait_for_map t)"
    "waits (wait_for_map t) - {(txn, fst d)} \<subseteq> waits (wait_for_map (clean_up_wait_for t txn d))" by blast+
qed

subsection \<open>Deadlock detection\<close>

definition graph_ok :: "detect_table \<Rightarrow> bool" where
  "graph_ok t \<longleftrightarrow> table_ok (wait_for_map t) \<and> acyclic (waits (wait_for_map t))"

lemma graph_ok_subset: "graph_ok t \<Longrightarrow> table_ok (wait_for_map t') \<Longrightarrow> waits (wait_for_map t') \<subseteq> waits (wait_for_map t) \<Longrightarrow> graph_ok t'"
  by (auto simp: graph_ok_def intro: acyclic_subset)

lemma detect_spec:
  assumes "graph_ok t" "txn \<noteq> 0" "txn \<noteq> lock"
  shows "\<exists>res t'. detect ord now t txn lock h k tag = Ok (res, t') \<and> graph_ok t' \<and>
    (res = None \<longleftrightarrow> (txn, lock) \<in> waits (wait_for_map t')) \<and>
    (res \<noteq> None \<longleftrightarrow> (lock, txn) \<in> (live now (dt_ttl t) (wait_for_map t))\<^sup>+) \<and>
    (\<forall>hash chain. res = Some (hash, chain) \<longrightarrow>
       wait_path now (dt_ttl t) (wait_for_map t) lock chain txn \<and> chain \<noteq> [] \<and> hash = we_key_hash (last chain))"
proof -
  let ?m = "wait_for_map t" and ?t1 = "active_expire (t\<lparr>dt_now := now\<rparr>)"
  let ?L = "live now (dt_ttl t) ?m"
  have ok: "table_ok ?m" "acyclic (waits ?m)" using assms(1) by (simp_all add: graph_ok_def)
  have t1: "table_ok (wait_for_map ?t1)" "pruned now (dt_ttl t) ?m (wait_for_map ?t1)" "dt_now ?t1 = now" "dt_ttl ?t1 = dt_ttl t"
    using active_expire_ok [of "t\<lparr>dt_now := now\<rparr>"] ok(1) by simp_all
  obtain existed t2 where r: "register_if_existed ?t1 txn lock h k tag = (existed, t2)" by fastforce
  note reg = register_if_existed_correct [OF t1(1) r]
  have sub: "waits (wait_for_map ?t1) \<subseteq> waits ?m" using pruned_waits [OF t1(2)] .
  show ?thesis
  proof (cases existed)
    case True
    then have "(txn, lock) \<in> waits ?m" using reg(1) sub by blast
    then have "(lock, txn) \<notin> ?L\<^sup>+"
      using ok(2) trancl_mono [OF _ live_waits] unfolding acyclic_def by (meson trancl_into_trancl)
    moreover have "graph_ok t2" using graph_ok_subset [OF assms(1) reg(2) [OF True]] reg(3) sub by simp
    ultimately show ?thesis using True r reg(1,3) by (simp add: detect_def Let_def)
  next
    case False
    then have t2: "t2 = ?t1" using reg(4) by blast
    obtain res m where d: "do_detect ord ?t1 txn lock = Ok (res, ?t1\<lparr>wait_for_map := m\<rparr>)" "table_ok m"
      "pruned now (dt_ttl t) (wait_for_map ?t1) m"
      "case res of None \<Rightarrow> (lock, txn) \<notin> (waits m)\<^sup>+
       | Some (hash, chain) \<Rightarrow> wait_path now (dt_ttl t) m lock chain txn \<and> chain \<noteq> [] \<and> hash = we_key_hash (last chain)"
      using do_detect_correct [OF t1(1), of ord txn lock] unfolding t1(3,4) by blast
    have p: "pruned now (dt_ttl t) ?m m" using pruned_trans [OF t1(2) d(3)] .
    have nw: "(txn, lock) \<notin> waits m" using reg(1) False pruned_waits [OF d(3)] by blast
    have ac: "acyclic (waits m)" using ok(2) pruned_waits [OF p] by (rule acyclic_subset)
    show ?thesis
    proof (cases res)
      case None
      obtain t' where t': "register (?t1\<lparr>wait_for_map := m\<rparr>) txn lock h k tag = Ok t'" "table_ok (wait_for_map t')"
        "waits (wait_for_map t') = insert (txn, lock) (waits m)"
        using register_correct [of "?t1\<lparr>wait_for_map := m\<rparr>" txn lock h k tag] d(2) nw assms(2) by auto
      have n: "(lock, txn) \<notin> (waits m)\<^sup>+" using d(4) None by simp
      then have "acyclic (waits (wait_for_map t'))"
        unfolding t'(3) acyclic_insert using ac assms(3) by (simp add: rtrancl_eq_or_trancl)
      moreover have "(lock, txn) \<notin> ?L\<^sup>+"
        using n trancl_mono [OF _ live_waits] unfolding pruned_live [OF p, symmetric] by blast
      ultimately show ?thesis using False r t2 d(1) None t' by (simp add: detect_def Let_def graph_ok_def)
    next
      case (Some hc)
      then obtain hash chain where hc: "res = Some (hash, chain)" by (cases hc) auto
      have w: "wait_path now (dt_ttl t) ?m lock chain txn" "chain \<noteq> []" "hash = we_key_hash (last chain)"
        using d(4) hc wait_path_mono [OF pruned_edge [OF p]] by auto
      then show ?thesis
        using False r t2 d(1,2) hc nw ac wait_path_live [OF w(1,2)] by (simp add: detect_def Let_def graph_ok_def)
    qed
  qed
qed

text \<open>
  C9: Deadlock detection is exact and keeps the wait-for graph acyclic. On an acyclic table, asking
  whether a transaction may wait for another one always returns. It reports a deadlock exactly when
  a chain of unexpired edges leads from the other transaction back to this one; the chain it returns is
  such a path, entry by entry, and the reported hash is the one of its last entry. Otherwise the new
  edge is in the table, and in both cases the graph, expired edges included, is acyclic afterwards.
\<close>

theorem detect_correct:
  assumes "graph_ok t" "txn \<noteq> 0" "txn \<noteq> lock"
  shows "\<exists>res t'. detect ord now t txn lock h k tag = Ok (res, t') \<and> graph_ok t' \<and>
    (res = None \<longleftrightarrow> (txn, lock) \<in> waits (wait_for_map t')) \<and>
    (res \<noteq> None \<longleftrightarrow> (lock, txn) \<in> (live now (dt_ttl t) (wait_for_map t))\<^sup>+) \<and>
    (\<forall>hash chain. res = Some (hash, chain) \<longrightarrow>
       wait_path now (dt_ttl t) (wait_for_map t) lock chain txn \<and> chain \<noteq> [] \<and> hash = we_key_hash (last chain))"
  using detect_spec [OF assms] .

text \<open>Transaction 1 waits for 2, and 2 waits for 3.\<close>

definition example_table :: detect_table where
  "example_table = \<lparr>wait_for_map = [(1, [(2, locks_new 2 20 [2] [] 5)]), (2, [(3, locks_new 3 30 [3] [] 5)])],
     dt_ttl = 10, last_active_expire = 0, dt_now = 5\<rparr>"

lemma example_table_edge:
  "edge (wait_for_map example_table) a b =
     (if (a, b) = (1, 2) then Some (locks_new 2 20 [2] [] 5)
      else if (a, b) = (2, 3) then Some (locks_new 3 30 [3] [] 5) else None)"
  by (simp add: edge_def example_table_def)

lemma example_table_ok: "graph_ok example_table"
proof -
  have "waits (wait_for_map example_table) = {(1, 2), (2, 3)}"
    by (auto simp: waits_def example_table_edge split: if_splits)
  moreover have "acyclic {(1 :: timestamp, 2 :: timestamp), (2, 3)}"
    by (rule acyclicI_order [of _ "\<lambda>x. 4 - unat x"]) auto
  moreover have "table_ok (wait_for_map example_table)"
    by (simp add: example_table_def table_ok_def edges_ok_def locks_new_def)
  ultimately show ?thesis by (simp add: graph_ok_def)
qed

theorem detect_correct_witness:
  "graph_ok example_table \<and>
   (\<exists>hash chain t'. detect (\<lambda>_. 0) 8 example_table 3 1 10 [1] [] = Ok (Some (hash, chain), t') \<and> graph_ok t' \<and>
      wait_path 8 10 (wait_for_map example_table) 1 chain 3)"
proof -
  have l: "(1, 2) \<in> live 8 10 (wait_for_map example_table)" "(2, 3) \<in> live 8 10 (wait_for_map example_table)"
    by (simp_all add: live_def example_table_edge locks_is_expired_def locks_new_def saturating_duration_since_def)
  have "dt_ttl example_table = 10" by (simp add: example_table_def)
  moreover have "(1, 3) \<in> (live 8 10 (wait_for_map example_table))\<^sup>+" using l by (meson trancl.simps)
  ultimately show ?thesis
    using detect_correct [OF example_table_ok, of 3 1 "\<lambda>_. 0" 8 10 "[1]" "[]"] example_table_ok by auto
qed

end
