(* ===== verification/Deadlock_Detector.thy ===== *)
theory Deadlock_Detector
  imports Deadlock
begin

text \<open>
  The deadlock detector of a node (\<^verbatim>\<open>RoleChangeNotifier\<close>, \<^verbatim>\<open>Detector\<close> and its tasks in
  \<^verbatim>\<open>src/server/lock_manager/deadlock.rs\<close>). The leader of the region that holds the empty key keeps the
  wait-for graph; the other nodes forward their requests to it. The answers of the placement driver, of
  the address resolver and of the connection to the leader are arguments; what the detector sends is
  returned as a list of messages. Connections carry the address they were opened to.

  The invariant says that only the leader has edges, that its graph is acyclic, and that a
  connection goes to the known leader. A request that reaches the leader from another node has the
  effect it would have on the leader itself.
\<close>

subsection \<open>Roles and region events\<close>

datatype detector_role = Leader | Follower

datatype state_role = SrFollower | SrCandidate | SrLeader | SrPreCandidate

primrec role_from :: "state_role \<Rightarrow> detector_role" where
  "role_from SrLeader = Leader"
| "role_from SrFollower = Follower"
| "role_from SrCandidate = Follower"
| "role_from SrPreCandidate = Follower"

record region =
  region_id :: u64
  region_start_key :: bytes
  region_end_key :: bytes
  region_peers :: "u64 list"

datatype region_change_event = EvCreate | EvUpdate | EvDestroy | EvUpdateBuckets nat

definition INVALID_ID :: u64 where "INVALID_ID = 0"
definition LEADER_KEY :: bytes where "LEADER_KEY = []"

definition is_region_initialized :: "region \<Rightarrow> bool" where
  "is_region_initialized r \<longleftrightarrow> region_peers r \<noteq> []"

definition is_leader_region :: "region \<Rightarrow> bool" where
  "is_leader_region r \<longleftrightarrow>
     is_region_initialized r \<and> region_start_key r \<le> LEADER_KEY \<and>
     (region_end_key r = [] \<or> LEADER_KEY < region_end_key r)"

text \<open>The notifier's state is the leader region id; the result lists the scheduled role changes.\<close>

definition notifier_new :: u64 where "notifier_new = INVALID_ID"

definition on_role_change :: "u64 \<Rightarrow> region \<Rightarrow> state_role \<Rightarrow> u64 \<times> detector_role list" where
  "on_role_change leader_region_id r state =
     (leader_region_id,
      if is_leader_region r \<and> leader_region_id = region_id r then [role_from state] else [])"

definition on_region_changed ::
  "u64 \<Rightarrow> region \<Rightarrow> region_change_event \<Rightarrow> state_role \<Rightarrow> u64 \<times> detector_role list" where
  "on_region_changed leader_region_id r event role =
     (if is_leader_region r
      then
        (case event of
           EvCreate \<Rightarrow> (region_id r, [role_from role])
         | EvUpdate \<Rightarrow> (region_id r, [role_from role])
         | EvDestroy \<Rightarrow>
             if leader_region_id = region_id r then (INVALID_ID, [Follower]) else (leader_region_id, [])
         | EvUpdateBuckets _ \<Rightarrow> (leader_region_id, []))
      else (leader_region_id, []))"

subsection \<open>The detector\<close>

datatype detect_type = DtDetect | DtCleanUpWaitFor | DtCleanUp

type_synonym lock_digest = "timestamp \<times> u64"

record diagnostic_context =
  dc_key :: bytes
  dc_resource_group_tag :: bytes

record deadlock_request =
  rq_tp :: detect_type
  rq_entry :: wait_for_entry

record deadlock_response =
  rs_entry :: wait_for_entry
  rs_deadlock_key_hash :: u64
  rs_wait_chain :: "wait_for_entry list"

datatype message =
    ToLeader string deadlock_request
  | WaiterDeadlock timestamp bytes lock_digest u64 "wait_for_entry list"

record detector =
  store_id :: u64
  leader_info :: "(u64 \<times> string) option"
  leader_client :: "string option"
  dt_role :: detector_role
  dtable :: detect_table

text \<open>What the outside world answers during one attempt to reach the leader.\<close>

record outside =
  pd_leader :: "u64 option option"
  resolve_addr :: "u64 \<Rightarrow> string option"
  send_ok :: "string \<Rightarrow> deadlock_request \<Rightarrow> bool"

definition detector_new :: "u64 \<Rightarrow> duration \<Rightarrow> instant \<Rightarrow> instant \<Rightarrow> detector panics" where
  "detector_new sid wait_for_lock_timeout t t' =
     assert_then (sid \<noteq> INVALID_ID)
       (Ok \<lparr>store_id = sid, leader_info = None, leader_client = None, dt_role = Follower,
            dtable = detect_table_new wait_for_lock_timeout t t'\<rparr>)"

definition is_leader :: "detector \<Rightarrow> bool" where
  "is_leader d \<longleftrightarrow> dt_role d = Leader"

definition reset :: "detector \<Rightarrow> detector_role \<Rightarrow> detector" where
  "reset d role =
     d\<lparr>dtable := clear_table (dtable d), dt_role := role, leader_client := None, leader_info := None\<rparr>"

definition get_leader_info :: "outside \<Rightarrow> ((u64 \<times> string) option, unit) result" where
  "get_leader_info env =
     (case pd_leader env of
        None \<Rightarrow> Err ()
      | Some None \<Rightarrow> Ok None
      | Some (Some leader_id) \<Rightarrow>
          (case resolve_addr env leader_id of None \<Rightarrow> Err () | Some addr \<Rightarrow> Ok (Some (leader_id, addr))))"

definition update_leader_info :: "detector \<Rightarrow> u64 \<Rightarrow> string \<Rightarrow> detector" where
  "update_leader_info d leader_id leader_addr =
     (if leader_info d = Some (leader_id, leader_addr) then d
      else if leader_id = store_id d then d
      else d\<lparr>leader_client := None, leader_info := Some (leader_id, leader_addr)\<rparr>)"

definition refresh_leader_info :: "outside \<Rightarrow> detector \<Rightarrow> (bool \<times> detector) panics" where
  "refresh_leader_info env d =
     assert_then (\<not> is_leader d)
       (let d = (case get_leader_info env of
                   Ok (Some (leader_id, leader_addr)) \<Rightarrow> update_leader_info d leader_id leader_addr
                 | Ok None \<Rightarrow> reset d Follower
                 | _ \<Rightarrow> d) in
        Ok (leader_info d \<noteq> None, d))"

definition change_role :: "detector \<Rightarrow> detector_role \<Rightarrow> detector" where
  "change_role d role = reset d role"

definition reconnect_leader :: "detector \<Rightarrow> detector panics" where
  "reconnect_leader d =
     assert_then (leader_client d = None \<and> leader_info d \<noteq> None)
       (and_then (unwrap (leader_info d)) (\<lambda>(_, leader_addr). Ok (d\<lparr>leader_client := Some leader_addr\<rparr>)))"

text \<open>The callback that \<^verbatim>\<open>reconnect_leader\<close> registers for the responses of the leader.\<close>

definition on_response :: "deadlock_response \<Rightarrow> message" where
  "on_response resp =
     (let entry = rs_entry resp in
      WaiterDeadlock (we_txn entry) (we_key entry) (we_wait_for_txn entry, we_key_hash entry)
        (rs_deadlock_key_hash resp) (rs_wait_chain resp @ [entry]))"

definition request_of :: "detect_type \<Rightarrow> timestamp \<Rightarrow> lock_digest option \<Rightarrow> diagnostic_context \<Rightarrow> deadlock_request" where
  "request_of tp txn_ts wait_info ctx =
     \<lparr>rq_tp = tp,
      rq_entry = \<lparr>we_txn = txn_ts,
        we_wait_for_txn = (case wait_info of None \<Rightarrow> 0 | Some digest \<Rightarrow> fst digest),
        we_key_hash = (case wait_info of None \<Rightarrow> 0 | Some digest \<Rightarrow> snd digest),
        we_key = dc_key ctx, we_resource_group_tag = dc_resource_group_tag ctx\<rparr>\<rparr>"

definition send_request_to_leader ::
  "outside \<Rightarrow> detector \<Rightarrow> detect_type \<Rightarrow> timestamp \<Rightarrow> lock_digest option \<Rightarrow> diagnostic_context \<Rightarrow>
     (bool \<times> detector \<times> message list) panics" where
  "send_request_to_leader env d tp txn_ts wait_info ctx =
     assert_then (\<not> is_leader d \<and> leader_info d \<noteq> None)
       (and_then (if leader_client d = None then reconnect_leader d else Ok d) (\<lambda>d.
        case leader_client d of
          Some addr \<Rightarrow>
            let req = request_of tp txn_ts wait_info ctx in
            if send_ok env addr req then Ok (True, d, [ToLeader addr req])
            else Ok (False, d\<lparr>leader_client := None\<rparr>, [])
        | None \<Rightarrow> Ok (False, d, [])))"

definition handle_detect_locally ::
  "(timestamp \<Rightarrow> nat) \<Rightarrow> instant \<Rightarrow> detector \<Rightarrow> detect_type \<Rightarrow> timestamp \<Rightarrow> lock_digest option \<Rightarrow>
     diagnostic_context \<Rightarrow> (detector \<times> message list) panics" where
  "handle_detect_locally ord now d tp txn_ts wait_info ctx =
     (case tp of
        DtDetect \<Rightarrow>
          and_then (unwrap wait_info) (\<lambda>digest.
          and_then (detect ord now (dtable d) txn_ts (fst digest) (snd digest) (dc_key ctx)
              (dc_resource_group_tag ctx)) (\<lambda>(res, table).
          case res of
            Some (deadlock_key_hash, wait_chain) \<Rightarrow>
              let last_entry = \<lparr>we_txn = txn_ts, we_wait_for_txn = fst digest, we_key_hash = snd digest,
                    we_key = dc_key ctx, we_resource_group_tag = dc_resource_group_tag ctx\<rparr> in
              Ok (d\<lparr>dtable := table\<rparr>,
                [WaiterDeadlock txn_ts (dc_key ctx) digest deadlock_key_hash (wait_chain @ [last_entry])])
          | None \<Rightarrow> Ok (d\<lparr>dtable := table\<rparr>, [])))
      | DtCleanUpWaitFor \<Rightarrow>
          and_then (unwrap wait_info) (\<lambda>digest. Ok (d\<lparr>dtable := clean_up_wait_for (dtable d) txn_ts digest\<rparr>, []))
      | DtCleanUp \<Rightarrow> Ok (d\<lparr>dtable := clean_up (dtable d) txn_ts\<rparr>, []))"

text \<open>The \<^verbatim>\<open>for _ in 0..2\<close> loop of \<^verbatim>\<open>handle_detect\<close>: one element per attempt left.\<close>

primrec handle_detect_loop ::
  "outside list \<Rightarrow> detector \<Rightarrow> detect_type \<Rightarrow> timestamp \<Rightarrow> lock_digest option \<Rightarrow> diagnostic_context \<Rightarrow>
     (detector \<times> message list) panics" where
  "handle_detect_loop [] d tp txn_ts wait_info ctx = Ok (d, [])"
| "handle_detect_loop (env # envs) d tp txn_ts wait_info ctx =
     and_then (if leader_client d = None then refresh_leader_info env d else Ok (True, d)) (\<lambda>(known, d).
     if \<not> known then Ok (d, [])
     else
       and_then (send_request_to_leader env d tp txn_ts wait_info ctx) (\<lambda>(sent, d, ms).
       if sent then Ok (d, ms) else handle_detect_loop envs d tp txn_ts wait_info ctx))"

definition handle_detect ::
  "(timestamp \<Rightarrow> nat) \<Rightarrow> instant \<Rightarrow> outside \<Rightarrow> outside \<Rightarrow> detector \<Rightarrow> detect_type \<Rightarrow> timestamp \<Rightarrow>
     lock_digest option \<Rightarrow> diagnostic_context \<Rightarrow> (detector \<times> message list) panics" where
  "handle_detect ord now env env' d tp txn_ts wait_info ctx =
     (if is_leader d then handle_detect_locally ord now d tp txn_ts wait_info ctx
      else handle_detect_loop [env, env'] d tp txn_ts wait_info ctx)"

text \<open>
  One request of a stream: an error ends the stream, \<open>None\<close> sends nothing back. A stream is only
  accepted by a leader, and its handler looks at the role again for every request.
\<close>

definition handle_rpc_request ::
  "(timestamp \<Rightarrow> nat) \<Rightarrow> instant \<Rightarrow> detector \<Rightarrow> deadlock_request \<Rightarrow>
     (deadlock_response option \<times> detector, string) result" where
  "handle_rpc_request ord now d req =
     (if dt_role d \<noteq> Leader then Err ''leader changed''
      else
        let entry = rq_entry req in
        case rq_tp req of
          DtDetect \<Rightarrow>
            (case detect ord now (dtable d) (we_txn entry) (we_wait_for_txn entry) (we_key_hash entry)
                (we_key entry) (we_resource_group_tag entry) of
               Ok (Some (deadlock_key_hash, wait_chain), table) \<Rightarrow>
                 Ok (Some \<lparr>rs_entry = entry, rs_deadlock_key_hash = deadlock_key_hash, rs_wait_chain = wait_chain\<rparr>,
                     d\<lparr>dtable := table\<rparr>)
             | Ok (None, table) \<Rightarrow> Ok (None, d\<lparr>dtable := table\<rparr>)
             | _ \<Rightarrow> Panic)
        | DtCleanUpWaitFor \<Rightarrow>
            Ok (None, d\<lparr>dtable := clean_up_wait_for (dtable d) (we_txn entry) (we_wait_for_txn entry, we_key_hash entry)\<rparr>)
        | DtCleanUp \<Rightarrow> Ok (None, d\<lparr>dtable := clean_up (dtable d) (we_txn entry)\<rparr>))"

definition handle_change_role :: "detector \<Rightarrow> detector_role \<Rightarrow> detector" where
  "handle_change_role d role = change_role d role"

definition handle_change_ttl :: "detector \<Rightarrow> duration \<Rightarrow> detector" where
  "handle_change_ttl d ttl = d\<lparr>dtable := reset_ttl (dtable d) ttl\<rparr>"

subsection \<open>The invariant of a node\<close>

definition detector_inv :: "detector \<Rightarrow> bool" where
  "detector_inv d \<longleftrightarrow>
     graph_ok (dtable d) \<and>
     (if dt_role d = Leader then leader_info d = None else wait_for_map (dtable d) = []) \<and>
     (case leader_info d of Some (leader, _) \<Rightarrow> leader \<noteq> store_id d | None \<Rightarrow> True) \<and>
     (case leader_client d of Some addr \<Rightarrow> \<exists>leader. leader_info d = Some (leader, addr) | None \<Rightarrow> True)"

text \<open>The tasks a node runs, with the answers of the outside world and of the clock.\<close>

datatype detector_task =
    TaskDetect "timestamp \<Rightarrow> nat" instant outside outside detect_type timestamp "lock_digest option" diagnostic_context
  | TaskRequest "timestamp \<Rightarrow> nat" instant deadlock_request
  | TaskChangeRole detector_role
  | TaskChangeTtl duration

primrec run_task :: "detector \<Rightarrow> detector_task \<Rightarrow> detector panics" where
  "run_task d (TaskDetect ord now env env' tp txn_ts wait_info ctx) =
     map_ok fst (handle_detect ord now env env' d tp txn_ts wait_info ctx)"
| "run_task d (TaskRequest ord now req) =
     (case handle_rpc_request ord now d req of Ok (_, d) \<Rightarrow> Ok d | Err _ \<Rightarrow> Ok d | Panic \<Rightarrow> Panic)"
| "run_task d (TaskChangeRole role) = Ok (handle_change_role d role)"
| "run_task d (TaskChangeTtl ttl) = Ok (handle_change_ttl d ttl)"

text \<open>
  What the callers of the detector guarantee: a transaction has a nonzero start timestamp, does not
  wait for itself, and a request about a wait says which one.
\<close>

definition request_ok :: "detect_type \<Rightarrow> timestamp \<Rightarrow> lock_digest option \<Rightarrow> bool" where
  "request_ok tp txn_ts wait_info \<longleftrightarrow>
     txn_ts \<noteq> 0 \<and> (tp = DtCleanUp \<or> wait_info \<noteq> None) \<and> (\<forall>digest. wait_info = Some digest \<longrightarrow> fst digest \<noteq> txn_ts)"

primrec task_ok :: "detector_task \<Rightarrow> bool" where
  "task_ok (TaskDetect ord now env env' tp txn_ts wait_info ctx) \<longleftrightarrow> request_ok tp txn_ts wait_info"
| "task_ok (TaskRequest ord now req) \<longleftrightarrow>
     request_ok (rq_tp req) (we_txn (rq_entry req)) (Some (we_wait_for_txn (rq_entry req), we_key_hash (rq_entry req)))"
| "task_ok (TaskChangeRole role) \<longleftrightarrow> True"
| "task_ok (TaskChangeTtl ttl) \<longleftrightarrow> True"

lemma empty_graph [simp]: "wait_for_map t = [] \<Longrightarrow> graph_ok t"
  by (simp add: graph_ok_def table_ok_def waits_def edge_def acyclic_def)

lemma detector_inv_client: "detector_inv d \<Longrightarrow> leader_client d \<noteq> None \<Longrightarrow> leader_info d \<noteq> None"
  by (auto simp: detector_inv_def)

lemma detector_inv_reset: "detector_inv (reset d role)"
  by (simp add: detector_inv_def reset_def clear_table_def)

lemma graph_ok_clean_up: "graph_ok t \<Longrightarrow> graph_ok (clean_up t txn)" "graph_ok t \<Longrightarrow> graph_ok (clean_up_wait_for t txn dg)"
  using clean_up_ok [of t txn] clean_up_wait_for_ok [of t txn dg] graph_ok_subset [of t]
  by (auto simp: graph_ok_def intro: acyclic_subset)

lemma inv_table:
  "detector_inv d \<Longrightarrow> is_leader d \<Longrightarrow> graph_ok table \<Longrightarrow> detector_inv (d\<lparr>dtable := table\<rparr>)"
  by (auto simp: detector_inv_def is_leader_def split: option.splits)

lemma handle_detect_locally_inv:
  assumes "detector_inv d" "is_leader d" "request_ok tp txn wi"
  shows "\<exists>d' ms. handle_detect_locally ord now d tp txn wi ctx = Ok (d', ms) \<and> detector_inv d'"
proof (cases tp)
  case DtDetect
  then obtain dg where dg: "wi = Some dg" "txn \<noteq> 0" "txn \<noteq> fst dg" using assms(3) by (auto simp: request_ok_def)
  have g: "graph_ok (dtable d)" using assms(1) by (simp add: detector_inv_def)
  obtain res t' where "detect ord now (dtable d) txn (fst dg) (snd dg) (dc_key ctx) (dc_resource_group_tag ctx) = Ok (res, t')"
    "graph_ok t'" using detect_spec [OF g dg(2,3)] by blast
  then show ?thesis
    using inv_table [OF assms(1,2)] DtDetect dg(1) by (cases res) (auto simp: handle_detect_locally_def Let_def)
next
  case DtCleanUpWaitFor
  then show ?thesis
    using assms inv_table [OF assms(1,2) graph_ok_clean_up(2)]
    by (auto simp: handle_detect_locally_def request_ok_def detector_inv_def is_leader_def)
next
  case DtCleanUp
  then show ?thesis
    using assms inv_table [OF assms(1,2) graph_ok_clean_up(1)]
    by (auto simp: handle_detect_locally_def detector_inv_def is_leader_def)
qed

lemma refresh_leader_info_inv:
  assumes "detector_inv d" "\<not> is_leader d"
  shows "\<exists>known d'. refresh_leader_info env d = Ok (known, d') \<and> detector_inv d' \<and> \<not> is_leader d' \<and>
    (known \<longleftrightarrow> leader_info d' \<noteq> None)"
proof -
  have u: "detector_inv (update_leader_info d i a) \<and> \<not> is_leader (update_leader_info d i a)" for i a
    using assms by (auto simp: update_leader_info_def detector_inv_def is_leader_def split: if_splits)
  have r: "detector_inv (reset d Follower) \<and> \<not> is_leader (reset d Follower)"
    using detector_inv_reset by (simp add: reset_def is_leader_def)
  show ?thesis
    using assms u r by (auto simp: refresh_leader_info_def Let_def split: result.splits option.splits)
qed

lemma send_request_inv:
  assumes "detector_inv d" "\<not> is_leader d" "leader_info d \<noteq> None"
  shows "\<exists>sent d' ms. send_request_to_leader env d tp txn wi ctx = Ok (sent, d', ms) \<and> detector_inv d' \<and> \<not> is_leader d'"
proof -
  obtain i a where i: "leader_info d = Some (i, a)" using assms(3) by auto
  have "reconnect_leader d = Ok (d\<lparr>leader_client := Some a\<rparr>)" if "leader_client d = None"
    using that i by (simp add: reconnect_leader_def)
  moreover have "detector_inv (d\<lparr>leader_client := Some a\<rparr>)" "detector_inv (d\<lparr>leader_client := None\<rparr>)"
    using assms(1,2) i by (simp_all add: detector_inv_def is_leader_def)
  ultimately show ?thesis
    using assms by (auto simp: send_request_to_leader_def is_leader_def Let_def)
qed

lemma handle_detect_loop_inv:
  assumes "detector_inv d" "\<not> is_leader d"
  shows "\<exists>d' ms. handle_detect_loop envs d tp txn wi ctx = Ok (d', ms) \<and> detector_inv d'"
  using assms
proof (induction envs arbitrary: d)
  case (Cons env envs)
  have "\<exists>known d'. (if leader_client d = None then refresh_leader_info env d else Ok (True, d)) = Ok (known, d') \<and>
      detector_inv d' \<and> \<not> is_leader d' \<and> (known \<longleftrightarrow> leader_info d' \<noteq> None)"
    using refresh_leader_info_inv [OF Cons.prems, of env] detector_inv_client [OF Cons.prems(1)] Cons.prems
    by (cases "leader_client d = None") auto
  then obtain known d1 where d1: "(if leader_client d = None then refresh_leader_info env d else Ok (True, d)) = Ok (known, d1)"
      "detector_inv d1" "\<not> is_leader d1" "known \<longleftrightarrow> leader_info d1 \<noteq> None" by blast
  show ?case
  proof (cases known)
    case True
    then obtain sent d2 ms where d2: "send_request_to_leader env d1 tp txn wi ctx = Ok (sent, d2, ms)"
      "detector_inv d2" "\<not> is_leader d2" using send_request_inv [OF d1(2,3)] d1(4) by blast
    then show ?thesis using Cons.IH [OF d2(2,3)] d1(1) True by auto
  next
    case False
    then show ?thesis using d1 by auto
  qed
qed simp

subsection \<open>Properties of a node\<close>

lemma local_remote:
  assumes "is_leader d" "request_ok tp txn wi" "handle_detect_locally ord now d tp txn wi ctx = Ok (d', ms)"
  shows "\<exists>resp. handle_rpc_request ord now d (request_of tp txn wi ctx) = Ok (resp, d') \<and>
    (case resp of None \<Rightarrow> ms = [] | Some r \<Rightarrow> ms = [on_response r])"
  using assms
  by (cases tp; cases wi)
    (auto simp: handle_detect_locally_def handle_rpc_request_def request_of_def request_ok_def is_leader_def on_response_def
      Let_def result_simps split: option.splits)

lemma run_task_inv:
  assumes "detector_inv d" "task_ok task"
  shows "\<exists>d'. run_task d task = Ok d' \<and> detector_inv d'"
proof (cases task)
  case (TaskDetect ord now env env' tp txn wi ctx)
  have "\<exists>d' ms. handle_detect ord now env env' d tp txn wi ctx = Ok (d', ms) \<and> detector_inv d'"
  proof (cases "is_leader d")
    case True
    then show ?thesis
      using handle_detect_locally_inv [OF assms(1) True] assms(2) TaskDetect by (simp add: handle_detect_def)
  next
    case False
    show ?thesis unfolding handle_detect_def using handle_detect_loop_inv [OF assms(1) False] False
      by (simp del: handle_detect_loop.simps)
  qed
  then show ?thesis using TaskDetect by auto
next
  case (TaskRequest ord now req)
  let ?e = "rq_entry req"
  define ctx where "ctx = \<lparr>dc_key = we_key ?e, dc_resource_group_tag = we_resource_group_tag ?e\<rparr>"
  define wi where "wi = Some (we_wait_for_txn ?e, we_key_hash ?e)"
  have rq: "request_of (rq_tp req) (we_txn ?e) wi ctx = req" by (simp add: request_of_def wi_def ctx_def)
  have ok: "request_ok (rq_tp req) (we_txn ?e) wi" using assms(2) TaskRequest by (simp add: wi_def)
  show ?thesis
  proof (cases "is_leader d")
    case True
    obtain d' ms where d': "handle_detect_locally ord now d (rq_tp req) (we_txn ?e) wi ctx = Ok (d', ms)" "detector_inv d'"
      using handle_detect_locally_inv [OF assms(1) True ok] by blast
    then show ?thesis using local_remote [OF True ok d'(1)] TaskRequest unfolding rq by auto
  next
    case False
    then show ?thesis using assms(1) TaskRequest by (simp add: handle_rpc_request_def is_leader_def)
  qed
next
  case (TaskChangeRole role)
  then show ?thesis using detector_inv_reset by (simp add: handle_change_role_def change_role_def)
next
  case (TaskChangeTtl ttl)
  then show ?thesis using assms(1) 
    by (auto simp: handle_change_ttl_def reset_ttl_def detector_inv_def graph_ok_def split: option.splits)
qed

inductive node_reachable :: "detector \<Rightarrow> bool" where
  init: "detector_new sid ttl t t' = Ok d \<Longrightarrow> node_reachable d"
| step: "node_reachable d \<Longrightarrow> task_ok task \<Longrightarrow> run_task d task = Ok d' \<Longrightarrow> node_reachable d'"

lemma node_reachable_inv: "node_reachable d \<Longrightarrow> detector_inv d"
proof (induction rule: node_reachable.induct)
  case (init sid ttl t t' d)
  then show ?case by (auto simp: detector_new_def detector_inv_def detect_table_new_def result_simps)
next
  case (step d task d')
  then show ?case using run_task_inv [OF step.IH step.hyps(2)] by auto
qed

text \<open>
  C18: Whatever tasks a node of the deadlock detector runs, and whatever the placement driver, the
  resolver and the connections answer, no assertion or unwrap of the detector fails, its wait-for
  graph stays acyclic, a node that is not the leader holds no edges, a leader forwards nothing, and an
  open connection goes to the known leader, which is another node.
\<close>

theorem detector_invariant:
  assumes "node_reachable d"
  shows "graph_ok (dtable d) \<and> (dt_role d = Follower \<longrightarrow> wait_for_map (dtable d) = []) \<and>
    (dt_role d = Leader \<longrightarrow> leader_client d = None) \<and>
    (\<forall>addr. leader_client d = Some addr \<longrightarrow> (\<exists>leader. leader_info d = Some (leader, addr) \<and> leader \<noteq> store_id d)) \<and>
    (\<forall>task. task_ok task \<longrightarrow> (\<exists>d'. run_task d task = Ok d' \<and> node_reachable d'))"
proof -
  note inv = node_reachable_inv [OF assms]
  have "\<exists>d'. run_task d task = Ok d' \<and> node_reachable d'" if "task_ok task" for task
    using run_task_inv [OF inv that] node_reachable.step [OF assms that] by blast
  then show ?thesis using inv by (auto simp: detector_inv_def split: option.splits)
qed

definition example_node :: detector where
  "example_node = \<lparr>store_id = 7, leader_info = None, leader_client = None, dt_role = Leader,
     dtable = detect_table_new 10 0 0\<rparr>"

lemma example_node_reachable: "node_reachable example_node"
proof -
  define d where "d = \<lparr>store_id = 7, leader_info = None, leader_client = None, dt_role = Follower,
     dtable = detect_table_new 10 0 0\<rparr>"
  have "node_reachable d" by (rule init [of 7 10 0 0]) (simp add: d_def detector_new_def INVALID_ID_def)
  then show ?thesis
    by (rule step [of d "TaskChangeRole Leader"])
      (simp_all add: d_def example_node_def handle_change_role_def change_role_def reset_def clear_table_def detect_table_new_def)
qed

definition example_outside :: outside where
  "example_outside = \<lparr>pd_leader = Some (Some 7), resolve_addr = (\<lambda>_. Some ''store-7''), send_ok = (\<lambda>_ _. True)\<rparr>"

theorem detector_invariant_witness:
  "\<exists>d'. run_task example_node (TaskDetect (\<lambda>_. 0) 3 example_outside example_outside DtDetect 4 (Some (5, 6))
       \<lparr>dc_key = [1], dc_resource_group_tag = []\<rparr>) = Ok d' \<and> node_reachable d'"
proof -
  have "task_ok (TaskDetect (\<lambda>_. 0) 3 example_outside example_outside DtDetect 4 (Some (5, 6))
      \<lparr>dc_key = [1], dc_resource_group_tag = []\<rparr>)" by (simp add: request_ok_def)
  then show ?thesis using detector_invariant [OF example_node_reachable] by blast
qed

text \<open>
  C19: A wait that another node reports to the leader has the effect it would have on the leader itself:
  the same new state, and a deadlock message to the waiters of the reporting node (built from the
  response) exactly when the leader would have sent one to its own, with the same contents.
\<close>

theorem remote_detect_agrees:
  assumes "is_leader d" "request_ok tp txn wi" "handle_detect_locally ord now d tp txn wi ctx = Ok (d', ms)"
  shows "\<exists>resp. handle_rpc_request ord now d (request_of tp txn wi ctx) = Ok (resp, d') \<and>
    (case resp of None \<Rightarrow> ms = [] | Some r \<Rightarrow> ms = [on_response r])"
  using local_remote [OF assms] .

theorem remote_detect_agrees_witness:
  "\<exists>d' ms resp. handle_detect_locally (\<lambda>_. 0) 8 (example_node\<lparr>dtable := example_table\<rparr>) DtDetect 3 (Some (1, 10))
       \<lparr>dc_key = [1], dc_resource_group_tag = []\<rparr> = Ok (d', ms) \<and>
     handle_rpc_request (\<lambda>_. 0) 8 (example_node\<lparr>dtable := example_table\<rparr>)
       (request_of DtDetect 3 (Some (1, 10)) \<lparr>dc_key = [1], dc_resource_group_tag = []\<rparr>) = Ok (resp, d')"
proof -
  let ?d = "example_node\<lparr>dtable := example_table\<rparr>" and ?ctx = "\<lparr>dc_key = [1], dc_resource_group_tag = []\<rparr>"
  have "detector_inv ?d" using example_table_ok by (simp add: detector_inv_def example_node_def)
  moreover have l: "is_leader ?d" by (simp add: is_leader_def example_node_def)
  moreover have r: "request_ok DtDetect 3 (Some (1, 10))" by (simp add: request_ok_def)
  ultimately obtain d' ms where "handle_detect_locally (\<lambda>_. 0) 8 ?d DtDetect 3 (Some (1, 10)) ?ctx = Ok (d', ms)"
    using handle_detect_locally_inv by blast
  then show ?thesis using remote_detect_agrees [OF l r] by blast
qed

end
