(* ===== verification/Gc.thy ===== *)
theory Gc
  imports Txn_Status
begin

text \<open>
  Garbage collection of the versions of one key (\<^verbatim>\<open>src/storage/txn/actions/gc.rs\<close>). The collector
  walks the versions from the newest to the oldest: it skips those above the safe point, removes locks and
  rollbacks until it meets a put or a delete, and removes everything below that; a delete itself goes
  last. It stops early when the batch is full. Reads at or above the safe point see no difference, wherever it stops.
\<close>

subsection \<open>Definitions\<close>

record gc_info =
  gi_found_versions :: nat
  gi_deleted_versions :: nat
  gi_is_completed :: bool

datatype gc_state =
    Rewind timestamp
  | RemoveIdempotent
  | RemoveAll "(timestamp \<times> write_record) option"

record gc_run =
  gc_key :: key
  gc_cur_ts :: timestamp
  gc_inf :: gc_info
  gc_txn :: mvcc_txn
  gc_reader :: mvcc_reader

definition gc_new :: "mvcc_txn \<Rightarrow> mvcc_reader \<Rightarrow> key \<Rightarrow> gc_run" where
  "gc_new txn reader key =
     \<lparr>gc_key = key, gc_cur_ts = ts_max,
      gc_inf = \<lparr>gi_found_versions = 0, gi_deleted_versions = 0, gi_is_completed = False\<rparr>,
      gc_txn = txn, gc_reader = reader\<rparr>"

definition gc_delete_write :: "gc_run \<Rightarrow> write_record \<Rightarrow> timestamp \<Rightarrow> gc_run" where
  "gc_delete_write g w ts =
     (let txn = delete_write (gc_txn g) (gc_key g) ts;
          txn = (if w_write_type w = WtPut \<and> w_short_value w = None
                 then delete_value txn (gc_key g) (w_start_ts w) else txn) in
      g\<lparr>gc_txn := txn, gc_inf := (gc_inf g)\<lparr>gi_deleted_versions := gi_deleted_versions (gc_inf g) + 1\<rparr>\<rparr>)"

definition gc_next_write :: "gc_run \<Rightarrow> ((timestamp \<times> write_record) option \<times> gc_run, mvcc_error) result" where
  "gc_next_write g =
     and_then (seek_write (gc_reader g) (gc_key g) (gc_cur_ts g)) (\<lambda>(res, rd).
     let g = g\<lparr>gc_reader := rd\<rparr> in
     case res of
       None \<Rightarrow> Ok (None, g)
     | Some (commit_ts, w) \<Rightarrow>
         and_then (ts_prev commit_ts) (\<lambda>ts.
         Ok (Some (commit_ts, w),
           g\<lparr>gc_cur_ts := ts, gc_inf := (gc_inf g)\<lparr>gi_found_versions := gi_found_versions (gc_inf g) + 1\<rparr>\<rparr>)))"

definition gc_remove_idempotent :: "gc_run \<Rightarrow> write_record \<Rightarrow> timestamp \<Rightarrow> gc_state \<times> gc_run" where
  "gc_remove_idempotent g w commit_ts =
     (case w_write_type w of
        WtPut \<Rightarrow> (RemoveAll None, g)
      | WtDelete \<Rightarrow> (RemoveAll (Some (commit_ts, w)), g)
      | WtRollback \<Rightarrow> (RemoveIdempotent, gc_delete_write g w commit_ts)
      | WtLock \<Rightarrow> (RemoveIdempotent, gc_delete_write g w commit_ts))"

primrec gc_step :: "gc_state \<Rightarrow> gc_run \<Rightarrow> write_record \<Rightarrow> timestamp \<Rightarrow> gc_state \<times> gc_run" where
  "gc_step (Rewind safe_point) g w commit_ts =
     (if commit_ts \<le> safe_point then gc_remove_idempotent g w commit_ts else (Rewind safe_point, g))"
| "gc_step RemoveIdempotent g w commit_ts = gc_remove_idempotent g w commit_ts"
| "gc_step (RemoveAll del) g w commit_ts = (RemoveAll del, gc_delete_write g w commit_ts)"

text \<open>The loop of \<^verbatim>\<open>Gc::run\<close>; the flag says whether all versions were visited.\<close>

primrec gc_loop :: "nat \<Rightarrow> gc_state \<Rightarrow> gc_run \<Rightarrow> (bool \<times> gc_state \<times> gc_run, mvcc_error) result" where
  "gc_loop 0 state g = Panic"
| "gc_loop (Suc n) state g =
     and_then (gc_next_write g) (\<lambda>(res, g).
     case res of
       None \<Rightarrow> Ok (True, state, g)
     | Some (commit_ts, w) \<Rightarrow>
         if unat (t_write_size (gc_txn g)) \<ge> MAX_TXN_WRITE_SIZE then Ok (False, state, g)
         else let (state, g) = gc_step state g w commit_ts in gc_loop n state g)"

definition gc_run_to :: "gc_run \<Rightarrow> timestamp \<Rightarrow> (gc_info \<times> mvcc_txn \<times> mvcc_reader, mvcc_error) result" where
  "gc_run_to g safe_point =
     and_then (gc_loop (write_fuel (gc_reader g)) (Rewind safe_point) g) (\<lambda>(visited, state, g).
     if \<not> visited then Ok (gc_inf g, gc_txn g, gc_reader g)
     else
       let g = (case state of RemoveAll (Some (commit_ts, w)) \<Rightarrow> gc_delete_write g w commit_ts | _ \<Rightarrow> g) in
       Ok ((gc_inf g)\<lparr>gi_is_completed := True\<rparr>, gc_txn g, gc_reader g))"

definition gc :: "mvcc_txn \<Rightarrow> mvcc_reader \<Rightarrow> key \<Rightarrow> timestamp \<Rightarrow> (gc_info \<times> mvcc_txn \<times> mvcc_reader, mvcc_error) result" where
  "gc txn reader key safe_point = gc_run_to (gc_new txn reader key) safe_point"

subsection \<open>What is removed\<close>

text \<open>After the versions \<open>P\<close>: the state of the collector, and what it has removed.\<close>

definition state_after :: "timestamp \<Rightarrow> (timestamp \<times> write_record) list \<Rightarrow> gc_state" where
  "state_after sp P =
     (case change_at P sp of
        Some v \<Rightarrow> RemoveAll (if w_write_type (snd v) = WtDelete then Some v else None)
      | None \<Rightarrow> if \<exists>v\<in>set P. fst v \<le> sp then RemoveIdempotent else Rewind sp)"

definition removed :: "timestamp \<Rightarrow> (timestamp \<times> write_record) list \<Rightarrow> (timestamp \<times> write_record) list" where
  "removed sp P = filter (\<lambda>v. fst v \<le> sp \<and> change_at P sp \<noteq> Some v) P"

definition remove_modifies :: "key \<Rightarrow> timestamp \<times> write_record \<Rightarrow> modify list" where
  "remove_modifies key v =
     ModDelete CF_WRITE (append_ts key (fst v)) #
     (if w_write_type (snd v) = WtPut \<and> w_short_value (snd v) = None
      then [ModDelete CF_DEFAULT (append_ts key (w_start_ts (snd v)))] else [])"

lemma change_at_append:
  "change_at (P @ Q) ts = (case change_at P ts of Some v \<Rightarrow> Some v | None \<Rightarrow> change_at Q ts)"
  by (induction P) (auto simp: change_at_def)

lemma change_at_single: "change_at [v] ts = (if fst v \<le> ts \<and> is_change (snd v) then Some v else None)"
  by (simp add: change_at_def)

lemma removed_snoc:
  assumes "newest_first (P @ [v])"
  shows "removed sp (P @ [v]) = removed sp P @ (if fst v \<le> sp \<and> change_at (P @ [v]) sp \<noteq> Some v then [v] else [])"
proof -
  have "v \<notin> set P" using assms by (induction P) auto
  then have "change_at (P @ [v]) sp \<noteq> Some x \<longleftrightarrow> change_at P sp \<noteq> Some x" if "x \<in> set P" for x
    using that by (auto simp: change_at_append change_at_single split: option.splits)
  then have "filter (\<lambda>x. fst x \<le> sp \<and> change_at (P @ [v]) sp \<noteq> Some x) P = removed sp P"
    unfolding removed_def by (intro filter_cong) auto
  then show ?thesis by (simp add: removed_def)
qed

lemma gc_delete_write_simps [simp]:
  "t_modifies (gc_txn (gc_delete_write g w c)) = t_modifies (gc_txn g) @ remove_modifies (gc_key g) (c, w)"
  "gc_key (gc_delete_write g w c) = gc_key g" "gc_cur_ts (gc_delete_write g w c) = gc_cur_ts g"
  "gc_reader (gc_delete_write g w c) = gc_reader g"
  "gi_is_completed (gc_inf (gc_delete_write g w c)) = gi_is_completed (gc_inf g)"
  by (simp_all add: gc_delete_write_def remove_modifies_def delete_write_def delete_value_def Let_def)

lemma gc_step_eq:
  assumes "newest_first (P @ [(c, w)])" "gc_step (state_after sp P) g w c = (st, g')"
  shows "st = state_after sp (P @ [(c, w)])"
    "t_modifies (gc_txn g') = t_modifies (gc_txn g) @
       (if c \<le> sp \<and> change_at (P @ [(c, w)]) sp \<noteq> Some (c, w) then remove_modifies (gc_key g) (c, w) else [])"
    "gc_key g' = gc_key g" "gc_cur_ts g' = gc_cur_ts g" "gc_reader g' = gc_reader g"
    "gi_is_completed (gc_inf g') = gi_is_completed (gc_inf g)"
proof -
  have nm: "(c, w) \<notin> set P" and gt: "\<forall>x\<in>set P. c < fst x" using assms(1) by (induction P) auto
  have low: "c \<le> sp" if "x \<in> set P" "fst x \<le> sp" for x using gt that by (meson less_imp_le order_trans)
  have "st = state_after sp (P @ [(c, w)]) \<and> t_modifies (gc_txn g') = t_modifies (gc_txn g) @
       (if c \<le> sp \<and> change_at (P @ [(c, w)]) sp \<noteq> Some (c, w) then remove_modifies (gc_key g) (c, w) else []) \<and>
    gc_key g' = gc_key g \<and> gc_cur_ts g' = gc_cur_ts g \<and> gc_reader g' = gc_reader g \<and>
    gi_is_completed (gc_inf g') = gi_is_completed (gc_inf g)"
  proof (cases "change_at P sp")
    case (Some v)
    then have "v \<in> set P" "fst v \<le> sp" using change_at_SomeD by blast+
    then have "c \<le> sp" "v \<noteq> (c, w)" using low nm by auto
    then show ?thesis using assms(2) Some by (auto simp: state_after_def change_at_append)
  next
    case None
    then have ch: "change_at (P @ [(c, w)]) sp = (if c \<le> sp \<and> is_change w then Some (c, w) else None)"
      by (simp add: change_at_append change_at_single)
    show ?thesis
    proof (cases "c \<le> sp")
      case True
      then have "gc_step (state_after sp P) g w c = gc_remove_idempotent g w c"
        using None by (simp add: state_after_def)
      then show ?thesis
        using assms(2) True ch
        by (cases "w_write_type w") (auto simp: state_after_def gc_remove_idempotent_def is_change_def)
    next
      case False
      then have "\<not> (\<exists>v\<in>set P. fst v \<le> sp)" using low by blast
      then show ?thesis using assms(2) None False ch by (auto simp: state_after_def)
    qed
  qed
  then show "st = state_after sp (P @ [(c, w)])"
    "t_modifies (gc_txn g') = t_modifies (gc_txn g) @
       (if c \<le> sp \<and> change_at (P @ [(c, w)]) sp \<noteq> Some (c, w) then remove_modifies (gc_key g) (c, w) else [])"
    "gc_key g' = gc_key g" "gc_cur_ts g' = gc_cur_ts g" "gc_reader g' = gc_reader g"
    "gi_is_completed (gc_inf g') = gi_is_completed (gc_inf g)" by blast+
qed

lemma newest_first_prefix: "newest_first (P @ Q) \<Longrightarrow> newest_first P"
  by (induction P) auto

lemma gc_next_write_eq:
  assumes "reader_ok (gc_reader g)" "vs = versions (reader_engine (gc_reader g)) (from_raw raw)"
    "gc_key g = from_raw raw" "dropWhile (\<lambda>v. gc_cur_ts g < fst v) vs = Q" "\<forall>v\<in>set vs. 0 < fst v"
  shows "\<exists>g'. gc_next_write g = Ok (case Q of [] \<Rightarrow> None | v # _ \<Rightarrow> Some v, g') \<and> reader_ok (gc_reader g') \<and>
    reader_engine (gc_reader g') = reader_engine (gc_reader g) \<and> gc_key g' = gc_key g \<and> gc_txn g' = gc_txn g \<and>
    gi_is_completed (gc_inf g') = gi_is_completed (gc_inf g) \<and>
    (\<forall>v Q'. Q = v # Q' \<longrightarrow> gc_cur_ts g' = fst v - 1)"
proof -
  obtain rd where rd: "seek_write (gc_reader g) (from_raw raw) (gc_cur_ts g) = Ok (latest vs (gc_cur_ts g), rd)"
    "reader_ok rd" "same_request (gc_reader g) rd"
    using seek_write_eq [OF assms(1), of raw "gc_cur_ts g"] assms(2) by blast
  have l: "latest vs (gc_cur_ts g) = (case Q of [] \<Rightarrow> None | v # _ \<Rightarrow> Some v)" using assms(4) by (simp add: latest_dropWhile)
  have pos: "0 < fst v" if "Q = v # Q'" for v Q'
    using assms(4,5) that by (metis list.set_intros(1) set_dropWhileD)
  show ?thesis
    using rd l assms(3) same_request_engine [OF rd(3)] pos
    by (cases Q) (auto simp: gc_next_write_def ts_prev_Ok Let_def split: prod.splits)
qed

lemma gc_loop_eq:
  assumes "reader_ok (gc_reader g)" "vs = versions (reader_engine (gc_reader g)) (from_raw raw)" "newest_first vs"
    "gc_key g = from_raw raw" "\<forall>v\<in>set vs. 0 < fst v" "vs = P @ Q" "dropWhile (\<lambda>v. gc_cur_ts g < fst v) vs = Q"
    "length Q < n" "t_modifies (gc_txn g) = concat (map (remove_modifies (from_raw raw)) (removed sp P))"
  shows "\<exists>visited P' Q' g'. gc_loop n (state_after sp P) g = Ok (visited, state_after sp P', g') \<and> vs = P' @ Q' \<and>
    (visited \<longrightarrow> Q' = []) \<and> gc_key g' = from_raw raw \<and> gi_is_completed (gc_inf g') = gi_is_completed (gc_inf g) \<and>
    t_modifies (gc_txn g') = concat (map (remove_modifies (from_raw raw)) (removed sp P'))"
  using assms
proof (induction n arbitrary: g P Q)
  case (Suc n)
  obtain g1 where g1: "gc_next_write g = Ok (case Q of [] \<Rightarrow> None | v # _ \<Rightarrow> Some v, g1)" "reader_ok (gc_reader g1)"
    "reader_engine (gc_reader g1) = reader_engine (gc_reader g)" "gc_key g1 = from_raw raw" "gc_txn g1 = gc_txn g"
    "gi_is_completed (gc_inf g1) = gi_is_completed (gc_inf g)" "\<forall>v Q'. Q = v # Q' \<longrightarrow> gc_cur_ts g1 = fst v - 1"
    using gc_next_write_eq [OF Suc.prems(1,2,4,7,5)] Suc.prems(4) by auto
  consider "Q = []" | v Q' where "Q = v # Q'" "unat (t_write_size (gc_txn g)) \<ge> MAX_TXN_WRITE_SIZE"
    | v Q' where "Q = v # Q'" "unat (t_write_size (gc_txn g)) < MAX_TXN_WRITE_SIZE"
    by (metis list.exhaust not_le)
  then show ?case
  proof cases
    case 1
    then show ?thesis using g1 Suc.prems(4,6,9) by (intro exI [of _ True] exI [of _ P] exI [of _ "[]"]) auto
  next
    case (2 v Q')
    then show ?thesis using g1 Suc.prems(4,6,9)
      by (intro exI [of _ False] exI [of _ P] exI [of _ Q]) (auto split: prod.splits)
  next
    case (3 v Q')
    obtain c w where v: "v = (c, w)" by (cases v)
    obtain st g2 where st: "gc_step (state_after sp P) g1 w c = (st, g2)" by fastforce
    have nf: "newest_first (P @ [(c, w)])"
      using newest_first_prefix [of "P @ [v]" Q'] Suc.prems(3,6) 3(1) v by simp
    note s = gc_step_eq [OF nf st]
    have "gc_cur_ts g2 = c - 1" using s(4) g1(7) 3(1) v by simp
    then have "dropWhile (\<lambda>v. gc_cur_ts g2 < fst v) vs = Q'"
      using dropWhile_next [OF Suc.prems(3), of "gc_cur_ts g" v Q'] Suc.prems(5-7) 3(1) v by auto
    moreover have "t_modifies (gc_txn g2) = concat (map (remove_modifies (from_raw raw)) (removed sp (P @ [(c, w)])))"
      using s(2) g1(4,5) Suc.prems(9) removed_snoc [OF nf, of sp] 
      by (cases "c \<le> sp \<and> change_at (P @ [(c, w)]) sp \<noteq> Some (c, w)") simp_all
    ultimately have "\<exists>visited P' Q' g'. gc_loop n (state_after sp (P @ [(c, w)])) g2 = Ok (visited, state_after sp P', g') \<and>
      vs = P' @ Q' \<and> (visited \<longrightarrow> Q' = []) \<and> gc_key g' = from_raw raw \<and>
      gi_is_completed (gc_inf g') = gi_is_completed (gc_inf g2) \<and> t_modifies (gc_txn g') = concat (map (remove_modifies (from_raw raw)) (removed sp P'))"
      using Suc.prems 3(1) v s(3,5) g1(2-4) by (intro Suc.IH [of g2 "P @ [(c, w)]" Q']) simp_all
    then show ?thesis using g1(1,5,6) 3 v st s(1,6) by simp
  qed
qed simp

text \<open>
  The versions that stay. \<open>kept\<close> after a collection that went through \<open>P\<close>, with or without the
  delete that is removed at the very end.
\<close>

definition gone :: "timestamp \<Rightarrow> (timestamp \<times> write_record) list \<Rightarrow> bool \<Rightarrow> (timestamp \<times> write_record) list" where
  "gone sp P visited =
     removed sp P @
     (case change_at P sp of Some v \<Rightarrow> if visited \<and> w_write_type (snd v) = WtDelete then [v] else [] | None \<Rightarrow> [])"

lemma gc_eq:
  assumes "reader_ok rd" "vs = versions (reader_engine rd) (from_raw raw)" "newest_first vs" "\<forall>v\<in>set vs. 0 < fst v"
  shows "\<exists>P Q info txn rd'. gc (mvcc_txn_new s) rd (from_raw raw) sp = Ok (info, txn, rd') \<and> vs = P @ Q \<and>
    (gi_is_completed info \<longrightarrow> Q = []) \<and>
    t_modifies txn = concat (map (remove_modifies (from_raw raw)) (gone sp P (gi_is_completed info)))"
proof -
  let ?g = "gc_new (mvcc_txn_new s) rd (from_raw raw)"
  have "dropWhile (\<lambda>v. gc_cur_ts ?g < fst v) vs = vs" by (cases vs) (simp_all add: gc_new_def not_less)
  moreover have "length vs < write_fuel rd"
    using write_fuel_enough [of "\<lambda>_. False" rd "from_raw raw"] assms(2) by (simp add: dropWhile_eq_self_iff)
  ultimately obtain visited P Q g where g: "gc_loop (write_fuel rd) (state_after sp []) ?g = Ok (visited, state_after sp P, g)"
    "vs = P @ Q" "visited \<longrightarrow> Q = []" "gc_key g = from_raw raw" "\<not> gi_is_completed (gc_inf g)"
    "t_modifies (gc_txn g) = concat (map (remove_modifies (from_raw raw)) (removed sp P))"
    using gc_loop_eq [of ?g vs raw "[]" vs "write_fuel rd" sp] assms
    by (auto simp: gc_new_def removed_def mvcc_txn_new_def)
  have st: "state_after sp [] = Rewind sp" by (simp add: state_after_def change_at_def)
  show ?thesis
  proof (cases "visited \<and> (\<exists>v. change_at P sp = Some v \<and> w_write_type (snd v) = WtDelete)")
    case True
    then obtain v where v: "visited" "change_at P sp = Some v" "w_write_type (snd v) = WtDelete" by blast
    have "gc (mvcc_txn_new s) rd (from_raw raw) sp =
        Ok ((gc_inf (gc_delete_write g (snd v) (fst v)))\<lparr>gi_is_completed := True\<rparr>, gc_txn (gc_delete_write g (snd v) (fst v)), gc_reader g)"
      using v g(1) st by (simp add: gc_def gc_run_to_def gc_new_def state_after_def Let_def split: prod.splits)
    then show ?thesis
      using v g by (intro exI [of _ P] exI [of _ Q]) (simp add: gone_def)
  next
    case False
    then have "gc (mvcc_txn_new s) rd (from_raw raw) sp =
        Ok ((gc_inf g)\<lparr>gi_is_completed := visited\<rparr>, gc_txn g, gc_reader g)"
      using g(1,5) st by (auto simp: gc_def gc_run_to_def gc_new_def state_after_def Let_def split: option.splits prod.splits)
    moreover have "gone sp P visited = removed sp P" using False by (auto simp: gone_def split: option.splits)
    ultimately show ?thesis
      using g by (intro exI [of _ P] exI [of _ Q]) simp
  qed
qed

subsection \<open>What stays\<close>

text \<open>
  A collection at a safe point keeps what is above it and the put that is visible there; a record
  that stays below it is that latest change or has everything older than itself still there; and
  the latest change goes only together with everything else below the safe point.
\<close>

definition collected ::
  "timestamp \<Rightarrow> (timestamp \<times> write_record) list \<Rightarrow> (timestamp \<times> write_record \<Rightarrow> bool) \<Rightarrow> bool" where
  "collected sp vs K \<longleftrightarrow>
     (\<forall>v\<in>set vs. sp < fst v \<longrightarrow> K v) \<and>
     (\<forall>v. change_at vs sp = Some v \<longrightarrow>
        (if K v then True else w_write_type (snd v) = WtDelete \<and> (\<forall>x\<in>set vs. fst x \<le> sp \<longrightarrow> \<not> K x))) \<and>
     (\<forall>u\<in>set vs. fst u \<le> sp \<and> K u \<and> change_at vs sp \<noteq> Some u \<longrightarrow> (\<forall>x\<in>set vs. fst x < fst u \<longrightarrow> K x))"

lemma change_at_filter:
  "change_at vs ts = Some v \<Longrightarrow> K v \<Longrightarrow> change_at (filter K vs) ts = Some v"
  "change_at vs ts = None \<Longrightarrow> change_at (filter K vs) ts = None"
  unfolding change_at_def by (induction vs) (auto split: if_splits)

lemma change_at_lower:
  assumes "change_at vs ts = Some v" "fst v \<le> sp" "sp \<le> ts"
  shows "change_at vs sp = Some v"
  using assms unfolding change_at_def by (induction vs) (auto split: if_splits)

lemma change_at_collected:
  assumes "newest_first vs" "collected sp vs K" "sp \<le> ts" "change_at vs ts = Some v" "\<not> K v"
  shows "change_at (filter K vs) ts = None" "w_write_type (snd v) = WtDelete"
proof -
  have v: "v \<in> set vs" "fst v \<le> sp" using change_at_SomeD [OF assms(4)] assms(2,5) by (auto simp: collected_def not_le [symmetric])
  have sp: "change_at vs sp = Some v" using change_at_lower [OF assms(4) v(2) assms(3)] .
  then show "w_write_type (snd v) = WtDelete" using assms(2,5) by (auto simp: collected_def)
  have n: "\<not> K x" if "x \<in> set vs" "fst x \<le> sp" for x using assms(2,5) sp that by (auto simp: collected_def)
  have le: "fst x \<le> fst v" if "x \<in> set vs" "fst x \<le> ts" "is_change (snd x)" for x
    using change_at_iff [OF assms(1), of ts "fst v" "snd v"] assms(4) that by (cases x) auto
  show "change_at (filter K vs) ts = None"
  proof (rule ccontr)
    assume "change_at (filter K vs) ts \<noteq> None"
    then obtain x where x: "x \<in> set vs" "K x" "fst x \<le> ts" "is_change (snd x)"
      using change_at_SomeD by fastforce
    then show False using n [of x] order_trans [OF le [of x] v(2)] by blast
  qed
qed

lemma visible_collected:
  assumes "newest_first vs" "collected sp vs K" "sp \<le> ts"
  shows "visible (filter K vs) ts limit = visible vs ts limit"
proof (cases "change_at vs ts")
  case None
  then show ?thesis using change_at_filter(2) by (simp add: visible_def)
next
  case (Some v)
  then show ?thesis
    using change_at_filter(1) [OF Some, of K] change_at_collected [OF assms Some]
    by (cases "K v") (auto simp: visible_def split: prod.splits)
qed

lemma map_of_filter_None: "map_of vs x = None \<Longrightarrow> map_of (filter K vs) x = None"
  by (auto simp: map_of_eq_None_iff)

lemma pointer_ok_collected:
  assumes nf: "newest_first vs" and c: "collected sp vs K" and v: "v \<in> set vs" "K v" and p: "pointer_ok vs limit v"
  shows "pointer_ok (filter K vs) limit v"
proof (cases "is_change (snd v)")
  case False
  let ?t = "fst v - 1"
  have pos: "0 < fst v" using p by (simp add: pointer_ok_def)
  have lt: "x \<le> ?t \<longleftrightarrow> x < fst v" for x using ts_le_prev_iff [OF pos] by blast
  show ?thesis
  proof (cases "\<exists>x. change_at vs ?t = Some x \<and> \<not> K x")
    case True
    then obtain x where x: "change_at vs ?t = Some x" "\<not> K x" by blast
    have xs: "x \<in> set vs" "fst x < fst v" using change_at_SomeD [OF x(1)] lt by auto
    have "sp < fst v"
    proof (rule ccontr)
      assume "\<not> sp < fst v"
      then have "fst v \<le> sp" by simp
      moreover have "change_at vs sp \<noteq> Some v" using change_at_SomeD False by blast
      ultimately show False using c v x(2) xs unfolding collected_def by blast
    qed
    then have "sp \<le> ?t" using lt by simp
    note n = change_at_collected(1) [OF nf c this x]
    have "map_of (filter K vs) (fst x) = None"
    proof -
      have "fst x \<notin> fst ` set (filter K vs)"
      proof
        assume "fst x \<in> fst ` set (filter K vs)"
        then obtain y where y: "y \<in> set vs" "K y" "fst y = fst x" by auto
        then have "y = x" using newest_first_distinct [OF nf] xs(1) by (meson distinct_map inj_on_eq_iff)
        then show False using y(2) x(2) by simp
      qed
      then show ?thesis by (simp add: map_of_eq_None_iff)
    qed
    then show ?thesis using p n x(1) unfolding pointer_ok_def by (auto split: option.splits prod.splits)
  next
    case kept: False
    then have "change_at (filter K vs) ?t = change_at vs ?t"
      using change_at_filter [of vs ?t] by (cases "change_at vs ?t") auto
    then show ?thesis using p map_of_filter_None [of vs _ K] unfolding pointer_ok_def by (auto split: option.splits)
  qed
qed (use p in \<open>simp add: pointer_ok_def\<close>)

lemma pointers_ok_collected:
  "newest_first vs \<Longrightarrow> collected sp vs K \<Longrightarrow> pointers_ok vs limit \<Longrightarrow> pointers_ok (filter K vs) limit"
  using pointer_ok_collected [of vs sp K _ limit] by (simp add: pointers_ok_def list_all_iff)

lemma set_gone:
  "set (gone sp P visited) =
     {v \<in> set P. fst v \<le> sp \<and> (change_at P sp = Some v \<longrightarrow> visited \<and> w_write_type (snd v) = WtDelete)}"
proof (cases "change_at P sp")
  case (Some v)
  then have "v \<in> set P" "fst v \<le> sp" using change_at_SomeD by blast+
  then show ?thesis using Some by (auto simp: gone_def removed_def)
qed (simp add: gone_def removed_def)

lemma newest_first_append_less: "newest_first (P @ Q) \<Longrightarrow> x \<in> set P \<Longrightarrow> y \<in> set Q \<Longrightarrow> fst y < fst x"
  by (induction P) auto

lemma gone_collected:
  assumes nf: "newest_first (P @ Q)" and q: "visited \<longrightarrow> Q = []"
  shows "collected sp (P @ Q) (\<lambda>v. v \<notin> set (gone sp P visited))"
  unfolding collected_def
proof (intro conjI ballI allI impI)
  fix v assume "v \<in> set (P @ Q)" "sp < fst v"
  then show "v \<notin> set (gone sp P visited)" by (auto simp: set_gone)
next
  fix v assume v: "change_at (P @ Q) sp = Some v"
  show "if v \<notin> set (gone sp P visited) then True
    else w_write_type (snd v) = WtDelete \<and> (\<forall>x\<in>set (P @ Q). fst x \<le> sp \<longrightarrow> \<not> x \<notin> set (gone sp P visited))"
  proof (cases "v \<in> set (gone sp P visited)")
    case True
    then have "v \<in> set P" by (simp add: set_gone)
    then have p: "change_at P sp = Some v"
    proof (cases "change_at P sp")
      case None
      then have "change_at Q sp = Some v" using v by (simp add: change_at_append)
      then show ?thesis using newest_first_append_less [OF nf \<open>v \<in> set P\<close>, of v] change_at_SomeD by blast
    qed (use v in \<open>simp add: change_at_append\<close>)
    then have "visited" "w_write_type (snd v) = WtDelete" using True by (auto simp: set_gone)
    then show ?thesis using True q p by (auto simp: set_gone)
  qed simp
next
  fix u x assume u: "u \<in> set (P @ Q)" "fst u \<le> sp \<and> u \<notin> set (gone sp P visited) \<and> change_at (P @ Q) sp \<noteq> Some u"
    and x: "x \<in> set (P @ Q)" "fst x < fst u"
  have "u \<notin> set P" using u(2) by (auto simp: set_gone change_at_append)
  then have "x \<notin> set P" using u(1) x newest_first_append_less [OF nf, of x u] by auto
  then show "x \<notin> set (gone sp P visited)" by (auto simp: set_gone)
qed

subsection \<open>Collecting a store\<close>

lemma fold_deletes:
  assumes "list_all (\<lambda>m. \<exists>cf k. m = ModDelete cf k) ms"
  shows "fold apply_modify ms M cf k = (if ModDelete cf k \<in> set ms then None else M cf k)"
  using assms
proof (induction ms arbitrary: M)
  case (Cons m ms)
  then obtain cf' k' where "m = ModDelete cf' k'" by auto
  then show ?case using Cons by (auto simp: apply_modify_def)
qed simp

definition puts_once :: "btree_engine \<Rightarrow> key \<Rightarrow> bool" where
  "puts_once e key \<longleftrightarrow>
     (\<forall>c w c' w'. records e key c = Some w \<and> records e key c' = Some w' \<and> w_write_type w = WtPut \<and>
        w_write_type w' = WtPut \<and> w_start_ts w = w_start_ts w' \<longrightarrow> c = c')"

lemma gc_store:
  assumes "store_ok e" "set D \<subseteq> set (versions e (from_raw raw))"
  shows "\<exists>e'. write_modifies e (concat (map (remove_modifies (from_raw raw)) D)) = Ok e' \<and> store_ok e' \<and>
    versions e' (from_raw raw) = filter (\<lambda>v. v \<notin> set D) (versions e (from_raw raw)) \<and>
    (puts_once e (from_raw raw) \<longrightarrow> (\<forall>c w. (c, w) \<in> set (versions e' (from_raw raw)) \<and> w_write_type w = WtPut \<longrightarrow>
       value_of e' (from_raw raw) w = value_of e (from_raw raw) w))"
proof -
  let ?key = "from_raw raw" and ?ms = "concat (map (remove_modifies (from_raw raw)) D)"
  have del: "list_all (\<lambda>m. \<exists>cf k. m = ModDelete cf k) ?ms" and ok: "list_all store_modify_ok ?ms"
    by (auto simp: list_all_iff remove_modifies_def store_modify_ok_def split: if_splits)
  obtain e' where e': "write_modifies e ?ms = Ok e'" "store_ok e'" "engine_map e' = fold apply_modify ?ms (engine_map e)"
    using store_write [OF assms(1) ok] by blast
  note m = fold_deletes [OF del, of "engine_map e", folded e'(3)]
  have w: "ModDelete CF_WRITE (append_ts ?key c) \<in> set ?ms \<longleftrightarrow> c \<in> fst ` set D" for c
    by (auto simp: remove_modifies_def image_iff split: if_splits)
  have d: "ModDelete CF_DEFAULT (append_ts ?key s) \<in> set ?ms \<longleftrightarrow>
      (\<exists>v\<in>set D. w_write_type (snd v) = WtPut \<and> w_short_value (snd v) = None \<and> w_start_ts (snd v) = s)" for s
    by (auto simp: remove_modifies_def split: if_splits)
  have r: "records e' ?key c = (if c \<in> fst ` set D then None else records e ?key c)" for c
    unfolding records_eq [OF assms(1)] records_eq [OF e'(2)] m w by simp
  have nf: "newest_first (versions e ?key)" using newest_first_store [OF assms(1)] .
  have same: "v \<in> set D \<longleftrightarrow> fst v \<in> fst ` set D" if "v \<in> set (versions e ?key)" for v
  proof
    assume "fst v \<in> fst ` set D"
    then obtain u where "u \<in> set D" "fst u = fst v" by auto
    moreover from this have "u = v"
      using that assms(2) newest_first_distinct [OF nf] by (meson distinct_map inj_on_eq_iff subsetD)
    ultimately show "v \<in> set D" by simp
  qed simp
  have vs: "versions e' ?key = filter (\<lambda>v. v \<notin> set D) (versions e ?key)"
  proof (rule newest_first_unique [OF newest_first_store [OF e'(2)]])
    show "newest_first (filter (\<lambda>v. v \<notin> set D) (versions e ?key))" using nf by (simp add: newest_first_def sorted_wrt_filter)
    have "map_of (filter (\<lambda>v. v \<notin> set D) (versions e ?key)) c = (if c \<in> fst ` set D then None else records e ?key c)" for c
    proof (rule option_eqI)
      fix x
      have "map_of (filter (\<lambda>v. v \<notin> set D) (versions e ?key)) c = Some x \<longleftrightarrow>
          (c, x) \<in> set (versions e ?key) \<and> (c, x) \<notin> set D"
        using newest_first_distinct [OF nf] by (simp add: distinct_map_filter)
      then show "map_of (filter (\<lambda>v. v \<notin> set D) (versions e ?key)) c = Some x \<longleftrightarrow>
          (if c \<in> fst ` set D then None else records e ?key c) = Some x"
        using same [of "(c, x)"] in_versions [OF assms(1), of c x ?key] by auto
    qed
    then show "map_of (versions e' ?key) = map_of (filter (\<lambda>v. v \<notin> set D) (versions e ?key))"
      using r by (auto simp: records_def)
  qed
  have "value_of e' ?key w = value_of e ?key w"
    if p: "puts_once e ?key" "(c, w) \<in> set (versions e' ?key)" "w_write_type w = WtPut" for c w
  proof -
    have cw: "(c, w) \<in> set (versions e ?key)" "(c, w) \<notin> set D" using p(2) vs by auto
    have "\<not> (\<exists>v\<in>set D. w_write_type (snd v) = WtPut \<and> w_start_ts (snd v) = w_start_ts w)"
    proof
      assume "\<exists>v\<in>set D. w_write_type (snd v) = WtPut \<and> w_start_ts (snd v) = w_start_ts w"
      then obtain v where v: "v \<in> set D" "w_write_type (snd v) = WtPut" "w_start_ts (snd v) = w_start_ts w" by blast
      have "v \<in> set (versions e ?key)" using v(1) assms(2) by blast
      then have "records e ?key (fst v) = Some (snd v)" "records e ?key c = Some w"
        using cw(1) in_versions [OF assms(1), of "fst v" "snd v"] in_versions [OF assms(1), of c w] by simp_all
      then have "fst v = c" using p(1,3) v(2,3) unfolding puts_once_def by metis
      then show False using v(1) cw same by force
    qed
    then show ?thesis using m [of CF_DEFAULT "append_ts ?key (w_start_ts w)"] d [of "w_start_ts w"]
      by (auto simp: value_of_def split: option.splits)
  qed
  then show ?thesis using e'(1,2) vs by blast
qed

lemma collected_to_safe_point:
  assumes "newest_first vs"
  shows "filter (\<lambda>v. v \<notin> set (gone sp vs True)) vs =
    filter (\<lambda>v. sp < fst v \<or> change_at vs sp = Some v \<and> w_write_type (snd v) = WtPut) vs"
proof (intro filter_cong refl)
  fix v assume "v \<in> set vs"
  moreover have "is_change (snd v)" if "change_at vs sp = Some v" using change_at_SomeD [OF that] by simp
  ultimately show "v \<notin> set (gone sp vs True) \<longleftrightarrow> sp < fst v \<or> change_at vs sp = Some v \<and> w_write_type (snd v) = WtPut"
    by (auto simp: set_gone is_change_def not_le)
qed

text \<open>
  C6: Garbage collection is invisible at and above its safe point. On a well-formed store in which
  the commit timestamps of the key are positive, no two puts of the key come from one transaction and the
  pointers of its records are right, collecting the key returns a batch that keeps the store well formed,
  and every read at or above the safe point returns the same result, value or error, as before, also when
  the collection stopped early. When it ran to the end, the versions that stay are those above the
  safe point and the put visible at it.
\<close>

theorem gc_preserves_reads:
  assumes "reader_on e s r" "\<forall>c w. records e (from_raw raw) c = Some w \<longrightarrow> 0 < c" "puts_once e (from_raw raw)"
    "pointers_ok (versions e (from_raw raw)) (Some t)" "sp \<le> ts"
  shows "\<exists>info txn rd e'. gc (mvcc_txn_new s) (sr_reader r) (from_raw raw) sp = Ok (info, txn, rd) \<and>
    write_modifies e (t_modifies txn) = Ok e' \<and> store_ok e' \<and>
    map_ok fst (sr_get (fresh_reader e' t) (from_raw raw) ts) = map_ok fst (sr_get (fresh_reader e t) (from_raw raw) ts) \<and>
    (gi_is_completed info \<longrightarrow>
       versions e' (from_raw raw) =
         filter (\<lambda>v. sp < fst v \<or> change_at (versions e (from_raw raw)) sp = Some v \<and> w_write_type (snd v) = WtPut)
           (versions e (from_raw raw)))"
proof -
  let ?key = "from_raw raw" and ?vs = "versions e (from_raw raw)"
  note se = reader_onD(1) [OF assms(1)]
  have nf: "newest_first ?vs" using newest_first_store [OF se] .
  have pos: "\<forall>v\<in>set ?vs. 0 < fst v" using assms(2) in_versions [OF se] by auto
  obtain P Q info txn rd where g: "gc (mvcc_txn_new s) (sr_reader r) ?key sp = Ok (info, txn, rd)" "?vs = P @ Q"
    "gi_is_completed info \<longrightarrow> Q = []"
    "t_modifies txn = concat (map (remove_modifies ?key) (gone sp P (gi_is_completed info)))"
    using gc_eq [OF reader_onD(2) [OF assms(1)] refl, of raw s sp] nf pos unfolding reader_onD(3) [OF assms(1)] by blast
  let ?D = "gone sp P (gi_is_completed info)" and ?K = "\<lambda>v. v \<notin> set (gone sp P (gi_is_completed info))"
  have "set ?D \<subseteq> set ?vs" using g(2) by (auto simp: set_gone)
  then obtain e' where e': "write_modifies e (t_modifies txn) = Ok e'" "store_ok e'" "versions e' ?key = filter ?K ?vs"
    "\<forall>c w. (c, w) \<in> set (versions e' ?key) \<and> w_write_type w = WtPut \<longrightarrow> value_of e' ?key w = value_of e ?key w"
    using gc_store [OF se, of ?D raw] assms(3) unfolding g(4) by blast
  have c: "collected sp ?vs ?K" using gone_collected [of P Q "gi_is_completed info" sp] nf g(2,3) by simp
  have vis: "visible (versions e' ?key) ts (Some t) = visible ?vs ts (Some t)"
    unfolding e'(3) by (rule visible_collected [OF nf c assms(5)])
  have ptr: "pointers_ok (versions e' ?key) (Some t)" unfolding e'(3) by (rule pointers_ok_collected [OF nf c assms(4)])
  have val: "value_of e' ?key w = value_of e ?key w" if "visible ?vs ts (Some t) = Some (w, c)" for w c
  proof -
    have "visible (versions e' ?key) ts (Some t) = Some (w, c)" using that vis by simp
    then have "change_at (versions e' ?key) ts = Some (c, w)" "w_write_type w = WtPut"
      unfolding visible_def by (auto split: option.splits if_splits)
    then show ?thesis using e'(4) change_at_SomeD by blast
  qed
  have "map_ok fst (sr_get (fresh_reader e' t) ?key ts) = map_ok fst (sr_get (fresh_reader e t) ?key ts)"
    using sr_get_eq [OF reader_on_new [OF e'(2)] ptr, of ts] sr_get_eq [OF reader_on_new [OF se] assms(4), of ts] val
    unfolding vis by (auto split: option.splits)
  moreover have "versions e' ?key =
      filter (\<lambda>v. sp < fst v \<or> change_at ?vs sp = Some v \<and> w_write_type (snd v) = WtPut) ?vs" if "gi_is_completed info"
    using e'(3) g(2,3) that collected_to_safe_point [OF nf, of sp] by simp
  ultimately show ?thesis using g(1) e'(1,2) by blast
qed

lemma example_store_puts: "puts_once example_store (from_raw [1])"
  by (auto simp: puts_once_def records_def example_store example_versions_def write_new_def write_set_last_change_def split: if_splits)

theorem gc_preserves_reads_witness:
  "\<exists>info txn rd e'. gc (mvcc_txn_new 40) (sr_reader (fresh_reader example_store 40)) (from_raw [1]) 30 = Ok (info, txn, rd) \<and>
     write_modifies example_store (t_modifies txn) = Ok e' \<and> store_ok e' \<and>
     map_ok fst (sr_get (fresh_reader e' 60) (from_raw [1]) 35) = map_ok fst (sr_get (fresh_reader example_store 60) (from_raw [1]) 35)"
proof -
  have pos: "\<forall>c w. records example_store (from_raw [1]) c = Some w \<longrightarrow> 0 < c"
    by (auto simp: records_def example_store example_versions_def split: if_splits)
  have ptr: "pointers_ok (versions example_store (from_raw [1])) (Some 60)"
    unfolding example_store by (rule example_versions_ok(3))
  show ?thesis
    using gc_preserves_reads [OF example_reader pos example_store_puts ptr, of 30 35] by auto
qed

end
