(* ===== verification/Concurrency_Manager.thy ===== *)
theory Concurrency_Manager
  imports Lock_Record "HOL-Library.AList"
begin

text \<open>
  The concurrency manager (\<^verbatim>\<open>components/concurrency_manager/src/{lib,lock_table,key_handle}.rs\<close>): the
  largest timestamp any reader has used, guarded by a limit that follows the timestamp oracle, and the
  locks that are visible in memory while they are written. The clock and the answer of the timestamp oracle are
  arguments; \<open>None\<close> stands for no provider, an error and a timeout. The atomics are read and written in one
  step each; their interleaving is in \<open>Async_Commit\<close>. A key handle is an entry of the table as
  long as its guard lives.
\<close>

subsection \<open>The largest timestamp\<close>

record max_ts_limit =
  ml_limit :: timestamp
  ml_update_time :: instant

datatype action_on_invalid_max_ts = OnPanic | OnError | OnLog

type_synonym lock_table = "(key \<times> lock option) list"

record concurrency_manager =
  cm_max_ts :: timestamp
  cm_lock_table :: lock_table
  cm_max_ts_limit :: max_ts_limit
  cm_limit_valid_duration :: duration
  cm_action :: action_on_invalid_max_ts
  cm_drift_allowance_ms :: u64

definition as_millis :: "duration \<Rightarrow> u64" where
  "as_millis d = of_nat (d div 1000000)"

definition cm_new_with_config ::
  "timestamp \<Rightarrow> duration \<Rightarrow> action_on_invalid_max_ts \<Rightarrow> duration \<Rightarrow> instant \<Rightarrow> concurrency_manager" where
  "cm_new_with_config latest_ts limit_valid_duration action drift_allowance now =
     \<lparr>cm_max_ts = latest_ts, cm_lock_table = [], cm_max_ts_limit = \<lparr>ml_limit = 0, ml_update_time = now\<rparr>,
      cm_limit_valid_duration = limit_valid_duration, cm_action = action,
      cm_drift_allowance_ms = as_millis drift_allowance\<rparr>"

definition set_max_ts_limit :: "concurrency_manager \<Rightarrow> instant \<Rightarrow> timestamp \<Rightarrow> concurrency_manager" where
  "set_max_ts_limit cm now ts_from_tso =
     (if ts_is_max ts_from_tso then cm
      else
        let limit = ts_compose (ts_physical ts_from_tso + cm_drift_allowance_ms cm) (ts_logical ts_from_tso) in
        if limit \<le> ml_limit (cm_max_ts_limit cm) then cm
        else cm\<lparr>cm_max_ts_limit := \<lparr>ml_limit = limit, ml_update_time = now\<rparr>\<rparr>)"

text \<open>The error of an invalid update carries the attempted timestamp and the limit.\<close>

definition report_error ::
  "concurrency_manager \<Rightarrow> timestamp \<Rightarrow> max_ts_limit \<Rightarrow> bool \<Rightarrow> (unit, timestamp \<times> timestamp) result" where
  "report_error cm new_ts limit tso_confirmed =
     (if tso_confirmed
      then (case cm_action cm of OnPanic \<Rightarrow> Panic | OnError \<Rightarrow> Err (new_ts, ml_limit limit) | OnLog \<Rightarrow> Ok ())
      else Ok ())"

text \<open>The limit is raised before the check, so a failing update keeps the raised limit.\<close>

definition double_check ::
  "concurrency_manager \<Rightarrow> instant \<Rightarrow> timestamp option \<Rightarrow> timestamp \<Rightarrow>
     (unit, timestamp \<times> timestamp) result \<times> concurrency_manager" where
  "double_check cm now tso new_ts =
     (let (cm, tso_confirmed) =
            (case tso of Some ts \<Rightarrow> (set_max_ts_limit cm now ts, True) | None \<Rightarrow> (cm, False));
          new_limit = cm_max_ts_limit cm in
      if new_ts > ml_limit new_limit
      then (report_error cm new_ts new_limit tso_confirmed, cm)
      else (Ok (), cm))"

text \<open>
  The clock is read when the limit is exceeded and again when the limit is raised; \<open>tso\<close> is the answer of
  the timestamp oracle, if it gives one in time.
\<close>

definition update_max_ts ::
  "concurrency_manager \<Rightarrow> instant \<Rightarrow> instant \<Rightarrow> timestamp option \<Rightarrow> timestamp \<Rightarrow>
     (unit, timestamp \<times> timestamp) result \<times> concurrency_manager" where
  "update_max_ts cm now now' tso new_ts =
     (if ts_is_max new_ts then (Ok (), cm)
      else
        let limit = cm_max_ts_limit cm;
            (res, cm) =
              (if \<not> ts_is_zero (ml_limit limit) \<and> new_ts > ml_limit limit
               then
                 if now < ml_update_time limit then (Panic, cm)
                 else
                   let since = now - ml_update_time limit in
                   if since < cm_limit_valid_duration cm then double_check cm now' tso new_ts
                   else
                     let approximate_limit =
                           ts_compose (ts_physical (ml_limit limit) + as_millis since) (ts_logical (ml_limit limit)) in
                     if new_ts > approximate_limit then double_check cm now' tso new_ts else (Ok (), cm)
               else (Ok (), cm)) in
        case res of
          Ok _ \<Rightarrow> (Ok (), cm\<lparr>cm_max_ts := max (cm_max_ts cm) new_ts\<rparr>)
        | _ \<Rightarrow> (res, cm))"

definition set_action_on_invalid_max_ts :: "concurrency_manager \<Rightarrow> action_on_invalid_max_ts \<Rightarrow> concurrency_manager" where
  "set_action_on_invalid_max_ts cm action = cm\<lparr>cm_action := action\<rparr>"

definition set_max_ts_drift_allowance :: "concurrency_manager \<Rightarrow> duration \<Rightarrow> concurrency_manager" where
  "set_max_ts_drift_allowance cm allowance = cm\<lparr>cm_drift_allowance_ms := as_millis allowance\<rparr>"

subsection \<open>Locks in memory\<close>

text \<open>
  Locking a key binds a handle to the table if there is none; the caller then owns the handle. Dropping the
  guard clears the stored lock and, when no other task refers to the handle, removes the handle.
\<close>

definition lock_key :: "lock_table \<Rightarrow> key \<Rightarrow> lock_table" where
  "lock_key t key = (case map_of t key of None \<Rightarrow> AList.update key None t | Some _ \<Rightarrow> t)"

definition lock_keys :: "lock_table \<Rightarrow> key list \<Rightarrow> lock_table" where
  "lock_keys t keys = fold (\<lambda>key t. lock_key t key) (sort keys) t"

definition guard_with_lock :: "lock_table \<Rightarrow> key \<Rightarrow> lock option \<Rightarrow> lock_table" where
  "guard_with_lock t key l = AList.update key l t"

definition drop_guard :: "lock_table \<Rightarrow> key \<Rightarrow> bool \<Rightarrow> lock_table" where
  "drop_guard t key is_last = (if is_last then AList.delete key t else AList.update key None t)"

definition check_key :: "lock_table \<Rightarrow> key \<Rightarrow> (lock \<Rightarrow> (unit, 'e) result) \<Rightarrow> (unit, 'e) result" where
  "check_key t key check_fn =
     (case map_of t key of Some (Some l) \<Rightarrow> check_fn l | _ \<Rightarrow> Ok ())"

primrec check_handles :: "lock_table \<Rightarrow> (key \<Rightarrow> lock \<Rightarrow> (unit, 'e) result) \<Rightarrow> (unit, 'e) result" where
  "check_handles [] check_fn = Ok ()"
| "check_handles (h # hs) check_fn =
     (case snd h of
        None \<Rightarrow> check_handles hs check_fn
      | Some l \<Rightarrow> and_then (check_fn (fst h) l) (\<lambda>_. check_handles hs check_fn))"

definition check_range ::
  "lock_table \<Rightarrow> key option \<Rightarrow> key option \<Rightarrow> (key \<Rightarrow> lock \<Rightarrow> (unit, 'e) result) \<Rightarrow> (unit, 'e) result" where
  "check_range t start_key end_key check_fn =
     check_handles
       (sort_key fst (filter (\<lambda>(k, _). (case start_key of None \<Rightarrow> True | Some s \<Rightarrow> s \<le> k) \<and>
                                (case end_key of None \<Rightarrow> True | Some e \<Rightarrow> k < e)) t)) check_fn"

definition global_min_lock :: "lock_table \<Rightarrow> (timestamp \<times> key) option" where
  "global_min_lock t =
     fold (\<lambda>(k, l) acc.
        case l of
          None \<Rightarrow> acc
        | Some l \<Rightarrow> (case acc of
              None \<Rightarrow> Some (l_ts l, k)
            | Some (ts, _) \<Rightarrow> if ts > l_ts l then Some (l_ts l, k) else acc)) (sort_key fst t) None"

definition global_min_lock_ts :: "lock_table \<Rightarrow> timestamp option" where
  "global_min_lock_ts t =
     fold (\<lambda>(_, l) acc.
        case l of
          None \<Rightarrow> acc
        | Some l \<Rightarrow> (case acc of
              None \<Rightarrow> Some (l_ts l)
            | Some ts \<Rightarrow> if ts > l_ts l then Some (l_ts l) else acc)) (sort_key fst t) None"

subsection \<open>Facts\<close>

lemma double_check_keeps:
  "cm_max_ts (snd (double_check cm now tso ts)) = cm_max_ts cm"
  "cm_lock_table (snd (double_check cm now tso ts)) = cm_lock_table cm"
  by (auto simp: double_check_def set_max_ts_limit_def Let_def split: option.splits if_splits)

lemma update_max_ts_Ok:
  "fst (update_max_ts cm now now' tso ts) = Ok () \<Longrightarrow>
     cm_max_ts (snd (update_max_ts cm now now' tso ts)) = (if ts_is_max ts then cm_max_ts cm else max (cm_max_ts cm) ts)"
  unfolding update_max_ts_def Let_def using double_check_keeps(1) [of cm now' tso ts]
  by (auto split: result.splits prod.splits if_splits)

lemma update_max_ts_lock_table [simp]: "cm_lock_table (snd (update_max_ts cm now now' tso ts)) = cm_lock_table cm"
  unfolding update_max_ts_def Let_def using double_check_keeps(2) [of cm now' tso ts]
  by (auto split: result.splits prod.splits if_splits)

lemma update_max_ts_mono: "cm_max_ts cm \<le> cm_max_ts (snd (update_max_ts cm now now' tso ts))"
  unfolding update_max_ts_def Let_def using double_check_keeps(1) [of cm now' tso ts]
  by (auto split: result.splits prod.splits if_splits)

lemma check_handles_Ok:
  "check_handles hs f = Ok () \<longleftrightarrow> (\<forall>k l. (k, Some l) \<in> set hs \<longrightarrow> f k l = Ok ())"
proof (induction hs)
  case (Cons h hs)
  obtain k lo where h: "h = (k, lo)" by (cases h)
  show ?case
  proof (cases lo)
    case None
    then show ?thesis using Cons h by simp
  next
    case (Some l)
    have "check_handles (h # hs) f = Ok () \<longleftrightarrow> f k l = Ok () \<and> check_handles hs f = Ok ()"
      using h Some by (cases "f k l") simp_all
    then show ?thesis using Cons h Some by auto
  qed
qed simp

lemma check_range_Ok:
  "check_range t s e f = Ok () \<longleftrightarrow>
     (\<forall>k l. (k, Some l) \<in> set t \<and> (case s of None \<Rightarrow> True | Some s \<Rightarrow> s \<le> k) \<and> (case e of None \<Rightarrow> True | Some e \<Rightarrow> k < e) \<longrightarrow>
        f k l = Ok ())"
  unfolding check_range_def check_handles_Ok by simp

end
