(* ===== verification/Prewrite.thy ===== *)
theory Prewrite
  imports Txn_Status Concurrency_Manager
begin

text \<open>
  Prewriting one mutation (\<^verbatim>\<open>src/storage/txn/actions/prewrite.rs\<close>). A prewrite changes the batch, the
  concurrency manager, the reader and its own view of the mutation; all of them keep their changes when
  it fails, which the command relies on when an async commit falls back to two phases. So the steps
  are state transformers that return an outcome and the new state.
\<close>

subsection \<open>Steps with state\<close>

type_synonym ('s, 'a) steps = "'s \<Rightarrow> ('a, mvcc_error) result \<times> 's"

definition st_return :: "'a \<Rightarrow> ('s, 'a) steps" where
  "st_return x s = (Ok x, s)"

definition st_lift :: "('a, mvcc_error) result \<Rightarrow> ('s, 'a) steps" where
  "st_lift r s = (r, s)"

definition st_bind :: "('s, 'a) steps \<Rightarrow> ('a \<Rightarrow> ('s, 'b) steps) \<Rightarrow> ('s, 'b) steps" where
  "st_bind m f s =
     (case m s of (Ok x, s') \<Rightarrow> f x s' | (Err e, s') \<Rightarrow> (Err e, s') | (Panic, s') \<Rightarrow> (Panic, s'))"

lemma st_bind_Ok [simp]: "m s = (Ok x, s') \<Longrightarrow> st_bind m f s = f x s'"
  by (simp add: st_bind_def)

lemma st_bind_Err [simp]: "m s = (Err e, s') \<Longrightarrow> st_bind m f s = (Err e, s')"
  by (simp add: st_bind_def)

lemma st_apply [simp]: "st_return x s = (Ok x, s)" "st_lift r s = (r, s)"
  by (simp_all add: st_return_def st_lift_def)

lemma st_bind_return [simp]: "st_bind (st_return x) f s = f x s"
  by (simp add: st_bind_def st_return_def)

subsection \<open>Properties of a transaction\<close>

datatype pessimistic_action = SkipPessimisticCheck | DoPessimisticCheck | DoConstraintCheck
datatype assertion_level = AlOff | AlFast | AlStrict
datatype commit_kind = TwoPc | OnePc timestamp | AsyncCommit timestamp
datatype transaction_kind = Optimistic bool | Pessimistic timestamp

record transaction_properties =
  tp_start_ts :: timestamp
  tp_kind :: transaction_kind
  tp_commit_kind :: commit_kind
  tp_primary :: bytes
  tp_txn_size :: u64
  tp_lock_ttl :: u64
  tp_min_commit_ts :: timestamp
  tp_need_old_value :: bool
  tp_is_retry_request :: bool
  tp_assertion_level :: assertion_level
  tp_txn_source :: u64

definition tp_max_commit_ts :: "transaction_properties \<Rightarrow> (timestamp, mvcc_error) result" where
  "tp_max_commit_ts p = (case tp_commit_kind p of TwoPc \<Rightarrow> Panic | OnePc ts \<Rightarrow> Ok ts | AsyncCommit ts \<Rightarrow> Ok ts)"

definition tp_is_pessimistic :: "transaction_properties \<Rightarrow> bool" where
  "tp_is_pessimistic p = (case tp_kind p of Optimistic _ \<Rightarrow> False | Pessimistic _ \<Rightarrow> True)"

definition tp_for_update_ts :: "transaction_properties \<Rightarrow> timestamp" where
  "tp_for_update_ts p = (case tp_kind p of Optimistic _ \<Rightarrow> ts_zero | Pessimistic ts \<Rightarrow> ts)"

datatype lock_status = LsLocked timestamp | LsPessimistic timestamp | LsNone

definition has_pessimistic_lock :: "lock_status \<Rightarrow> bool" where
  "has_pessimistic_lock s = (case s of LsPessimistic _ \<Rightarrow> True | _ \<Rightarrow> False)"

record prewrite_mutation =
  pm_key :: key
  pm_value :: "val option"
  pm_mutation_type :: mutation_type
  pm_secondary_keys :: "bytes list option"
  pm_min_commit_ts :: timestamp
  pm_pessimistic_action :: pessimistic_action
  pm_lock_type :: "lock_type option"
  pm_lock_ttl :: u64
  pm_last_change :: last_change
  pm_should_not_exist :: bool
  pm_should_not_write :: bool
  pm_assertion :: assertion
  pm_props :: transaction_properties

text \<open>
  What the steps read from outside: the clock and the timestamp oracle for each update of the largest
  timestamp, and the feature gate for last-change records.
\<close>

record prewrite_env =
  pe_clock :: "nat \<Rightarrow> instant \<times> instant \<times> timestamp option"
  pe_last_change :: bool

record pw_state =
  ps_txn :: mvcc_txn
  ps_cm :: concurrency_manager
  ps_reader :: snapshot_reader
  ps_mut :: prewrite_mutation

definition st_read ::
  "(snapshot_reader \<Rightarrow> ('a \<times> snapshot_reader, mvcc_error) result) \<Rightarrow> (pw_state, 'a) steps" where
  "st_read f s =
     (case f (ps_reader s) of
        Ok (x, r) \<Rightarrow> (Ok x, s\<lparr>ps_reader := r\<rparr>) | Err e \<Rightarrow> (Err e, s) | Panic \<Rightarrow> (Panic, s))"

definition st_update_max_ts :: "prewrite_env \<Rightarrow> nat \<Rightarrow> timestamp \<Rightarrow> (pw_state, unit) steps" where
  "st_update_max_ts env i ts s =
     (let (now, now', tso) = pe_clock env i;
          (res, cm) = update_max_ts (ps_cm s) now now' tso ts in
      (map_err (\<lambda>_. MvInvalidMaxTsUpdate) res, s\<lparr>ps_cm := cm\<rparr>))"

lemma st_read_Ok [simp]: "f (ps_reader s) = Ok (x, r) \<Longrightarrow> st_read f s = (Ok x, s\<lparr>ps_reader := r\<rparr>)"
  by (simp add: st_read_def)

subsection \<open>Checks on the mutation\<close>

definition from_mutation ::
  "mutation \<Rightarrow> bytes list option \<Rightarrow> pessimistic_action \<Rightarrow> transaction_properties \<Rightarrow>
     (prewrite_mutation, mvcc_error) result" where
  "from_mutation m secondary_keys action props =
     (if tp_is_pessimistic props \<and> should_not_write m then Err MvOther
      else
        let (key, v) = into_key_value m in
        Ok \<lparr>pm_key = key, pm_value = v, pm_mutation_type = mutation_mutation_type m,
            pm_secondary_keys = secondary_keys, pm_min_commit_ts = tp_min_commit_ts props,
            pm_pessimistic_action = action, pm_lock_type = lock_type_from_mutation m,
            pm_lock_ttl = tp_lock_ttl props, pm_last_change = LcUnknown,
            pm_should_not_exist = should_not_exists m, pm_should_not_write = should_not_write m,
            pm_assertion = get_assertion m, pm_props = props\<rparr>)"

definition raw_key_of :: "key \<Rightarrow> (bytes, mvcc_error) result" where
  "raw_key_of key = map_err MvCodec (to_raw key)"

definition pm_lock_info :: "prewrite_mutation \<Rightarrow> lock \<Rightarrow> (lock_info, mvcc_error) result" where
  "pm_lock_info m l =
     map_ok (\<lambda>raw. let info = into_lock_info l raw in
       if tp_is_pessimistic (pm_props m) then info\<lparr>li_lock_ttl := 0\<rparr> else info) (raw_key_of (pm_key m))"

definition check_lock ::
  "lock \<Rightarrow> pessimistic_action \<Rightarrow> timestamp option \<Rightarrow> u64 \<Rightarrow> (pw_state, lock_status) steps" where
  "check_lock l action expected_for_update_ts generation_to_write s =
     (let m = ps_mut s; props = pm_props m; start_ts = tp_start_ts props in
      if l_ts l \<noteq> start_ts
      then
        if action = DoPessimisticCheck
        then (and_then (raw_key_of (pm_key m)) (\<lambda>raw. Err (MvPessimisticLockNotFound start_ts raw LockTsMismatch)), s)
        else (and_then (pm_lock_info m l) (\<lambda>info. Err (MvKeyIsLocked info)), s)
      else
        let m = m\<lparr>pm_last_change := l_last_change l\<rparr>; s = s\<lparr>ps_mut := m\<rparr> in
        if is_pessimistic_lock l
        then
          if \<not> tp_is_pessimistic props
          then (and_then (raw_key_of (pm_key m)) (\<lambda>raw. Err (MvLockTypeNotMatch start_ts raw True)), s)
          else if (case expected_for_update_ts of Some ts \<Rightarrow> l_for_update_ts l \<noteq> ts | None \<Rightarrow> False)
          then (and_then (raw_key_of (pm_key m)) (\<lambda>raw.
                  Err (MvPessimisticLockNotFound start_ts raw LockForUpdateTsMismatch)), s)
          else
            (Ok (LsPessimistic (l_for_update_ts l)),
             s\<lparr>ps_mut := m\<lparr>pm_lock_ttl := max (pm_lock_ttl m) (l_ttl l),
                          pm_min_commit_ts := max (pm_min_commit_ts m) (l_min_commit_ts l)\<rparr>\<rparr>)
        else if generation_to_write > 0 \<and> l_generation l \<ge> generation_to_write
        then (Err (MvGenerationOutOfOrder generation_to_write (pm_key m) l), s)
        else if l_generation l > 0 \<and> pm_should_not_exist m \<and> l_lock_type l = LtPut
        then (and_then (raw_key_of (pm_key m)) (\<lambda>raw. Err (MvAlreadyExist raw (l_ts l))), s)
        else (Ok (LsLocked (if l_use_async_commit l then l_min_commit_ts l else ts_zero)), s))"

definition write_conflict_error ::
  "prewrite_mutation \<Rightarrow> write_record \<Rightarrow> timestamp \<Rightarrow> conflict_reason \<Rightarrow> ('a, mvcc_error) result" where
  "write_conflict_error m w commit_ts reason =
     and_then (raw_key_of (pm_key m)) (\<lambda>raw.
       Err (MvWriteConflict (tp_start_ts (pm_props m)) (w_start_ts w) commit_ts raw (tp_primary (pm_props m)) reason))"

definition assertion_failed_error ::
  "prewrite_mutation \<Rightarrow> timestamp \<Rightarrow> timestamp \<Rightarrow> ('a, mvcc_error) result" where
  "assertion_failed_error m existing_start_ts existing_commit_ts =
     and_then (raw_key_of (pm_key m)) (\<lambda>raw.
       Err (MvAssertionFailed (tp_start_ts (pm_props m)) raw (pm_assertion m) existing_start_ts existing_commit_ts))"

definition skip_constraint_check :: "prewrite_mutation \<Rightarrow> bool" where
  "skip_constraint_check m =
     (case tp_kind (pm_props m) of
        Optimistic skip \<Rightarrow> skip
      | Pessimistic _ \<Rightarrow>
          (case pm_pessimistic_action m of
             DoPessimisticCheck \<Rightarrow> True
           | SkipPessimisticCheck \<Rightarrow> \<not> tp_is_retry_request (pm_props m)
           | DoConstraintCheck \<Rightarrow> False))"

definition need_min_commit_ts :: "prewrite_mutation \<Rightarrow> bool" where
  "need_min_commit_ts m = (case tp_commit_kind (pm_props m) of TwoPc \<Rightarrow> False | _ \<Rightarrow> True)"

definition try_one_pc :: "prewrite_mutation \<Rightarrow> bool" where
  "try_one_pc m = (case tp_commit_kind (pm_props m) of OnePc _ \<Rightarrow> True | _ \<Rightarrow> False)"

subsection \<open>Newer versions and assertions\<close>

definition st_set_last_change :: "last_change \<Rightarrow> (pw_state, unit) steps" where
  "st_set_last_change lc s = (Ok (), s\<lparr>ps_mut := (ps_mut s)\<lparr>pm_last_change := lc\<rparr>\<rparr>)"

text \<open>What the kind of the transaction says about a version: go on below it, or take it.\<close>

definition newer_version_conflict :: "timestamp \<Rightarrow> write_record \<Rightarrow> (pw_state, bool) steps" where
  "newer_version_conflict commit_ts w s =
     (let m = ps_mut s; start_ts = tp_start_ts (pm_props m) in
      (case tp_kind (pm_props m) of
         Optimistic _ \<Rightarrow>
           if commit_ts > start_ts then write_conflict_error m w commit_ts CrOptimistic else Ok False
       | Pessimistic for_update_ts \<Rightarrow>
           if pm_pessimistic_action m = DoConstraintCheck \<and> commit_ts > start_ts
           then write_conflict_error m w commit_ts CrLazyUniquenessCheck
           else if commit_ts > for_update_ts
           then if w_write_type w = WtRollback then Ok True
                else and_then (raw_key (pm_key m)) (\<lambda>raw. Err (MvPessimisticLockNotFound start_ts raw NonLockKeyConflict))
           else Ok False, s))"

primrec newer_version_loop :: "nat \<Rightarrow> timestamp \<Rightarrow> (pw_state, (write_record \<times> timestamp) option) steps" where
  "newer_version_loop 0 seek_ts s = (Panic, s)"
| "newer_version_loop (Suc n) seek_ts s =
     st_bind (st_read (\<lambda>r. sr_seek_write r (pm_key (ps_mut s)) seek_ts)) (\<lambda>res.
     case res of
       None \<Rightarrow> st_bind (if seek_ts = ts_max then st_set_last_change LcNotExist else st_return ()) (\<lambda>_. st_return None)
     | Some (commit_ts, w) \<Rightarrow>
         if commit_ts = tp_start_ts (pm_props (ps_mut s)) \<and> (w_write_type w = WtRollback \<or> w_has_overlapped_rollback w)
         then st_lift (write_conflict_error (ps_mut s) w commit_ts CrSelfRolledBack)
         else
           st_bind
             (if seek_ts = ts_max
              then st_bind (st_read (\<lambda>r. next_last_change_info (pm_key (ps_mut s)) w (sr_start_ts r) r commit_ts)) st_set_last_change
              else st_return ()) (\<lambda>_.
           st_bind (newer_version_conflict commit_ts w) (\<lambda>below.
           if below then st_bind (st_lift (ts_prev commit_ts)) (newer_version_loop n)
           else
             st_bind (st_read (\<lambda>r. map_ok (\<lambda>r. ((), r))
               (check_data_constraint r (pm_should_not_exist (ps_mut s)) w commit_ts (pm_key (ps_mut s))))) (\<lambda>_.
             st_return (Some (w, commit_ts)))))) s"

definition check_for_newer_version :: "(pw_state, (write_record \<times> timestamp) option) steps" where
  "check_for_newer_version s = newer_version_loop (write_fuel (sr_reader (ps_reader s))) ts_max s"

definition check_assertion ::
  "(write_record \<times> timestamp) option \<Rightarrow> bool \<Rightarrow> (pw_state, (write_record \<times> timestamp) option \<times> bool) steps" where
  "check_assertion w write_loaded s =
     (let m = ps_mut s; level = tp_assertion_level (pm_props m) in
      if pm_assertion m = ANone \<or> level = AlOff then (Ok (None, False), s)
      else if level \<noteq> AlStrict \<and> \<not> write_loaded then (Ok (None, False), s)
      else
        let w = (if write_loaded \<and>
                    (case w of Some (w, _) \<Rightarrow> (case w_gc_fence w of Some ts \<Rightarrow> \<not> ts_is_zero ts | None \<Rightarrow> False)
                     | None \<Rightarrow> False)
                 then None else w);
            need_reload = (\<not> write_loaded \<or>
              (case w of Some (w, _) \<Rightarrow> w_write_type w \<noteq> WtPut \<and> w_write_type w \<noteq> WtDelete | None \<Rightarrow> False)) in
        st_bind
          (if need_reload
           then st_bind (st_read (\<lambda>r. sr_get_write_with_commit_ts r (pm_key m)
                  (case w of Some (_, ts) \<Rightarrow> ts | None \<Rightarrow> ts_max))) (\<lambda>reloaded. st_return (reloaded, reloaded, True))
           else st_return (w, None, False)) (\<lambda>(w, reloaded_write, reloaded).
        let assertion_err =
              (case (pm_assertion m, w) of
                 (AExist, None) \<Rightarrow> assertion_failed_error m ts_zero ts_zero
               | (AExist, Some (w, commit_ts)) \<Rightarrow>
                   if w_write_type w = WtDelete then assertion_failed_error m (w_start_ts w) commit_ts else Ok ()
               | (ANotExist, Some (w, commit_ts)) \<Rightarrow>
                   if w_write_type w = WtPut then assertion_failed_error m (w_start_ts w) commit_ts else Ok ()
               | _ \<Rightarrow> Ok ()) in
        st_bind
          (case assertion_err of
             Ok _ \<Rightarrow> st_return ()
           | _ \<Rightarrow>
               st_bind (if skip_constraint_check m then st_bind check_for_newer_version (\<lambda>_. st_return ()) else st_return ())
                 (\<lambda>_. st_lift assertion_err)) (\<lambda>_.
        st_return (reloaded_write, reloaded))) s)"

definition amend_pessimistic_lock :: "(pw_state, unit) steps" where
  "amend_pessimistic_lock s =
     st_bind (st_read (\<lambda>r. sr_seek_write r (pm_key (ps_mut s)) ts_max)) (\<lambda>w.
     st_bind
       (case w of
          Some (commit_ts, w) \<Rightarrow>
            (\<lambda>s. let start_ts = sr_start_ts (ps_reader s) in
              if commit_ts \<ge> start_ts
              then (and_then (raw_key (pm_key (ps_mut s))) (\<lambda>raw.
                      Err (MvPessimisticLockNotFound start_ts raw LockMissingAmendFail)), s)
              else
                st_bind (st_read (\<lambda>r. next_last_change_info (pm_key (ps_mut s)) w start_ts r commit_ts))
                  st_set_last_change s)
        | None \<Rightarrow> st_set_last_change LcNotExist) (\<lambda>_.
     st_bind (check_assertion (map_option (\<lambda>(ts, w). (w, ts)) w) True) (\<lambda>_. st_return ()))) s"

subsection \<open>Writing the lock\<close>

text \<open>
  The guard of the key is taken, the smallest allowed commit timestamp is computed above the largest timestamp
  of the readers, and the lock becomes visible in memory. If the timestamp is too large the guard is dropped.
  The first definition is the part of the critical section after \<^verbatim>\<open>max_ts\<close> is loaded.
\<close>

definition lock_with_min_commit_ts ::
  "lock \<Rightarrow> timestamp \<Rightarrow> timestamp \<Rightarrow> timestamp \<Rightarrow> timestamp \<Rightarrow> (lock, mvcc_error) result" where
  "lock_with_min_commit_ts l start_ts for_update_ts max_commit_ts max_ts =
     and_then (ts_next (max (max max_ts start_ts) for_update_ts)) (\<lambda>next.
       let min_commit_ts = max (l_min_commit_ts l) next in
       if \<not> ts_is_zero max_commit_ts \<and> min_commit_ts > max_commit_ts
       then Err (MvCommitTsTooLarge start_ts min_commit_ts max_commit_ts)
       else Ok (l\<lparr>l_min_commit_ts := min_commit_ts\<rparr>))"

definition async_commit_timestamps ::
  "key \<Rightarrow> lock \<Rightarrow> timestamp \<Rightarrow> timestamp \<Rightarrow> timestamp \<Rightarrow> mvcc_txn \<Rightarrow> concurrency_manager \<Rightarrow>
     (timestamp, mvcc_error) result \<times> lock \<times> mvcc_txn \<times> concurrency_manager" where
  "async_commit_timestamps key l start_ts for_update_ts max_commit_ts txn cm =
     (let locked = lock_key (cm_lock_table cm) key in
      case lock_with_min_commit_ts l start_ts for_update_ts max_commit_ts (cm_max_ts cm) of
        Ok l \<Rightarrow>
          (Ok (l_min_commit_ts l), l, txn\<lparr>t_guards := t_guards txn @ [key]\<rparr>,
           cm\<lparr>cm_lock_table := guard_with_lock locked key (Some l)\<rparr>)
      | Err e \<Rightarrow> (Err e, l, txn, cm\<lparr>cm_lock_table := drop_guard locked key True\<rparr>)
      | Panic \<Rightarrow> (Panic, l, txn, cm\<lparr>cm_lock_table := locked\<rparr>))"

definition lock_of_mutation :: "bool \<Rightarrow> prewrite_mutation \<Rightarrow> lock_type \<Rightarrow> lock_status \<Rightarrow> u64 \<Rightarrow> lock" where
  "lock_of_mutation last_change_enabled m lock_type status generation =
     (let props = pm_props m;
          for_update_ts = (case status of LsPessimistic ts \<Rightarrow> max (tp_for_update_ts props) ts | _ \<Rightarrow> tp_for_update_ts props);
          l = lock_with_generation
                (lock_set_txn_source
                  (lock_new lock_type (tp_primary props) (tp_start_ts props) (pm_lock_ttl m) None for_update_ts
                    (tp_txn_size props) (pm_min_commit_ts m) False) (tp_txn_source props)) generation;
          l = (if last_change_enabled \<and> pm_lock_type m = Some LtLock then lock_set_last_change l (pm_last_change m) else l) in
      case pm_value m of
        Some v \<Rightarrow> if is_short_value v then l\<lparr>l_short_value := Some v\<rparr> else l
      | None \<Rightarrow> l)"

definition write_lock ::
  "prewrite_env \<Rightarrow> lock_status \<Rightarrow> bool \<Rightarrow> u64 \<Rightarrow> (pw_state, timestamp) steps" where
  "write_lock env status is_new_lock generation s =
     (let m = ps_mut s; props = pm_props m in
      case pm_lock_type m of
        None \<Rightarrow> (Panic, s)
      | Some lock_type \<Rightarrow>
          let l = lock_of_mutation (pe_last_change env) m lock_type status generation;
              txn = (case pm_value m of
                       Some v \<Rightarrow> if is_short_value v then ps_txn s
                                 else put_value (ps_txn s) (pm_key m) (tp_start_ts props) v
                     | None \<Rightarrow> ps_txn s);
              l = (case pm_secondary_keys m of
                     Some keys \<Rightarrow> lock_use_async_commit l keys
                   | None \<Rightarrow> if try_one_pc m then l\<lparr>l_use_one_pc := True\<rparr> else l);
              store = (\<lambda>res one_pc l txn cm.
                if one_pc
                then (res, s\<lparr>ps_txn := put_locks_for_1pc txn (pm_key m) l (has_pessimistic_lock status), ps_cm := cm\<rparr>)
                else
                  (case put_lock txn (pm_key m) l is_new_lock of
                     Ok txn \<Rightarrow> (res, s\<lparr>ps_txn := txn, ps_cm := cm\<rparr>)
                   | _ \<Rightarrow> (Panic, s\<lparr>ps_txn := txn, ps_cm := cm\<rparr>))) in
          if l_use_async_commit l \<or> try_one_pc m
          then
            (case tp_max_commit_ts props of
               Ok max_commit_ts \<Rightarrow>
                 let (res, l, txn, cm) =
                   async_commit_timestamps (pm_key m) l (tp_start_ts props) (tp_for_update_ts props) max_commit_ts txn (ps_cm s) in
                 (case res of
                    Ok _ \<Rightarrow> store res (try_one_pc m) l txn cm
                  | Err _ \<Rightarrow>
                      store res False (l\<lparr>l_use_one_pc := False, l_use_async_commit := False, l_secondaries := []\<rparr>) txn cm
                  | Panic \<Rightarrow> (Panic, s\<lparr>ps_txn := txn, ps_cm := cm\<rparr>))
             | _ \<Rightarrow> (Panic, s\<lparr>ps_txn := txn\<rparr>))
          else store (Ok ts_zero) False l txn (ps_cm s))"

subsection \<open>Prewrite\<close>

definition prewrite_old_value ::
  "bool \<Rightarrow> write_record option \<Rightarrow> (pw_state, old_value) steps" where
  "prewrite_old_value prev_write_loaded prev_write s =
     (let m = ps_mut s; props = pm_props m in
      if tp_need_old_value props \<and> pm_mutation_type m \<in> {MtPut, MtDelete, MtInsert}
      then
        if pm_mutation_type m = MtInsert then (Ok OvNone, s)
        else if skip_constraint_check m
        then (Ok (if tp_is_pessimistic props then OvUnspecified else OvNone), s)
        else
          st_read (\<lambda>r. sr_get_old_value r (pm_key m)
            (case tp_kind props of Optimistic _ \<Rightarrow> tp_start_ts props | Pessimistic for_update_ts \<Rightarrow> for_update_ts)
            prev_write_loaded prev_write) s
      else (Ok OvUnspecified, s))"

text \<open>
  The status that the lock on the key gives, and whether a lost pessimistic lock was amended; then the early return, the
  constraint checks and the write.
\<close>

definition prewrite_lock_status ::
  "pessimistic_action \<Rightarrow> timestamp option \<Rightarrow> u64 \<Rightarrow> lock option \<Rightarrow> (pw_state, lock_status \<times> bool) steps" where
  "prewrite_lock_status action expected_for_update_ts generation lo =
     (case lo of
        Some l \<Rightarrow> st_bind (check_lock l action expected_for_update_ts generation) (\<lambda>status. st_return (status, False))
      | None \<Rightarrow>
          if action = DoPessimisticCheck
          then (if generation = 0 then st_bind amend_pessimistic_lock (\<lambda>_. st_return (LsNone, True))
                else st_lift Panic)
          else st_return (LsNone, False))"

definition prewrite_with_status ::
  "prewrite_env \<Rightarrow> pessimistic_action \<Rightarrow> u64 \<Rightarrow> timestamp \<Rightarrow> lock_status \<Rightarrow> bool \<Rightarrow> (pw_state, timestamp \<times> old_value) steps" where
  "prewrite_with_status env action generation start_ts status lock_amended =
     (case (status, generation = 0) of (LsLocked ts, True) \<Rightarrow> st_return (ts, OvUnspecified) | _ \<Rightarrow>
     let is_subsequent_flush = (generation > 0 \<and> (case status of LsLocked _ \<Rightarrow> True | _ \<Rightarrow> False)) in
     st_bind (\<lambda>s. if \<not> skip_constraint_check (ps_mut s)
                  then st_bind check_for_newer_version (\<lambda>w. st_return (w, True)) s
                  else (Ok (None, False), s)) (\<lambda>(prev_write, prev_write_loaded).
     st_bind
       (if \<not> lock_amended \<and> \<not> is_subsequent_flush
        then st_bind (check_assertion prev_write prev_write_loaded) (\<lambda>(reloaded_prev_write, reloaded).
               st_return (if reloaded then (reloaded_prev_write, True) else (prev_write, prev_write_loaded)))
        else st_return (prev_write, prev_write_loaded)) (\<lambda>(prev_write, prev_write_loaded).
     (\<lambda>s. if pm_should_not_write (ps_mut s)
      then
        st_bind (st_update_max_ts env 1 start_ts) (\<lambda>_ s.
          (if need_min_commit_ts (ps_mut s)
           then map_ok (\<lambda>next. (max (tp_min_commit_ts (pm_props (ps_mut s))) next, OvUnspecified)) (ts_next start_ts)
           else Ok (ts_zero, OvUnspecified), s)) s
      else
        st_bind (prewrite_old_value prev_write_loaded (map_option fst prev_write)) (\<lambda>old_value.
        st_bind (write_lock env status (action \<noteq> DoPessimisticCheck \<or> lock_amended) generation) (\<lambda>final_min_commit_ts.
        st_return (final_min_commit_ts, old_value))) s))))"

definition prewrite_checked ::
  "prewrite_env \<Rightarrow> pessimistic_action \<Rightarrow> timestamp option \<Rightarrow> u64 \<Rightarrow> (pw_state, timestamp \<times> old_value) steps" where
  "prewrite_checked env action expected_for_update_ts generation s =
     (let start_ts = tp_start_ts (pm_props (ps_mut s)) in
     st_bind (if pm_should_not_exist (ps_mut s) then st_update_max_ts env 0 start_ts else st_return ()) (\<lambda>_.
     st_bind (\<lambda>s. st_read (\<lambda>r. sr_load_lock r (pm_key (ps_mut s))) s) (\<lambda>lo.
     st_bind (prewrite_lock_status action expected_for_update_ts generation lo) (\<lambda>(status, lock_amended).
     prewrite_with_status env action generation start_ts status lock_amended))) s)"

text \<open>The outcome with the batch, the concurrency manager and the reader it leaves behind.\<close>

definition prewrite_with_generation ::
  "prewrite_env \<Rightarrow> mvcc_txn \<Rightarrow> concurrency_manager \<Rightarrow> snapshot_reader \<Rightarrow> transaction_properties \<Rightarrow> mutation \<Rightarrow>
     bytes list option \<Rightarrow> pessimistic_action \<Rightarrow> timestamp option \<Rightarrow> u64 \<Rightarrow>
     (timestamp \<times> old_value, mvcc_error) result \<times> mvcc_txn \<times> concurrency_manager \<times> snapshot_reader" where
  "prewrite_with_generation env txn cm r props mut secondary_keys action expected_for_update_ts generation =
     (case from_mutation mut secondary_keys action props of
        Ok m \<Rightarrow>
          let (res, s) = prewrite_checked env action expected_for_update_ts generation
                \<lparr>ps_txn = txn, ps_cm = cm, ps_reader = r, ps_mut = m\<rparr> in
          (res, ps_txn s, ps_cm s, ps_reader s)
      | Err e \<Rightarrow> (Err e, txn, cm, r)
      | Panic \<Rightarrow> (Panic, txn, cm, r))"

definition prewrite ::
  "prewrite_env \<Rightarrow> mvcc_txn \<Rightarrow> concurrency_manager \<Rightarrow> snapshot_reader \<Rightarrow> transaction_properties \<Rightarrow> mutation \<Rightarrow>
     bytes list option \<Rightarrow> pessimistic_action \<Rightarrow> timestamp option \<Rightarrow>
     (timestamp \<times> old_value, mvcc_error) result \<times> mvcc_txn \<times> concurrency_manager \<times> snapshot_reader" where
  "prewrite env txn cm r props mut secondary_keys action expected_for_update_ts =
     prewrite_with_generation env txn cm r props mut secondary_keys action expected_for_update_ts 0"

end
