(* ===== verification/Txn_Lifecycle.thy ===== *)
theory Txn_Lifecycle
  imports Prewrite Gc
begin

text \<open>
  The actions composed: what a prewrite does to a store, that a transaction that prewrites, commits and
  is read back shows its value, and that it cannot overwrite a value it has not seen.
\<close>

subsection \<open>Optimistic prewrite\<close>

definition optimistic_props :: "transaction_properties \<Rightarrow> timestamp \<Rightarrow> bool" where
  "optimistic_props p s \<longleftrightarrow> tp_start_ts p = s \<and> tp_kind p = Optimistic False"

lemma from_mutation_optimistic:
  assumes "optimistic_props p s"
  shows "\<exists>m. from_mutation mut sec action p = Ok m \<and> pm_key m = fst (into_key_value mut) \<and>
    pm_value m = snd (into_key_value mut) \<and> pm_props m = p \<and> pm_should_not_exist m = should_not_exists mut \<and>
    pm_should_not_write m = should_not_write mut \<and> pm_lock_type m = lock_type_from_mutation mut \<and>
    pm_assertion m = get_assertion mut \<and> pm_mutation_type m = mutation_mutation_type mut \<and> pm_secondary_keys m = sec \<and>
    pm_min_commit_ts m = tp_min_commit_ts p \<and> pm_lock_ttl m = tp_lock_ttl p \<and> \<not> skip_constraint_check m"
  using assms
  by (auto simp: from_mutation_def optimistic_props_def tp_is_pessimistic_def skip_constraint_check_def Let_def split: prod.splits)

lemma make_exist_Ok: "ts \<noteq> 0 \<Longrightarrow> n \<noteq> 0 \<Longrightarrow> make_exist ts n = Ok (LcExist ts n)"
  by (simp add: make_exist_def ts_is_zero_def word_gt_0)

lemma write_fuel_Suc: "\<exists>n. write_fuel r = Suc n"
  by (simp add: write_fuel_def)

text \<open>
  The search for a newer version passes over one version per round, so with a round for each version
  of the key the result does not depend on the fuel.
\<close>

lemma st_bind_cong_Ok:
  "(\<And>x s'. m s = (Ok x, s') \<Longrightarrow> f x s' = g x s') \<Longrightarrow> st_bind m f s = st_bind m g s"
  by (auto simp: st_bind_def split: prod.splits result.splits)

lemma next_last_change_reader_on:
  "reader_on e t r \<Longrightarrow> next_last_change_info key w start r c = Ok (lc, r') \<Longrightarrow> reader_on e t r'"
  by (auto simp: next_last_change_info_def reader_on_def reader_ok_def Let_def result_simps case_prod_unfold
      split: if_splits last_change.splits option.splits)

lemma newer_version_conflict_state: "snd (newer_version_conflict c w s) = s"
  by (simp add: newer_version_conflict_def Let_def)

lemma newer_version_loop_fuel:
  assumes "reader_on e t (ps_reader s)" "pm_key (ps_mut s) = from_raw raw"
    "length (dropWhile (\<lambda>v. ts < fst v) (versions e (from_raw raw))) < n"
    "length (dropWhile (\<lambda>v. ts < fst v) (versions e (from_raw raw))) < m"
  shows "newer_version_loop n ts s = newer_version_loop m ts s"
  using assms
proof (induction n arbitrary: m ts s)
  case (Suc n)
  let ?vs = "versions e (from_raw raw)"
  obtain m' where m: "m = Suc m'" using Suc.prems(4) by (cases m) auto
  obtain r1 where r1: "sr_seek_write (ps_reader s) (from_raw raw) ts = Ok (latest ?vs ts, r1)" "reader_on e t r1"
    using sr_seek_write_eq [OF Suc.prems(1)] by blast
  then have seek: "st_read (\<lambda>r. sr_seek_write r (pm_key (ps_mut s)) ts) s = (Ok (latest ?vs ts), s\<lparr>ps_reader := r1\<rparr>)"
    using Suc.prems(2) by (simp add: st_read_def)
  have again: "newer_version_loop n t' s' = newer_version_loop m' t' s'"
    if c: "latest ?vs ts = Some (c, w)" "ts_prev c = Ok t'" and s': "reader_on e t (ps_reader s')" "pm_key (ps_mut s') = from_raw raw"
    for c w t' s'
  proof -
    obtain rest where d: "dropWhile (\<lambda>v. ts < fst v) ?vs = (c, w) # rest"
      using c(1) by (auto simp: latest_dropWhile split: list.splits)
    have "0 < c" "t' = c - 1" using c(2) by (auto simp: ts_prev_def result_simps)
    then have "dropWhile (\<lambda>v. t' < fst v) ?vs = rest"
      using dropWhile_next [OF newest_first_store [OF reader_onD(1) [OF Suc.prems(1)]] d] by simp
    then show ?thesis using Suc.IH [OF s', of t' m'] Suc.prems(3,4) d m by simp
  qed
  show ?case
  proof (cases "latest ?vs ts")
    case None
    then show ?thesis unfolding m newer_version_loop.simps st_bind_Ok [where m = "st_read _", OF seek] by simp
  next
    case (Some v)
    obtain c w where v: "v = (c, w)" by (cases v)
    note unfold_loop = m newer_version_loop.simps st_bind_Ok [where m = "st_read _", OF seek] Some v option.case prod.case
    show ?thesis
    proof (cases "c = tp_start_ts (pm_props (ps_mut s)) \<and> (w_write_type w = WtRollback \<or> w_has_overlapped_rollback w)")
      case True
      show ?thesis unfolding unfold_loop if_P [OF True] ..
    next
      case False
      have keep: "reader_on e t (ps_reader s2) \<and> pm_key (ps_mut s2) = from_raw raw"
        if "(if ts = ts_max
             then st_bind (st_read (\<lambda>r. next_last_change_info (pm_key (ps_mut s)) w (sr_start_ts r) r c)) st_set_last_change
             else st_return ()) (s\<lparr>ps_reader := r1\<rparr>) = (Ok u, s2)" for u s2
        using that Suc.prems(2) r1(2)
        by (auto simp: st_bind_def st_read_def st_set_last_change_def next_last_change_reader_on
            split: if_splits result.splits)
      have rec: "st_bind (st_lift (ts_prev c)) (newer_version_loop n) s3 = st_bind (st_lift (ts_prev c)) (newer_version_loop m') s3"
        if "reader_on e t (ps_reader s2) \<and> pm_key (ps_mut s2) = from_raw raw"
          "newer_version_conflict c w s2 = (Ok below, s3)" for s2 s3 below
      proof -
        have "s3 = s2" using newer_version_conflict_state [of c w s2] that(2) by simp
        then show ?thesis using again that(1) Some v by (intro st_bind_cong_Ok) auto
      qed
      show ?thesis
        unfolding unfold_loop if_not_P [OF False]
        by (rule st_bind_cong_Ok, drule keep, rule st_bind_cong_Ok, drule (1) rec) simp
    qed
  qed
qed simp

lemma check_for_newer_version_fuel:
  assumes "reader_on e t (ps_reader s)" "pm_key (ps_mut s) = from_raw raw" "write_fuel (sr_reader (ps_reader s)) \<le> n"
  shows "check_for_newer_version s = newer_version_loop n ts_max s"
proof -
  have "length (dropWhile (\<lambda>v. ts_max < fst v) (versions e (from_raw raw))) < write_fuel (sr_reader (ps_reader s))"
    using write_fuel_enough [of "\<lambda>v. ts_max < fst v" "sr_reader (ps_reader s)" "from_raw raw"] reader_onD(3) [OF assms(1)] by simp
  then show ?thesis
    using assms(3) unfolding check_for_newer_version_def
    by (intro newer_version_loop_fuel [OF assms(1,2)]) auto
qed

lemma raw_key_of_from_raw [simp]: "raw_key_of (from_raw raw) = Ok raw"
  by (simp add: raw_key_of_def)

text \<open>The newest version of the key decides.\<close>

lemma check_newer_conflict:
  assumes "reader_on e s (ps_reader st)" "pm_key (ps_mut st) = from_raw raw" "optimistic_props (pm_props (ps_mut st)) s"
    "latest (versions e (from_raw raw)) ts_max = Some (c, w)" "s < c" "is_change w"
  shows "\<exists>st'. check_for_newer_version st =
      (Err (MvWriteConflict s (w_start_ts w) c raw (tp_primary (pm_props (ps_mut st))) CrOptimistic), st') \<and>
    ps_txn st' = ps_txn st \<and> ps_cm st' = ps_cm st"
proof -
  obtain n where n: "write_fuel (sr_reader (ps_reader st)) = Suc n" using write_fuel_Suc by blast
  obtain r1 where r1: "sr_seek_write (ps_reader st) (from_raw raw) ts_max = Ok (Some (c, w), r1)" "reader_on e s r1"
    using sr_seek_write_eq [OF assms(1), of raw ts_max] assms(4) by auto
  have "c \<noteq> 0" using assms(5) by auto
  then have "next_last_change_info (from_raw raw) w (sr_start_ts r1) r1 c = Ok (LcExist c 1, r1)"
    using assms(6) by (auto simp: next_last_change_info_def is_change_def make_exist_Ok)
  then show ?thesis
    using n r1 assms(2,3,5)
    by (auto simp: check_for_newer_version_def st_set_last_change_def newer_version_conflict_def write_conflict_error_def
        optimistic_props_def Let_def)
qed

lemma prewrite_conflict:
  assumes "reader_on e s r" "stored_lock e (from_raw raw) = None" "optimistic_props p s"
    "fst (into_key_value mut) = from_raw raw" "\<not> should_not_exists mut"
    "latest (versions e (from_raw raw)) ts_max = Some (c, w)" "s < c" "is_change w"
  shows "\<exists>r'. prewrite env txn cm r p mut sec SkipPessimisticCheck None =
      (Err (MvWriteConflict s (w_start_ts w) c raw (tp_primary p) CrOptimistic), txn, cm, r')"
proof -
  obtain m where m: "from_mutation mut sec SkipPessimisticCheck p = Ok m" "pm_key m = from_raw raw" "pm_props m = p"
    "\<not> pm_should_not_exist m" "\<not> skip_constraint_check m"
    using from_mutation_optimistic [OF assms(3), of mut sec SkipPessimisticCheck] assms(4,5) by auto
  obtain r1 where r1: "sr_load_lock r (from_raw raw) = Ok (None, r1)" "reader_on e s r1"
    using sr_load_lock_eq [OF assms(1), of "from_raw raw"] assms(2) by auto
  let ?st = "\<lparr>ps_txn = txn, ps_cm = cm, ps_reader = r1, ps_mut = m\<rparr>"
  obtain st' where st': "check_for_newer_version ?st =
      (Err (MvWriteConflict s (w_start_ts w) c raw (tp_primary p) CrOptimistic), st')" "ps_txn st' = txn" "ps_cm st' = cm"
    using check_newer_conflict [of e s ?st raw c w] r1(2) m assms(3,6-8) by auto
  show ?thesis
    using m r1(1) st'
    by (auto simp: prewrite_def prewrite_with_generation_def prewrite_checked_def prewrite_lock_status_def prewrite_with_status_def Let_def)
qed

text \<open>
  The newest version says where the last change below it is, or is a change itself, and its estimate of
  the versions in between has room to grow.
\<close>

definition newest_known :: "(timestamp \<times> write_record) list \<Rightarrow> bool" where
  "newest_known vs \<longleftrightarrow>
     (case latest vs ts_max of
        None \<Rightarrow> True
      | Some (c, w) \<Rightarrow> 0 < c \<and>
          (is_change w \<or>
           (case w_last_change w of LcUnknown \<Rightarrow> False | LcNotExist \<Rightarrow> True | LcExist _ n \<Rightarrow> n \<noteq> - 1)))"

lemma next_last_change_known:
  assumes "newest_known vs" "latest vs ts_max = Some (c, w)" "write_wf w"
  shows "\<exists>lc. next_last_change_info key w start r c = Ok (lc, r)"
proof -
  have k: "c \<noteq> 0" "is_change w \<or> (case w_last_change w of LcUnknown \<Rightarrow> False | LcNotExist \<Rightarrow> True | LcExist _ n \<Rightarrow> n \<noteq> - 1)"
    using assms(1,2) by (auto simp: newest_known_def)
  show ?thesis
  proof (cases "is_change w")
    case True
    then show ?thesis using k(1) by (auto simp: next_last_change_info_def is_change_def make_exist_Ok)
  next
    case False
    then consider "w_last_change w = LcNotExist" | t n where "w_last_change w = LcExist t n" "n \<noteq> - 1"
      using k(2) by (auto split: last_change.splits)
    then show ?thesis
    proof cases
      case 1
      then show ?thesis using False by (auto simp: next_last_change_info_def is_change_def)
    next
      case (2 t n)
      have "t \<noteq> 0" using assms(3) 2(1) by (simp add: write_wf_def)
      moreover have "n + 1 \<noteq> 0" using 2(2) by (metis add_eq_0_iff2)
      ultimately show ?thesis
        using False 2(1) by (auto simp: next_last_change_info_def is_change_def make_exist_Ok)
    qed
  qed
qed

lemma check_newer_ok:
  assumes "reader_on e s (ps_reader st)" "pm_key (ps_mut st) = from_raw raw" "optimistic_props (pm_props (ps_mut st)) s"
    "newest_known (versions e (from_raw raw))" "\<forall>c w. records e (from_raw raw) c = Some w \<longrightarrow> c < s"
    "\<not> pm_should_not_exist (ps_mut st)"
  shows "\<exists>lc r. check_for_newer_version st =
      (Ok (map_option (\<lambda>(c, w). (w, c)) (latest (versions e (from_raw raw)) ts_max)),
       st\<lparr>ps_reader := r, ps_mut := (ps_mut st)\<lparr>pm_last_change := lc\<rparr>\<rparr>) \<and> reader_on e s r"
proof -
  obtain n where n: "write_fuel (sr_reader (ps_reader st)) = Suc n" using write_fuel_Suc by blast
  let ?vs = "versions e (from_raw raw)"
  obtain r1 where r1: "sr_seek_write (ps_reader st) (from_raw raw) ts_max = Ok (latest ?vs ts_max, r1)" "reader_on e s r1"
    using sr_seek_write_eq [OF assms(1), of raw ts_max] by auto
  show ?thesis
  proof (cases "latest ?vs ts_max")
    case None
    then show ?thesis using n r1 assms(2)
      by (intro exI [of _ LcNotExist] exI [of _ r1]) (simp add: check_for_newer_version_def st_set_last_change_def)
  next
    case (Some cw)
    then obtain c w where cw: "latest ?vs ts_max = Some (c, w)" by (cases cw) auto
    note se = reader_onD(1) [OF assms(1)]
    have rec: "records e (from_raw raw) c = Some w"
      using cw latest_Some [OF newest_first_store [OF se]] in_versions [OF se] by auto
    then have lt: "c < s" using assms(5) by blast
    obtain lc where lc: "next_last_change_info (from_raw raw) w (sr_start_ts r1) r1 c = Ok (lc, r1)"
      using next_last_change_known [OF assms(4) cw records_wf [OF se rec]] by blast
    have d: "check_data_constraint r1 False w c (from_raw raw) = Ok r1" by (simp add: check_data_constraint_def)
    have ne: "c \<noteq> s" "\<not> s < c" using lt by auto
    let ?st = "st\<lparr>ps_reader := r1, ps_mut := (ps_mut st)\<lparr>pm_last_change := lc\<rparr>\<rparr>"
    have "newer_version_conflict c w ?st = (Ok False, ?st)"
      using assms(3) ne(2) by (simp add: newer_version_conflict_def optimistic_props_def Let_def)
    then show ?thesis
      using n r1 cw lc ne d assms(2,3,6)
      by (intro exI [of _ lc] exI [of _ r1])
        (simp add: check_for_newer_version_def st_set_last_change_def optimistic_props_def)
  qed
qed

definition two_phase_props :: "transaction_properties \<Rightarrow> timestamp \<Rightarrow> bool" where
  "two_phase_props p s \<longleftrightarrow>
     optimistic_props p s \<and> tp_commit_kind p = TwoPc \<and> \<not> tp_need_old_value p \<and> tp_assertion_level p = AlOff \<and>
     length (tp_primary p) < 2 ^ 63"

text \<open>The lock of a put in a two-phase transaction.\<close>

definition put_lock_of :: "transaction_properties \<Rightarrow> val \<Rightarrow> lock" where
  "put_lock_of p v =
     (let l = lock_with_generation
            (lock_set_txn_source
              (lock_new LtPut (tp_primary p) (tp_start_ts p) (tp_lock_ttl p) None 0 (tp_txn_size p) (tp_min_commit_ts p) False)
              (tp_txn_source p)) 0 in
      if is_short_value v then l\<lparr>l_short_value := Some v\<rparr> else l)"

lemma put_lock_of_simps:
  "l_lock_type (put_lock_of p v) = LtPut" "l_ts (put_lock_of p v) = tp_start_ts p"
  "l_min_commit_ts (put_lock_of p v) = tp_min_commit_ts p" "l_rollback_ts (put_lock_of p v) = []"
  "l_short_value (put_lock_of p v) = (if is_short_value v then Some v else None)"
  "two_phase_props p s \<Longrightarrow> lock_wf (put_lock_of p v)"
  by (simp_all add: put_lock_of_def lock_new_def lock_set_txn_source_def lock_with_generation_def Let_def lock_wf_def two_phase_props_def)

lemma prewrite_put:
  assumes "reader_on e s r" "stored_lock e (from_raw raw) = None" "two_phase_props p s"
    "newest_known (versions e (from_raw raw))" "\<forall>c w. records e (from_raw raw) c = Some w \<longrightarrow> c < s"
  shows "\<exists>txn' r'. prewrite env txn cm r p (make_put (from_raw raw) v) None SkipPessimisticCheck None =
      (Ok (ts_zero, OvUnspecified), txn', cm, r') \<and>
    t_modifies txn' = t_modifies txn @
      (if is_short_value v then [] else [ModPut CF_DEFAULT (append_ts (from_raw raw) s) v]) @
      [ModPut CF_LOCK (from_raw raw) (lock_to_bytes (put_lock_of p v))]"
proof -
  have op: "optimistic_props p s" using assms(3) by (simp add: two_phase_props_def)
  obtain m where m: "from_mutation (make_put (from_raw raw) v) None SkipPessimisticCheck p = Ok m" "pm_key m = from_raw raw"
    "pm_value m = Some v" "pm_props m = p" "\<not> pm_should_not_exist m" "\<not> pm_should_not_write m" "pm_lock_type m = Some LtPut"
    "pm_secondary_keys m = None" "pm_min_commit_ts m = tp_min_commit_ts p" "pm_lock_ttl m = tp_lock_ttl p" "\<not> skip_constraint_check m"
    using from_mutation_optimistic [OF op, of "make_put (from_raw raw) v" None SkipPessimisticCheck] by (auto simp: make_put_def)
  obtain r1 where r1: "sr_load_lock r (from_raw raw) = Ok (None, r1)" "reader_on e s r1"
    using sr_load_lock_eq [OF assms(1), of "from_raw raw"] assms(2) by auto
  let ?st = "\<lparr>ps_txn = txn, ps_cm = cm, ps_reader = r1, ps_mut = m\<rparr>"
  obtain lc r2 where c: "check_for_newer_version ?st =
      (Ok (map_option (\<lambda>(c, w). (w, c)) (latest (versions e (from_raw raw)) ts_max)),
       ?st\<lparr>ps_reader := r2, ps_mut := m\<lparr>pm_last_change := lc\<rparr>\<rparr>)"
    using check_newer_ok [of e s ?st raw] r1(2) m(2,4,5) op assms(4,5) by auto
  let ?m = "m\<lparr>pm_last_change := lc\<rparr>"
  have l: "lock_of_mutation (pe_last_change env) ?m LtPut LsNone 0 = put_lock_of p v"
    using m op by (simp add: lock_of_mutation_def put_lock_of_def tp_for_update_ts_def optimistic_props_def ts_zero_def Let_def)
  have t: "\<not> try_one_pc ?m" "\<not> l_use_async_commit (put_lock_of p v)" "tp_start_ts p = s"
    using m(4) assms(3)
    by (simp_all add: try_one_pc_def two_phase_props_def optimistic_props_def put_lock_of_def lock_new_def
        lock_set_txn_source_def lock_with_generation_def Let_def)
  let ?txn = "if is_short_value v then txn else put_value txn (from_raw raw) s v"
  obtain txn' where txn': "put_lock ?txn (from_raw raw) (put_lock_of p v) True = Ok txn'"
    "t_modifies txn' = t_modifies ?txn @ [ModPut CF_LOCK (from_raw raw) (lock_to_bytes (put_lock_of p v))]"
    by (simp add: put_lock_def push_new_lock_def push_put_def)
  let ?st2 = "\<lparr>ps_txn = txn, ps_cm = cm, ps_reader = r2, ps_mut = ?m\<rparr>"
  have w: "write_lock env LsNone True 0 ?st2 = (Ok ts_zero, ?st2\<lparr>ps_txn := txn'\<rparr>)"
    using m l t txn'(1) by (cases "is_short_value v") (simp_all add: write_lock_def Let_def)
  have a: "check_assertion x y ?st2 = (Ok (None, False), ?st2)" for x y
    using m(4) assms(3) by (simp add: check_assertion_def two_phase_props_def Let_def)
  have o: "prewrite_old_value x y ?st2 = (Ok OvUnspecified, ?st2)" for x y
    using m(4) assms(3) by (simp add: prewrite_old_value_def two_phase_props_def Let_def)
  have "prewrite env txn cm r p (make_put (from_raw raw) v) None SkipPessimisticCheck None =
      (Ok (ts_zero, OvUnspecified), txn', cm, r2)"
    using m r1(1) c a o w
    by (simp add: prewrite_def prewrite_with_generation_def prewrite_checked_def prewrite_lock_status_def prewrite_with_status_def Let_def)
  then show ?thesis using txn'(2) by (auto simp: put_value_def)
qed

lemma sr_get_cong:
  assumes "store_ok e" "store_ok e'" "versions e' (from_raw raw) = versions e (from_raw raw)"
    "pointers_ok (versions e (from_raw raw)) (Some t)"
    "\<And>c w. records e (from_raw raw) c = Some w \<Longrightarrow> value_of e' (from_raw raw) w = value_of e (from_raw raw) w"
  shows "map_ok fst (sr_get (fresh_reader e' t) (from_raw raw) ts) = map_ok fst (sr_get (fresh_reader e t) (from_raw raw) ts)"
proof -
  have "value_of e' (from_raw raw) w = value_of e (from_raw raw) w"
    if "visible (versions e (from_raw raw)) ts (Some t) = Some (w, c)" for w c
  proof -
    have "change_at (versions e (from_raw raw)) ts = Some (c, w)"
      using that unfolding visible_def by (auto split: option.splits if_splits)
    then show ?thesis using assms(5) change_at_SomeD in_versions [OF assms(1)] by blast
  qed
  then show ?thesis
    using sr_get_eq [OF reader_on_new [OF assms(2)], of raw t ts] sr_get_eq [OF reader_on_new [OF assms(1)] assms(4), of ts] assms(3,4)
    by (auto split: option.splits)
qed

lemma prewrite_store:
  assumes "store_ok e" "two_phase_props p s" "no_record e (from_raw raw) s"
    "ms = (if is_short_value v then [] else [ModPut CF_DEFAULT (append_ts (from_raw raw) s) v]) @
      [ModPut CF_LOCK (from_raw raw) (lock_to_bytes (put_lock_of p v))]"
  shows "\<exists>e'. write_modifies e ms = Ok e' \<and> store_ok e' \<and> own_lock e' (from_raw raw) s = Some (put_lock_of p v) \<and>
    records e' (from_raw raw) = records e (from_raw raw) \<and>
    value_of e' (from_raw raw) (committed_write (put_lock_of p v) s cts) = Some v \<and>
    (\<forall>c w. records e (from_raw raw) c = Some w \<longrightarrow> value_of e' (from_raw raw) w = value_of e (from_raw raw) w)"
proof -
  let ?key = "from_raw raw"
  note l = put_lock_of_simps(1-5) [of p v] put_lock_of_simps(6) [OF assms(2)]
  have s: "tp_start_ts p = s" using assms(2) by (simp add: two_phase_props_def optimistic_props_def)
  have "list_all store_modify_ok ms" using l(6) [of v] by (auto simp: assms(4) store_modify_ok_def lock_value_ok_def)
  then obtain e' where e': "write_modifies e ms = Ok e'" "store_ok e'" "engine_map e' = fold apply_modify ms (engine_map e)"
    using store_write [OF assms(1)] by blast
  have m: "engine_map e' CF_LOCK ?key = Some (lock_to_bytes (put_lock_of p v))" "engine_map e' CF_WRITE = engine_map e CF_WRITE"
    "engine_map e' CF_DEFAULT = (if is_short_value v then engine_map e CF_DEFAULT
       else (engine_map e CF_DEFAULT)(append_ts ?key s \<mapsto> v))"
    by (auto simp: e'(3) assms(4) apply_modify_def)
  have "own_lock e' ?key s = Some (put_lock_of p v)"
    using stored_lock_put [OF e'(2) m(1) l(6)] l(2) s by (simp add: own_lock_def)
  moreover have "records e' ?key = records e ?key" by (rule ext) (simp add: records_eq [OF assms(1)] records_eq [OF e'(2)] m(2))
  moreover have "value_of e' ?key (committed_write (put_lock_of p v) s cts) = Some v"
    using l(5) m(3) by (simp add: value_of_def committed_write_def)
  moreover have "value_of e' ?key w = value_of e ?key w" if "records e ?key c = Some w" for c w
    using that assms(3) m(3) by (auto simp: value_of_def no_record_def split: option.splits)
  ultimately show ?thesis using e'(1,2) by blast
qed

subsection \<open>Properties\<close>

text \<open>A store with one unlocked user key, and an optimistic transaction on it.\<close>

lemma unlocked_engine:
  assumes "newest_first vs" "list_all (\<lambda>v. write_wf (snd v)) vs"
  shows "store_ok (one_key_engine raw vs)" "stored_lock (one_key_engine raw vs) key = None"
proof -
  let ?e = "one_key_engine raw vs"
  have t: "engine_tree ?e CF_LOCK = []" by (simp add: engine_tree_def one_key_engine_def DATA_CFS_def)
  have ok: "write_tree_ok (engine_tree ?e CF_WRITE)" using one_key_tree_ok [OF assms] by simp
  then have "engine_wf ?e"
    by (simp only: one_key_write_tree) (simp add: engine_wf_def one_key_engine_def DATA_CFS_def write_tree_ok_def)
  then show "store_ok ?e"
    using ok t
    by (auto simp: store_ok_def write_tree_ok_def engine_map_def btree_get_eq_Some btree_get_def one_key_engine_def
        split: if_splits dest: map_of_SomeD)
  show "stored_lock ?e key = None" by (simp add: stored_lock_def engine_map_def t btree_get_def)
qed

definition example_props :: "timestamp \<Rightarrow> transaction_properties" where
  "example_props s =
     \<lparr>tp_start_ts = s, tp_kind = Optimistic False, tp_commit_kind = TwoPc, tp_primary = [1], tp_txn_size = 1,
      tp_lock_ttl = 3, tp_min_commit_ts = 0, tp_need_old_value = False, tp_is_retry_request = False,
      tp_assertion_level = AlOff, tp_txn_source = 0\<rparr>"

definition example_env :: prewrite_env where
  "example_env = \<lparr>pe_clock = \<lambda>_. (0, 0, None), pe_last_change = True\<rparr>"

definition example_manager :: concurrency_manager where
  "example_manager = cm_new_with_config 1 0 OnPanic 0 0"

lemma example_props_ok: "two_phase_props (example_props s) s" "optimistic_props (example_props s) s"
  by (simp_all add: two_phase_props_def optimistic_props_def example_props_def)

lemmas example_unlocked = unlocked_engine [OF example_versions_ok(1,2), of "[1]"]

text \<open>
  C2: An optimistic two-phase transaction, without old value or assertion, that prewrites a put on an unlocked key above
  all its records, the newest of which knows its last change, and commits it is read
  exactly from its commit timestamp on. Each phase returns, its batch applies, and afterwards every
  read at or above the commit timestamp returns the value, short or long, while every read below returns what it
  returned before the transaction.
\<close>

theorem transaction_lifecycle:
  assumes "reader_on e s r" "stored_lock e (from_raw raw) = None" "two_phase_props p s"
    "newest_known (versions e (from_raw raw))" "\<forall>c w. records e (from_raw raw) c = Some w \<longrightarrow> c < s"
    "no_record e (from_raw raw) s" "tp_min_commit_ts p \<le> cts" "s \<le> cts" "0 < cts"
    "pointers_ok (versions e (from_raw raw)) (Some t)"
  shows "\<exists>txn1 r1 e1 released txn2 r2 e2.
    prewrite env (mvcc_txn_new s) cm r p (make_put (from_raw raw) v) None SkipPessimisticCheck None =
      (Ok (ts_zero, OvUnspecified), txn1, cm, r1) \<and>
    write_modifies e (t_modifies txn1) = Ok e1 \<and>
    commit (mvcc_txn_new s) (fresh_reader e1 s) (from_raw raw) cts = Ok (Some released, txn2, r2) \<and>
    write_modifies e1 (t_modifies txn2) = Ok e2 \<and>
    map_ok fst (sr_get (fresh_reader e2 t) (from_raw raw) ts) =
      (if cts \<le> ts then Ok (Some v) else map_ok fst (sr_get (fresh_reader e t) (from_raw raw) ts))"
proof -
  let ?key = "from_raw raw" and ?l = "put_lock_of p v"
  note se = reader_onD(1) [OF assms(1)]
  obtain txn1 r1 where p1: "prewrite env (mvcc_txn_new s) cm r p (make_put ?key v) None SkipPessimisticCheck None =
      (Ok (ts_zero, OvUnspecified), txn1, cm, r1)"
    "t_modifies txn1 = (if is_short_value v then [] else [ModPut CF_DEFAULT (append_ts ?key s) v]) @
      [ModPut CF_LOCK ?key (lock_to_bytes ?l)]"
    using prewrite_put [OF assms(1-5), of env "mvcc_txn_new s" cm v] by (auto simp: mvcc_txn_new_def)
  obtain e1 where e1: "write_modifies e (t_modifies txn1) = Ok e1" "store_ok e1" "own_lock e1 ?key s = Some ?l"
    "records e1 ?key = records e ?key" "value_of e1 ?key (committed_write ?l s cts) = Some v"
    "\<forall>c w. records e ?key c = Some w \<longrightarrow> value_of e1 ?key w = value_of e ?key w"
    using prewrite_store [OF se assms(3,6) p1(2), of cts] by blast
  have vs: "versions e1 ?key = versions e ?key" using versions_cong [OF se e1(2,4)] .
  have lt: "\<forall>c w. records e1 ?key c = Some w \<longrightarrow> c < cts" using assms(5,8) e1(4) by (metis order_less_le_trans)
  obtain released txn2 r2 e2 where c: "commit (mvcc_txn_new s) (fresh_reader e1 s) ?key cts = Ok (Some released, txn2, r2)"
    "write_modifies e1 (t_modifies txn2) = Ok e2"
    "map_ok fst (sr_get (fresh_reader e2 t) ?key ts) =
      (if cts \<le> ts then Ok (Some v) else map_ok fst (sr_get (fresh_reader e1 t) ?key ts))"
    using commit_read_eq [OF reader_on_new [OF e1(2)] e1(3) put_lock_of_simps(1) _ lt assms(9) e1(5), of t ts]
      assms(7,10) vs put_lock_of_simps(3) by auto
  have "map_ok fst (sr_get (fresh_reader e1 t) ?key ts) = map_ok fst (sr_get (fresh_reader e t) ?key ts)"
    by (rule sr_get_cong [OF se e1(2) vs assms(10)]) (use e1(6) in blast)
  then show ?thesis using p1(1) e1(1) c by auto
qed

theorem transaction_lifecycle_witness:
  "\<exists>txn1 r1 e1 released txn2 r2 e2.
    prewrite example_env (mvcc_txn_new 40) example_manager (fresh_reader (one_key_engine [1] example_versions) 40)
      (example_props 40) (make_put (from_raw [1]) [8]) None SkipPessimisticCheck None =
      (Ok (ts_zero, OvUnspecified), txn1, example_manager, r1) \<and>
    write_modifies (one_key_engine [1] example_versions) (t_modifies txn1) = Ok e1 \<and>
    commit (mvcc_txn_new 40) (fresh_reader e1 40) (from_raw [1]) 50 = Ok (Some released, txn2, r2) \<and>
    write_modifies e1 (t_modifies txn2) = Ok e2 \<and>
    map_ok fst (sr_get (fresh_reader e2 60) (from_raw [1]) 55) = Ok (Some [8])"
proof -
  let ?e = "one_key_engine [1] example_versions"
  have vs: "versions ?e (from_raw [1]) = example_versions" by (rule example_reader_versions)
  have "newest_known (versions ?e (from_raw [1]))"
    unfolding vs by (simp add: newest_known_def example_versions_def latest_def is_change_def write_new_def ts_max_def)
  moreover have "\<forall>c w. records ?e (from_raw [1]) c = Some w \<longrightarrow> c < 40" "no_record ?e (from_raw [1]) 40"
    unfolding records_def no_record_def vs
    by (auto simp: example_versions_def write_new_def write_set_last_change_def split: if_splits)
  moreover have "tp_min_commit_ts (example_props 40) \<le> 50" "(40 :: timestamp) \<le> 50" "(0 :: timestamp) < 50"
    by (simp_all add: example_props_def)
  moreover have "pointers_ok (versions ?e (from_raw [1])) (Some 60)" unfolding vs by (rule example_versions_ok(3))
  ultimately show ?thesis
    using transaction_lifecycle [where raw = "[1]" and p = "example_props 40" and cts = 50 and t = 60 and env = example_env and
        cm = example_manager and v = "[8]" and ts = 55, OF reader_on_new [OF example_unlocked(1), of 40] example_unlocked(2)
        example_props_ok(1)] by auto
qed

text \<open>
  C3: No update is lost. Once a transaction has committed a put or a delete of a key, an optimistic
  transaction that started below that commit timestamp and checks constraints can no longer prewrite the key, by anything but
  an insert, which is not covered: it fails
  with a write conflict that names the committed transaction, and its batch stays as it was.
\<close>

theorem no_lost_update:
  assumes "reader_on e s r" "own_lock e (from_raw raw) s = Some l" "l_lock_type l \<in> {LtPut, LtDelete}"
    "l_min_commit_ts l \<le> cts" "\<forall>c w. records e (from_raw raw) c = Some w \<longrightarrow> c < cts"
    "optimistic_props p s'" "s' < cts" "fst (into_key_value mut) = from_raw raw" "\<not> should_not_exists mut"
  shows "\<exists>released txn r1 e' r2. commit (mvcc_txn_new s) r (from_raw raw) cts = Ok (Some released, txn, r1) \<and>
    write_modifies e (t_modifies txn) = Ok e' \<and>
    prewrite env txn' cm (fresh_reader e' s') p mut sec SkipPessimisticCheck None =
      (Err (MvWriteConflict s' s cts raw (tp_primary p) CrOptimistic), txn', cm, r2)"
proof -
  let ?key = "from_raw raw" and ?w = "committed_write l s cts"
  note se = reader_onD(1) [OF assms(1)]
  have np: "\<not> is_pessimistic_lock l" using assms(3) by (auto simp: is_pessimistic_lock_def)
  obtain released txn r1 e' where c: "commit (mvcc_txn_new s) r ?key cts = Ok (Some released, txn, r1)"
    "write_modifies e (t_modifies txn) = Ok e'" "store_ok e'" "stored_lock e' ?key = None"
    "records e' ?key = (records e ?key)(cts \<mapsto> ?w)"
    using commit_store [OF assms(1,2) np assms(4)] by blast
  have w: "is_change ?w" "w_start_ts ?w = s" using assms(3) by (auto simp: committed_write_def is_change_def)
  have "latest (versions e' ?key) ts_max = Some (cts, ?w)"
    unfolding latest_Some [OF newest_first_store [OF c(3)]] using assms(5) in_versions [OF c(3)] c(5)
    by (fastforce split: if_splits intro: less_imp_le)
  then show ?thesis
    using prewrite_conflict [OF reader_on_new [OF c(3)] c(4) assms(6,8,9) _ assms(7) w(1)] c(1,2) w(2) by metis
qed

theorem no_lost_update_witness:
  "\<exists>released txn r1 e' r2. commit (mvcc_txn_new 40) (fresh_reader example_store 40) (from_raw [1]) 50 = Ok (Some released, txn, r1) \<and>
    write_modifies example_store (t_modifies txn) = Ok e' \<and>
    prewrite example_env (mvcc_txn_new 45) example_manager (fresh_reader e' 45) (example_props 45)
      (make_put (from_raw [1]) [8]) None SkipPessimisticCheck None =
      (Err (MvWriteConflict 45 40 50 [1] [1] CrOptimistic), mvcc_txn_new 45, example_manager, r2)"
proof -
  have "l_lock_type example_lock \<in> {LtPut, LtDelete}" "l_min_commit_ts example_lock \<le> 50" "(45 :: timestamp) < 50"
    "fst (into_key_value (make_put (from_raw [1]) [8])) = from_raw [1]" "\<not> should_not_exists (make_put (from_raw [1]) [8])"
    "tp_primary (example_props 45) = [1]"
    by (simp_all add: example_lock_def lock_new_def make_put_def example_props_def)
  moreover have "\<forall>c w. records example_store (from_raw [1]) c = Some w \<longrightarrow> c < 50"
    by (auto simp: records_def example_store example_versions_def split: if_splits)
  ultimately show ?thesis
    using no_lost_update [where cts = 50 and p = "example_props 45" and s' = 45 and mut = "make_put (from_raw [1]) [8]" and
        env = example_env and txn' = "mvcc_txn_new 45" and cm = example_manager and sec = None,
        OF example_reader example_store_history(3)] example_props_ok(2) by auto
qed

end
