(* ===== verification/Prewrite_Batch.thy ===== *)
theory Prewrite_Batch
  imports Txn_Lifecycle
begin

text \<open>
  The batch of a prewrite is well typed on every path, errors included: it holds only values for the default column
  family and locks that parse back, so it applies to every well-formed store, keeps it well formed and
  changes no version of any key. The proof is a small Hoare logic over the steps of the prewrite.
\<close>

subsection \<open>Triples over the steps\<close>

text \<open>The state after the steps satisfies the second assertion, whatever the outcome.\<close>

definition triple :: "('s \<Rightarrow> bool) \<Rightarrow> ('s, 'a) steps \<Rightarrow> ('s \<Rightarrow> bool) \<Rightarrow> bool" where
  "triple P f Q \<longleftrightarrow> (\<forall>s. P s \<longrightarrow> Q (snd (f s)))"

abbreviation keeps :: "('s \<Rightarrow> bool) \<Rightarrow> ('s, 'a) steps \<Rightarrow> bool" where
  "keeps P f \<equiv> triple P f P"

named_theorems triples

lemma triple_bind: "keeps P m \<Longrightarrow> (\<And>x. triple P (f x) Q) \<Longrightarrow> (\<And>s. P s \<Longrightarrow> Q s) \<Longrightarrow> triple P (st_bind m f) Q"
  unfolding triple_def
proof (intro allI impI)
  fix s assume m: "\<forall>s. P s \<longrightarrow> P (snd (m s))" and f: "\<And>x. \<forall>s. P s \<longrightarrow> Q (snd (f x s))" and q: "\<And>s. P s \<Longrightarrow> Q s" and "P s"
  obtain r s' where ms: "m s = (r, s')" by (cases "m s")
  have "P s'" using m \<open>P s\<close> ms by (metis snd_conv)
  then show "Q (snd (st_bind m f s))" using f q ms by (cases r) (simp_all add: st_bind_def)
qed

lemma keeps_bind [triples]: "keeps P m \<Longrightarrow> (\<And>x. keeps P (f x)) \<Longrightarrow> keeps P (st_bind m f)"
  by (rule triple_bind)

lemma keeps_basic [triples]: "keeps P (st_return x)" "keeps P (st_lift r)" "keeps P (\<lambda>s. (g s, s))"
  by (simp_all add: triple_def)

lemma keeps_cases [triples]:
  "(b \<Longrightarrow> keeps P f) \<Longrightarrow> (\<not> b \<Longrightarrow> keeps P g) \<Longrightarrow> keeps P (if b then f else g)"
  "keeps P f \<Longrightarrow> (\<And>x. keeps P (h x)) \<Longrightarrow> keeps P (case opt of None \<Rightarrow> f | Some x \<Rightarrow> h x)"
  "(\<And>x y. keeps P (k x y)) \<Longrightarrow> keeps P (case p of (x, y) \<Rightarrow> k x y)"
  by (simp_all split: option.splits prod.splits)

text \<open>Steps that look at the state they start in; the mutation is the part they look at.\<close>

lemma keeps_mut: "(\<And>mu. keeps P (f mu)) \<Longrightarrow> keeps P (\<lambda>s. f (ps_mut s) s)"
  by (simp add: triple_def)

lemma tripleD: "triple P f Q \<Longrightarrow> P s \<Longrightarrow> Q (snd (f s))"
  by (simp add: triple_def)

subsection \<open>What every step before the write keeps\<close>

text \<open>
  The batch and the parts of the mutation that go into the lock, but for the time to live and the smallest
  commit timestamp; the last change that was found is well formed.
\<close>

definition before_write :: "prewrite_mutation \<Rightarrow> mvcc_txn \<Rightarrow> pw_state \<Rightarrow> bool" where
  "before_write m txn s \<longleftrightarrow>
     ps_txn s = txn \<and> last_change_wf (pm_last_change (ps_mut s)) \<and> pm_key (ps_mut s) = pm_key m \<and>
     pm_value (ps_mut s) = pm_value m \<and> pm_props (ps_mut s) = pm_props m \<and>
     pm_secondary_keys (ps_mut s) = pm_secondary_keys m"

lemma make_exist_wf: "make_exist ts n = Ok lc \<Longrightarrow> last_change_wf lc"
  by (auto simp: make_exist_def assert_then_def ts_is_zero_def word_gt_0 split: if_splits)

lemma next_last_change_wf: "next_last_change_info key w s r c = Ok (lc, r') \<Longrightarrow> last_change_wf lc"
  by (auto simp: next_last_change_info_def Let_def result_simps assert_then_eq_Ok case_prod_unfold dest: make_exist_wf
      split: if_splits last_change.splits option.splits)

lemma keeps_read [triples]: "keeps (before_write m txn) (st_read f)"
  by (auto simp: triple_def before_write_def st_read_def split: result.splits)

lemma keeps_update_max_ts [triples]: "keeps (before_write m txn) (st_update_max_ts env i ts)"
  by (auto simp: triple_def before_write_def st_update_max_ts_def split: prod.splits)

lemma keeps_set_not_exist [triples]: "keeps (before_write m txn) (st_set_last_change LcNotExist)"
  by (simp add: triple_def before_write_def st_set_last_change_def)

lemma keeps_next_last_change:
  "keeps (before_write m txn) (st_bind (st_read (\<lambda>r. next_last_change_info key w (g r) r c)) st_set_last_change)"
  unfolding triple_def
proof (intro allI impI)
  fix s assume s: "before_write m txn s"
  show "before_write m txn (snd (st_bind (st_read (\<lambda>r. next_last_change_info key w (g r) r c)) st_set_last_change s))"
  proof (cases "next_last_change_info key w (g (ps_reader s)) (ps_reader s) c")
    case (Ok x)
    obtain lc r where x: "x = (lc, r)" by (cases x)
    have "last_change_wf lc" using next_last_change_wf Ok x by blast
    then show ?thesis using s Ok x by (simp add: st_set_last_change_def before_write_def)
  qed (use s in \<open>simp_all add: st_bind_def st_read_def\<close>)
qed

lemma keeps_newer_version_loop [triples]: "keeps (before_write m txn) (newer_version_loop n seek_ts)"
proof (induction n arbitrary: seek_ts)
  case 0
  show ?case by (simp add: triple_def)
next
  case (Suc n)
  have c: "keeps (before_write m txn) (newer_version_conflict c w)" for c w
    by (simp add: triple_def newer_version_conflict_def Let_def)
  show ?case
    unfolding triple_def
  proof (intro allI impI)
    fix s assume P: "before_write m txn s"
    define mu where "mu = ps_mut s"
    show "before_write m txn (snd (newer_version_loop (Suc n) seek_ts s))"
      unfolding newer_version_loop.simps mu_def [symmetric] 
      by (rule tripleD [where P = "before_write m txn" and s = s, OF _ P]) (rule keeps_next_last_change triples c Suc)+
  qed
qed

lemma snd_if: "(b \<Longrightarrow> P (snd x)) \<Longrightarrow> (\<not> b \<Longrightarrow> P (snd y)) \<Longrightarrow> P (snd (if b then x else y))"
  by simp

lemma keeps_check_for_newer_version [triples]: "keeps (before_write m txn) check_for_newer_version"
  using keeps_newer_version_loop by (simp add: triple_def check_for_newer_version_def)

lemma keeps_result [triples]:
  "(\<And>x. keeps P (f x)) \<Longrightarrow> keeps P g \<Longrightarrow> keeps P (case r of Ok x \<Rightarrow> f x | _ \<Rightarrow> g)"
  by (cases r) simp_all

lemma keeps_check_assertion [triples]: "keeps (before_write m txn) (check_assertion w loaded)"
  unfolding triple_def
proof (intro allI impI)
  fix s assume P: "before_write m txn s"
  define mu where "mu = ps_mut s"
  note D = tripleD [where P = "before_write m txn" and s = s, OF _ P]
  show "before_write m txn (snd (check_assertion w loaded s))"
    unfolding check_assertion_def Let_def mu_def [symmetric]
    by (rule snd_if [where P = "before_write m txn"], simp add: P)+ (rule D, (rule triples)+)
qed

lemma keeps_amend [triples]: "keeps (before_write m txn) amend_pessimistic_lock"
  unfolding triple_def
proof (intro allI impI)
  fix s assume P: "before_write m txn s"
  define mu where "mu = ps_mut s"
  have inner: "keeps (before_write m txn)
      (\<lambda>s. if c \<ge> sr_start_ts (ps_reader s)
           then (g s, s)
           else st_bind (st_read (\<lambda>r. next_last_change_info (pm_key (ps_mut s)) w (sr_start_ts (ps_reader s)) r c)) st_set_last_change s)" for c g w
    unfolding triple_def
  proof (intro allI impI, rule snd_if [where P = "before_write m txn"])
    fix s assume P: "before_write m txn s"
    then show "before_write m txn (snd (g s, s))" by simp
    define k t where "k = pm_key (ps_mut s)" and "t = sr_start_ts (ps_reader s)"
    show "before_write m txn (snd (st_bind (st_read (\<lambda>r. next_last_change_info (pm_key (ps_mut s)) w (sr_start_ts (ps_reader s)) r c))
        st_set_last_change s))"
      unfolding k_def [symmetric] t_def [symmetric] by (rule tripleD [OF keeps_next_last_change P])
  qed
  show "before_write m txn (snd (amend_pessimistic_lock s))"
    unfolding amend_pessimistic_lock_def Let_def mu_def [symmetric]
    by (rule tripleD [where P = "before_write m txn" and s = s, OF _ P]) (rule inner triples)+
qed

lemma keeps_check_lock: "last_change_wf (l_last_change l) \<Longrightarrow> keeps (before_write m txn) (check_lock l action expected generation)"
  by (simp add: triple_def check_lock_def Let_def before_write_def)

lemma keeps_old_value [triples]: "keeps (before_write m txn) (prewrite_old_value loaded w)"
  using keeps_read [of m txn] by (auto simp: triple_def prewrite_old_value_def Let_def)

subsection \<open>The write\<close>

definition sizes_ok :: "prewrite_mutation \<Rightarrow> bool" where
  "sizes_ok m \<longleftrightarrow> length (tp_primary (pm_props m)) < 2 ^ 63 \<and>
     (case pm_secondary_keys m of None \<Rightarrow> True | Some keys \<Rightarrow> length keys < 2 ^ 31 \<and> list_all (\<lambda>k. length k < 2 ^ 63) keys)"

definition no_versions :: "modify \<Rightarrow> bool" where
  "no_versions md \<longleftrightarrow> (case md of ModPut cf k v \<Rightarrow> cf = CF_DEFAULT \<or> cf = CF_LOCK | _ \<Rightarrow> False)"

definition extends_batch :: "mvcc_txn \<Rightarrow> mvcc_txn \<Rightarrow> bool" where
  "extends_batch txn txn' \<longleftrightarrow>
     (\<exists>ms. t_modifies txn' = t_modifies txn @ ms \<and> list_all store_modify_ok ms \<and> list_all no_versions ms)"

lemma extends_refl: "extends_batch txn txn"
  by (simp add: extends_batch_def)

lemma lock_of_mutation_sel:
  "l_primary (lock_of_mutation lc m ty st gen) = tp_primary (pm_props m)"
  "l_short_value (lock_of_mutation lc m ty st gen) =
     (case pm_value m of Some v \<Rightarrow> if is_short_value v then Some v else None | None \<Rightarrow> None)"
  "l_secondaries (lock_of_mutation lc m ty st gen) = []" "\<not> l_use_async_commit (lock_of_mutation lc m ty st gen)"
  "l_rollback_ts (lock_of_mutation lc m ty st gen) = []" "\<not> l_use_one_pc (lock_of_mutation lc m ty st gen)"
  "last_change_wf (pm_last_change m) \<Longrightarrow> last_change_wf (l_last_change (lock_of_mutation lc m ty st gen))"
  by (simp_all add: lock_of_mutation_def lock_new_def lock_set_txn_source_def lock_with_generation_def lock_set_last_change_def
      Let_def split: option.splits)

text \<open>All but the flag for one-phase commit, which is not stored.\<close>

definition storable :: "lock \<Rightarrow> bool" where
  "storable l \<longleftrightarrow> lock_wf (l\<lparr>l_use_one_pc := False\<rparr>)"

lemma storable_mutation:
  assumes "sizes_ok m" "last_change_wf (pm_last_change m)"
    "l = (case pm_secondary_keys m of
       Some keys \<Rightarrow> lock_use_async_commit (lock_of_mutation lc m ty st gen) keys
     | None \<Rightarrow> if one_pc then (lock_of_mutation lc m ty st gen)\<lparr>l_use_one_pc := True\<rparr> else lock_of_mutation lc m ty st gen)"
  shows "storable l" "\<not> one_pc \<Longrightarrow> \<not> l_use_one_pc l"
  using assms lock_of_mutation_sel [where lc = lc and m = m and ty = ty and st = st and gen = gen]
  by (auto simp: storable_def lock_wf_def sizes_ok_def lock_use_async_commit_def split: option.splits)

lemma storable_min_commit:
  "lock_with_min_commit_ts l s f c mx = Ok l' \<Longrightarrow> storable l' = storable l \<and> l_use_one_pc l' = l_use_one_pc l"
  by (auto simp: lock_with_min_commit_ts_def result_simps Let_def storable_def lock_wf_def split: if_splits)

lemma storable_fall_back: "storable l \<Longrightarrow> lock_wf (l\<lparr>l_use_one_pc := False, l_use_async_commit := False, l_secondaries := []\<rparr>)"
  by (simp add: storable_def lock_wf_def)

lemma extends_put_lock:
  assumes "extends_batch txn txn1" "lock_wf l" "put_lock txn1 key l new = Ok txn2"
  shows "extends_batch txn txn2"
proof -
  have "t_modifies txn2 = t_modifies txn1 @ [ModPut CF_LOCK key (lock_to_bytes l)]"
    using assms(3) by (auto simp: put_lock_def push_new_lock_def push_put_def result_simps assert_then_eq_Ok split: if_splits)
  moreover have "store_modify_ok (ModPut CF_LOCK key (lock_to_bytes l))" using assms(2) by (auto simp: lock_value_ok_def)
  ultimately show ?thesis using assms(1) by (auto simp: extends_batch_def no_versions_def)
qed

lemma extends_put_value: "extends_batch txn (put_value txn key s v)"
  by (simp add: extends_batch_def put_value_def push_put_def no_versions_def)

lemma extends_same: "t_modifies txn' = t_modifies txn1 \<Longrightarrow> extends_batch txn txn1 \<Longrightarrow> extends_batch txn txn'"
  by (simp add: extends_batch_def)

lemma async_commit_batch:
  assumes "async_commit_timestamps key l s f c txn1 cm = (res, l', txn2, cm')"
  shows "t_modifies txn2 = t_modifies txn1" "storable l' = storable l" "l_use_one_pc l' = l_use_one_pc l"
  using assms storable_min_commit [of l s f c "cm_max_ts cm"]
  by (auto simp: async_commit_timestamps_def Let_def split: result.splits)

lemma write_lock_batch:
  assumes "sizes_ok m"
  shows "triple (before_write m txn) (write_lock env status new gen) (\<lambda>s. extends_batch txn (ps_txn s))"
  unfolding triple_def
proof (intro allI impI)
  fix s assume P: "before_write m txn s"
  let ?m = "ps_mut s"
  have sz: "sizes_ok ?m" "last_change_wf (pm_last_change ?m)" "ps_txn s = txn"
    using P assms by (simp_all add: before_write_def sizes_ok_def)
  show "extends_batch txn (ps_txn (snd (write_lock env status new gen s)))"
  proof (cases "pm_lock_type ?m")
    case None
    then show ?thesis using sz(3) by (simp add: write_lock_def extends_refl)
  next
    case (Some ty)
    let ?l0 = "lock_of_mutation (pe_last_change env) ?m ty status gen" and ?key = "pm_key ?m"
    define l where "l = (case pm_secondary_keys ?m of Some keys \<Rightarrow> lock_use_async_commit ?l0 keys
      | None \<Rightarrow> if try_one_pc ?m then ?l0\<lparr>l_use_one_pc := True\<rparr> else ?l0)"
    define txn1 where "txn1 = (case pm_value ?m of
      Some v \<Rightarrow> if is_short_value v then ps_txn s else put_value (ps_txn s) ?key (tp_start_ts (pm_props ?m)) v | None \<Rightarrow> ps_txn s)"
    have t1: "extends_batch txn txn1" using sz(3) extends_refl extends_put_value by (simp add: txn1_def split: option.splits)
    have l: "storable l" "\<not> try_one_pc ?m \<Longrightarrow> \<not> l_use_one_pc l" using storable_mutation [OF sz(1,2) l_def] by blast+
    have wf: "storable l' \<Longrightarrow> \<not> l_use_one_pc l' \<Longrightarrow> lock_wf l'" for l' by (simp add: storable_def lock_wf_def)
    have store: "extends_batch txn (ps_txn (snd (if one_pc
        then (res, s\<lparr>ps_txn := put_locks_for_1pc txn' ?key l' b, ps_cm := cm\<rparr>)
        else (case put_lock txn' ?key l' new of
               Ok txn \<Rightarrow> (res, s\<lparr>ps_txn := txn, ps_cm := cm\<rparr>)
             | _ \<Rightarrow> (Panic, s\<lparr>ps_txn := txn', ps_cm := cm\<rparr>)))))"
      if "extends_batch txn txn'" "\<not> one_pc \<Longrightarrow> lock_wf l'" for one_pc txn' l' b cm and res :: "(timestamp, mvcc_error) result"
      using that extends_put_lock [OF that(1)] extends_same [OF _ that(1), of "put_locks_for_1pc txn' ?key l' b"]
      by (auto simp: put_locks_for_1pc_def split: result.splits)
    show ?thesis
    proof (cases "l_use_async_commit l \<or> try_one_pc ?m")
      case False
      then show ?thesis
        using store [OF t1, of False l] wf l
        by (simp add: write_lock_def Some Let_def flip: l_def txn1_def)
    next
      case True
      show ?thesis
      proof (cases "tp_max_commit_ts (pm_props ?m)")
        case (Ok mc)
        obtain res l' txn2 cm' where a: "async_commit_timestamps ?key l (tp_start_ts (pm_props ?m)) (tp_for_update_ts (pm_props ?m))
            mc txn1 (ps_cm s) = (res, l', txn2, cm')" by (metis prod.exhaust)
        note ab = async_commit_batch [OF a]
        have t2: "extends_batch txn txn2" using extends_same [OF ab(1) t1] .
        have 1: "\<not> try_one_pc ?m \<Longrightarrow> lock_wf l'" using wf ab(2,3) l by blast
        have 2: "lock_wf (l'\<lparr>l_use_one_pc := False, l_use_async_commit := False, l_secondaries := []\<rparr>)"
          using storable_fall_back ab(2) l(1) by blast
        show ?thesis
          using True Ok a t2 store [OF t2 1] store [OF t2 2, of False]
          by (cases res) (simp_all add: write_lock_def Some Let_def flip: l_def txn1_def)
      qed (use True t1 in \<open>simp_all add: write_lock_def Some Let_def flip: l_def txn1_def\<close>)
    qed
  qed
qed

subsection \<open>The whole prewrite\<close>

lemma triple_pre: "triple P f Q \<Longrightarrow> (\<And>s. P' s \<Longrightarrow> P s) \<Longrightarrow> triple P' f Q"
  by (simp add: triple_def)

lemma triple_bind_result:
  assumes "\<And>s. P s \<Longrightarrow> P (snd (m s)) \<and> (\<forall>x. fst (m s) = Ok x \<longrightarrow> R x)"
    and "\<And>x. R x \<Longrightarrow> triple P (f x) Q" and "\<And>s. P s \<Longrightarrow> Q s"
  shows "triple P (st_bind m f) Q"
  unfolding triple_def
proof (intro allI impI)
  fix s assume "P s"
  obtain r s' where ms: "m s = (r, s')" by (cases "m s")
  have "P s'" "\<And>x. r = Ok x \<Longrightarrow> R x" using assms(1) [OF \<open>P s\<close>] ms by simp_all
  then show "Q (snd (st_bind m f s))" using assms(2,3) ms by (cases r) (auto simp: st_bind_def triple_def)
qed

lemma triple_status:
  "(\<And>ts. triple P (f ts) Q) \<Longrightarrow> triple P g Q \<Longrightarrow> triple P (case (status, b) of (LsLocked ts, True) \<Rightarrow> f ts | _ \<Rightarrow> g) Q"
  by (cases status; cases b) simp_all

lemma with_status_batch:
  assumes "sizes_ok m"
  shows "triple (before_write m txn) (prewrite_with_status env action gen start_ts status amended) (\<lambda>s. extends_batch txn (ps_txn s))"
proof -
  let ?P = "before_write m txn" and ?Q = "\<lambda>s. extends_batch txn (ps_txn s)"
  have q: "?P s \<Longrightarrow> ?Q s" for s by (simp add: before_write_def extends_refl)
  have n: "keeps ?P (\<lambda>s. if \<not> skip_constraint_check (ps_mut s)
      then st_bind check_for_newer_version (\<lambda>w. st_return (w, True)) s else (Ok (None, False), s))"
    using tripleD [OF keeps_bind [OF keeps_check_for_newer_version [of m txn], of "\<lambda>w. st_return (w, True)"]]
    by (simp add: triple_def)
  have u: "triple ?P (st_bind (st_update_max_ts env 1 start_ts) (\<lambda>_ s. (g s, s))) ?Q" for g :: "pw_state \<Rightarrow> (timestamp \<times> old_value, mvcc_error) result"
    by (rule triple_bind [OF keeps_update_max_ts _ q]) (simp add: triple_def q)
  have w: "triple ?P (st_bind (prewrite_old_value loaded pw) (\<lambda>ov. st_bind (write_lock env status new gen) (\<lambda>t. st_return (t, ov)))) ?Q" for loaded pw new
  proof (rule triple_bind [OF keeps_old_value _ q])
    fix ov
    show "triple ?P (st_bind (write_lock env status new gen) (\<lambda>t. st_return (t, ov))) ?Q"
      using write_lock_batch [OF assms, of txn env status new gen]
      by (auto simp: triple_def st_bind_def split: prod.splits result.splits)
  qed
  have t: "triple ?P (\<lambda>s. if pm_should_not_write (ps_mut s)
      then st_bind (st_update_max_ts env 1 start_ts) (\<lambda>_ s. (g s, s)) s
      else st_bind (prewrite_old_value loaded pw) (\<lambda>ov. st_bind (write_lock env status new gen) (\<lambda>t. st_return (t, ov))) s) ?Q" for g loaded pw new
    using u [of g] w [of loaded pw new] by (simp add: triple_def)
  show ?thesis
    unfolding prewrite_with_status_def Let_def
  proof (rule triple_status)
    show "triple ?P (st_return (ts, OvUnspecified)) ?Q" for ts using q by (simp add: triple_def)
  qed (rule triple_bind [OF n _ q], auto intro!: triple_bind [OF _ _ q] triples t)
qed

lemma checked_batch:
  assumes "reader_on e ts (ps_reader s)" "before_write m txn s" "sizes_ok m"
  shows "extends_batch txn (ps_txn (snd (prewrite_checked env action expected gen s)))"
proof -
  let ?B = "before_write m txn" and ?Q = "\<lambda>s. extends_batch txn (ps_txn s)"
  let ?P = "\<lambda>s. ?B s \<and> reader_on e ts (ps_reader s)"
  let ?R = "\<lambda>lo. \<forall>l. lo = Some l \<longrightarrow> last_change_wf (l_last_change l)"
  define mu where "mu = ps_mut s"
  have P: "?P s" using assms(1,2) by blast
  have q: "?P s \<Longrightarrow> ?Q s" "?B s \<Longrightarrow> ?Q s" for s by (simp_all add: before_write_def extends_refl)
  have u: "keeps ?P (if b then st_update_max_ts env 0 t else st_return ())" for b t
    using keeps_update_max_ts [of m txn env 0 t] by (auto simp: triple_def st_update_max_ts_def split: prod.splits)
  have load: "?P (snd (st_read (\<lambda>r. sr_load_lock r (pm_key (ps_mut s))) s)) \<and>
      (\<forall>x. fst (st_read (\<lambda>r. sr_load_lock r (pm_key (ps_mut s))) s) = Ok x \<longrightarrow> ?R x)" if s: "?P s" for s
  proof -
    obtain r' where r': "sr_load_lock (ps_reader s) (pm_key (ps_mut s)) = Ok (stored_lock e (pm_key (ps_mut s)), r')" "reader_on e ts r'"
      using sr_load_lock_eq s by blast
    moreover have "?R (stored_lock e (pm_key (ps_mut s)))"
      using stored_lock_wf [OF reader_onD(1), of e ts "ps_reader s"] s by (auto simp: lock_wf_def)
    ultimately show ?thesis using s by (simp add: before_write_def)
  qed
  have st: "keeps ?B (prewrite_lock_status action expected gen lo)" if "?R lo" for lo
    using that by (cases lo) (auto simp: prewrite_lock_status_def intro!: triples keeps_check_lock)
  have rest: "triple ?B (st_bind (prewrite_lock_status action expected gen lo)
      (\<lambda>(status, lock_amended). prewrite_with_status env action gen t status lock_amended)) ?Q" if "?R lo" for lo t
    using with_status_batch [OF assms(3)] by (intro triple_bind [OF st [OF that] _ q(2)]) auto
  have "triple ?P (st_bind (if pm_should_not_exist mu then st_update_max_ts env 0 t else st_return ()) (\<lambda>_.
     st_bind (\<lambda>s. st_read (\<lambda>r. sr_load_lock r (pm_key (ps_mut s))) s) (\<lambda>lo.
     st_bind (prewrite_lock_status action expected gen lo)
      (\<lambda>(status, lock_amended). prewrite_with_status env action gen t status lock_amended)))) ?Q" for t
  proof (rule triple_bind [OF u _ q(1)], rule triple_bind_result [where R = ?R])
    show "triple ?P (st_bind (prewrite_lock_status action expected gen lo)
        (\<lambda>(status, lock_amended). prewrite_with_status env action gen t status lock_amended)) ?Q" if "?R lo" for lo
      by (rule triple_pre [OF rest [OF that]]) blast
  qed (use load q(1) in blast)+
  from tripleD [OF this P] show ?thesis by (simp add: prewrite_checked_def Let_def mu_def)
qed

lemma prewrite_extends:
  assumes "reader_on e s r" "length (tp_primary p) < 2 ^ 63"
    "case sec of None \<Rightarrow> True | Some keys \<Rightarrow> length keys < 2 ^ 31 \<and> list_all (\<lambda>k. length k < 2 ^ 63) keys"
    "prewrite_with_generation env txn cm r p mut sec action expected gen = (res, txn', cm', r')"
  shows "extends_batch txn txn'"
proof (cases "from_mutation mut sec action p")
  case (Ok m)
  let ?s = "\<lparr>ps_txn = txn, ps_cm = cm, ps_reader = r, ps_mut = m\<rparr>"
  have m: "pm_props m = p" "pm_secondary_keys m = sec" "pm_last_change m = LcUnknown"
    using Ok by (auto simp: from_mutation_def split: if_splits prod.splits)
  have "extends_batch txn (ps_txn (snd (prewrite_checked env action expected gen ?s)))"
    by (rule checked_batch [of e s _ m]) (use assms(1-3) m in \<open>simp_all add: before_write_def sizes_ok_def\<close>)
  then show ?thesis using assms(4) Ok by (auto simp: prewrite_with_generation_def split: prod.splits)
qed (use assms(4) extends_refl in \<open>simp_all add: prewrite_with_generation_def\<close>)

lemma no_versions_map: "list_all no_versions ms \<Longrightarrow> fold apply_modify ms mp CF_WRITE = mp CF_WRITE"
  by (induction ms arbitrary: mp) (auto simp: no_versions_def apply_modify_def split: modify.splits)

text \<open>
  C7: Whatever a prewrite meets, its batch is well typed. For every mutation, kind of transaction and commit, pessimistic
  action, assertion level and flush generation, with keys of allocatable length, and for every outcome, errors and panics included, the batch it leaves
  applies to the store it read, keeps the store well formed, and changes no version of any key.
\<close>

theorem prewrite_keeps_store:
  assumes "reader_on e s r" "t_modifies txn = []" "length (tp_primary p) < 2 ^ 63"
    "case sec of None \<Rightarrow> True | Some keys \<Rightarrow> length keys < 2 ^ 31 \<and> list_all (\<lambda>k. length k < 2 ^ 63) keys"
    "prewrite_with_generation env txn cm r p mut sec action expected gen = (res, txn', cm', r')"
  shows "\<exists>e'. write_modifies e (t_modifies txn') = Ok e' \<and> store_ok e' \<and> versions e' key = versions e key"
proof -
  note se = reader_onD(1) [OF assms(1)]
  have ms: "list_all store_modify_ok (t_modifies txn')" "list_all no_versions (t_modifies txn')"
    using prewrite_extends [OF assms(1,3,4,5)] assms(2) by (auto simp: extends_batch_def)
  obtain e' where e': "write_modifies e (t_modifies txn') = Ok e'" "store_ok e'"
    "engine_map e' = fold apply_modify (t_modifies txn') (engine_map e)"
    using store_write [OF se ms(1)] by blast
  have "engine_map e' CF_WRITE = engine_map e CF_WRITE" using no_versions_map [OF ms(2)] e'(3) by simp
  then have "records e' key = records e key" by (auto simp: fun_eq_iff records_eq [OF se] records_eq [OF e'(2)])
  then show ?thesis using e'(1,2) versions_cong [OF se e'(2)] by blast
qed

text \<open>A long value, so that the prewrite writes both a value and a lock.\<close>

definition long_value :: val where
  "long_value = replicate 300 8"

lemma example_prewrite:
  "\<exists>txn' r'. prewrite_with_generation example_env (mvcc_txn_new 40) example_manager
      (fresh_reader (one_key_engine [1] example_versions) 40) (example_props 40) (make_put (from_raw [1]) long_value) None
      SkipPessimisticCheck None 0 = (Ok (ts_zero, OvUnspecified), txn', example_manager, r') \<and>
    t_modifies txn' = [ModPut CF_DEFAULT (append_ts (from_raw [1]) 40) long_value,
      ModPut CF_LOCK (from_raw [1]) (lock_to_bytes (put_lock_of (example_props 40) long_value))]"
proof -
  let ?e = "one_key_engine [1] example_versions"
  have vs: "versions ?e (from_raw [1]) = example_versions" by (rule example_reader_versions)
  have n: "newest_known (versions ?e (from_raw [1]))"
    unfolding vs by (simp add: newest_known_def example_versions_def latest_def is_change_def write_new_def ts_max_def)
  have lt: "\<forall>c w. records ?e (from_raw [1]) c = Some w \<longrightarrow> c < 40"
    unfolding records_def vs by (auto simp: example_versions_def split: if_splits)
  have "\<not> is_short_value long_value" by (simp add: is_short_value_def long_value_def SHORT_VALUE_MAX_LEN_def)
  then show ?thesis
    using prewrite_put [OF reader_on_new [OF example_unlocked(1), of 40] example_unlocked(2) example_props_ok(1) n lt,
        of example_env "mvcc_txn_new 40" example_manager long_value]
    by (auto simp: prewrite_def mvcc_txn_new_def)
qed

theorem prewrite_keeps_store_witness:
  "\<exists>txn' r' e'. prewrite_with_generation example_env (mvcc_txn_new 40) example_manager
      (fresh_reader (one_key_engine [1] example_versions) 40) (example_props 40) (make_put (from_raw [1]) long_value) None
      SkipPessimisticCheck None 0 = (Ok (ts_zero, OvUnspecified), txn', example_manager, r') \<and>
    t_modifies txn' = [ModPut CF_DEFAULT (append_ts (from_raw [1]) 40) long_value,
      ModPut CF_LOCK (from_raw [1]) (lock_to_bytes (put_lock_of (example_props 40) long_value))] \<and>
    write_modifies (one_key_engine [1] example_versions) (t_modifies txn') = Ok e' \<and> store_ok e' \<and>
    versions e' (from_raw [1]) = example_versions \<and>
    stored_lock (one_key_engine [1] example_versions) (from_raw [1]) = None \<and>
    stored_lock e' (from_raw [1]) = Some (put_lock_of (example_props 40) long_value)"
proof -
  let ?e = "one_key_engine [1] example_versions" and ?l = "put_lock_of (example_props 40) long_value"
  obtain txn' r' where p: "prewrite_with_generation example_env (mvcc_txn_new 40) example_manager
      (fresh_reader ?e 40) (example_props 40) (make_put (from_raw [1]) long_value) None
      SkipPessimisticCheck None 0 = (Ok (ts_zero, OvUnspecified), txn', example_manager, r')"
    and ms: "t_modifies txn' = [ModPut CF_DEFAULT (append_ts (from_raw [1]) 40) long_value,
      ModPut CF_LOCK (from_raw [1]) (lock_to_bytes ?l)]"
    using example_prewrite by blast
  have "length (tp_primary (example_props 40)) < 2 ^ 63" by (simp add: example_props_def)
  then obtain e' where e': "write_modifies ?e (t_modifies txn') = Ok e'" "store_ok e'"
    "versions e' (from_raw [1]) = versions ?e (from_raw [1])"
    using prewrite_keeps_store [OF reader_on_new [OF example_unlocked(1)] mvcc_txn_new_sel(1) _ _ p, of "from_raw [1]"] by auto
  have wf: "lock_wf ?l" by (rule put_lock_of_simps(6) [OF example_props_ok(1)])
  have ok: "list_all store_modify_ok (t_modifies txn')"
    unfolding ms using wf by (auto simp: store_modify_ok_def lock_value_ok_def)
  have "engine_map e' CF_LOCK (from_raw [1]) = Some (lock_to_bytes ?l)"
    using store_write [OF example_unlocked(1) ok] e'(1) by (auto simp: ms apply_modify_def)
  then have "stored_lock e' (from_raw [1]) = Some ?l" by (rule stored_lock_put [OF e'(2) _ wf])
  then show ?thesis using p ms e' example_reader_versions [of "[1]"] example_unlocked(2) by auto
qed

end
