(* ===== verification/Acquire_Lock.thy ===== *)
theory Acquire_Lock
  imports Prewrite_Batch
begin

text \<open>
  Acquiring a pessimistic lock (\<^verbatim>\<open>src/storage/txn/actions/acquire_pessimistic_lock.rs\<close>): the request, the result
  of the key (\<^verbatim>\<open>src/storage/types.rs\<close>), the path of a key that is already locked, the path of an unlocked key with
  the conflict, rollback and existence checks, and the proof that a granted lock excludes every other
  transaction and covers the newest version of the key.
\<close>

subsection \<open>Requests and results\<close>

datatype pessimistic_lock_key_result =
    PlEmpty
  | PlValue "val option"
  | PlExistence bool
  | PlLockedWithConflict "val option" timestamp

definition new_success :: "bool \<Rightarrow> bool \<Rightarrow> timestamp option \<Rightarrow> val option \<Rightarrow> pessimistic_lock_key_result" where
  "new_success need_value need_check_existence locked_with_conflict_ts v =
     (case locked_with_conflict_ts of
        Some conflict_ts \<Rightarrow> PlLockedWithConflict v conflict_ts
      | None \<Rightarrow>
          if need_value then PlValue v
          else if need_check_existence then PlExistence (v \<noteq> None)
          else PlEmpty)"

record acquire_request =
  ar_key :: key
  ar_primary :: bytes
  ar_should_not_exist :: bool
  ar_lock_ttl :: u64
  ar_for_update_ts :: timestamp
  ar_need_value :: bool
  ar_need_check_existence :: bool
  ar_min_commit_ts :: timestamp
  ar_need_old_value :: bool
  ar_lock_only_if_exists :: bool
  ar_allow_lock_with_conflict :: bool

record conflict_info =
  ci_start_ts :: timestamp
  ci_commit_ts :: timestamp

definition into_write_conflict_error :: "conflict_info \<Rightarrow> timestamp \<Rightarrow> bytes \<Rightarrow> bytes \<Rightarrow> mvcc_error" where
  "into_write_conflict_error ci start_ts primary raw =
     MvWriteConflict start_ts (ci_start_ts ci) (ci_commit_ts ci) raw primary CrPessimisticRetry"

definition is_already_exist :: "mvcc_error \<Rightarrow> bool" where
  "is_already_exist e = (case e of MvAlreadyExist _ _ \<Rightarrow> True | _ \<Rightarrow> False)"

text \<open>The error of a failed constraint, or the write conflict when there is one.\<close>

definition constraint_or_conflict ::
  "acquire_request \<Rightarrow> conflict_info option \<Rightarrow> snapshot_reader \<Rightarrow> write_record \<Rightarrow> timestamp \<Rightarrow> (snapshot_reader, mvcc_error) result" where
  "constraint_or_conflict q conflict r w commit_ts =
     (case check_data_constraint r (ar_should_not_exist q) w commit_ts (ar_key q) of
        Err e \<Rightarrow>
          (case conflict of
             Some ci \<Rightarrow>
               if is_already_exist e
               then and_then (raw_key_of (ar_key q)) (\<lambda>raw.
                      Err (into_write_conflict_error ci (sr_start_ts r) (ar_primary q) raw))
               else Err e
           | None \<Rightarrow> Err e)
      | res \<Rightarrow> res)"

definition load_old_value ::
  "bool \<Rightarrow> bool \<Rightarrow> val option \<Rightarrow> snapshot_reader \<Rightarrow> key \<Rightarrow> timestamp \<Rightarrow> bool \<Rightarrow> write_record option \<Rightarrow>
     (old_value \<times> snapshot_reader, mvcc_error) result" where
  "load_old_value need_old_value value_loaded v r key for_update_ts prev_write_loaded prev_write =
     (if \<not> need_old_value then Ok (OvUnspecified, r)
      else if value_loaded then Ok (case v of Some v \<Rightarrow> OvValue v | None \<Rightarrow> OvNone, r)
      else sr_get_old_value r key for_update_ts prev_write_loaded prev_write)"

definition need_load_value :: "acquire_request \<Rightarrow> bool" where
  "need_load_value q \<longleftrightarrow> ar_need_value q \<or> ar_need_check_existence q \<and> ar_need_old_value q"

definition lock_of_request ::
  "acquire_request \<Rightarrow> timestamp \<Rightarrow> timestamp \<Rightarrow> last_change \<Rightarrow> bool \<Rightarrow> pessimistic_lock" where
  "lock_of_request q start_ts for_update_ts lc with_conflict =
     \<lparr>p_primary = ar_primary q, p_start_ts = start_ts, p_ttl = ar_lock_ttl q, p_for_update_ts = for_update_ts,
      p_min_commit_ts = ar_min_commit_ts q, p_last_change = lc, p_is_locked_with_conflict = with_conflict\<rparr>"

subsection \<open>A key that is locked\<close>

definition acquire_locked ::
  "mvcc_txn \<Rightarrow> snapshot_reader \<Rightarrow> acquire_request \<Rightarrow> lock \<Rightarrow> (pessimistic_lock_key_result \<times> old_value) action" where
  "acquire_locked txn r q l =
     (let key = ar_key q; start_ts = sr_start_ts r in
      if l_ts l \<noteq> start_ts then and_then (raw_key key) (\<lambda>raw. Err (MvKeyIsLocked (into_lock_info l raw)))
      else if \<not> is_pessimistic_lock l then and_then (raw_key key) (\<lambda>raw. Err (MvLockTypeNotMatch start_ts raw False))
      else
        let requested = ar_for_update_ts q;
            conflict = ar_allow_lock_with_conflict q \<and> requested < l_for_update_ts l;
            need_load = (need_load_value q \<or> conflict);
            for_update_ts = (if conflict then l_for_update_ts l else requested) in
        and_then
          (if need_load \<or> ar_need_check_existence q \<or> ar_should_not_exist q
           then
             and_then (sr_get_write_with_commit_ts r key for_update_ts) (\<lambda>(w, r).
             case w of
               None \<Rightarrow> Ok (None, r)
             | Some (w, commit_ts) \<Rightarrow>
                 and_then
                   (constraint_or_conflict q
                     (if commit_ts > requested then Some \<lparr>ci_start_ts = w_start_ts w, ci_commit_ts = commit_ts\<rparr> else None)
                     r w commit_ts) (\<lambda>r.
                 if need_load then map_ok (\<lambda>(v, r). (Some v, r)) (sr_load_data r key w)
                 else Ok (if ar_need_check_existence q then Some [] else None, r)))
           else Ok (None, r)) (\<lambda>(v, r).
        and_then (load_old_value (ar_need_old_value q) need_load v r key for_update_ts False None) (\<lambda>(old_value, r).
        and_then
          (if for_update_ts > l_for_update_ts l
           then put_pessimistic_lock txn key
                  (lock_of_request q start_ts for_update_ts (l_last_change l) (is_pessimistic_lock_with_conflict l)) False
           else Ok txn) (\<lambda>txn.
        Ok ((new_success (ar_need_value q) (ar_need_check_existence q)
               (if conflict then Some (l_for_update_ts l) else None) v, old_value), txn, r)))))"

subsection \<open>A key that is not locked\<close>

text \<open>A rollback of the transaction on the key, in a record of its own or as a mark.\<close>

definition is_own_rollback :: "timestamp \<Rightarrow> timestamp \<Rightarrow> write_record \<Rightarrow> bool" where
  "is_own_rollback start_ts commit_ts w \<longleftrightarrow>
     commit_ts = start_ts \<and> (w_write_type w = WtRollback \<or> w_has_overlapped_rollback w)"

definition check_rolled_back ::
  "snapshot_reader \<Rightarrow> key \<Rightarrow> timestamp \<Rightarrow> write_record \<Rightarrow> (snapshot_reader, mvcc_error) result" where
  "check_rolled_back r key commit_ts w =
     (let start_ts = sr_start_ts r;
          rolled_back = and_then (raw_key key) (\<lambda>raw. Err (MvPessimisticLockRolledBack start_ts raw)) in
      if is_own_rollback start_ts commit_ts w
      then assert_then (w_has_overlapped_rollback w \<or> w_start_ts w = commit_ts) rolled_back
      else if commit_ts > start_ts
      then
        and_then (sr_seek_write r key start_ts) (\<lambda>(older, r).
        case older of
          Some (c, w) \<Rightarrow> if is_own_rollback start_ts c w then rolled_back else Ok r
        | None \<Rightarrow> Ok r)
      else Ok r)"

text \<open>The value a record gives: the record itself, or for a lock or rollback what is below it.\<close>

definition value_of_write ::
  "bool \<Rightarrow> snapshot_reader \<Rightarrow> key \<Rightarrow> timestamp \<Rightarrow> write_record \<Rightarrow> (val option \<times> snapshot_reader, mvcc_error) result" where
  "value_of_write need_load r key commit_ts w =
     (case w_write_type w of
        WtPut \<Rightarrow>
          if check_gc_fence_as_latest_version w (sr_start_ts r)
          then if need_load then map_ok (\<lambda>(v, r). (Some v, r)) (sr_load_data r key w) else Ok (Some [], r)
          else Ok (None, r)
      | WtDelete \<Rightarrow> Ok (None, r)
      | _ \<Rightarrow>
          and_then (ts_prev commit_ts) (\<lambda>ts.
          if need_load then sr_get r key ts
          else map_ok (\<lambda>(w, r). (map_option (\<lambda>_. []) w, r)) (sr_get_write r key ts)))"

text \<open>What the newest record says: the conflict that was ignored, the last change and the value.\<close>

definition acquire_check_write ::
  "timestamp \<Rightarrow> snapshot_reader \<Rightarrow> acquire_request \<Rightarrow> timestamp \<Rightarrow> write_record \<Rightarrow>
     (conflict_info option \<times> last_change \<times> val option \<times> snapshot_reader, mvcc_error) result" where
  "acquire_check_write txn_start_ts r q commit_ts w =
     (let key = ar_key q; start_ts = sr_start_ts r;
          conflict = commit_ts > ar_for_update_ts q in
      if conflict \<and> \<not> ar_allow_lock_with_conflict q
      then and_then (raw_key key) (\<lambda>raw.
             Err (MvWriteConflict start_ts (w_start_ts w) commit_ts raw (ar_primary q) CrPessimisticRetry))
      else
        let ci = (if conflict then Some \<lparr>ci_start_ts = w_start_ts w, ci_commit_ts = commit_ts\<rparr> else None) in
        and_then (check_rolled_back r key commit_ts w) (\<lambda>r.
        and_then (constraint_or_conflict q ci r w commit_ts) (\<lambda>r.
        and_then (next_last_change_info key w txn_start_ts r commit_ts) (\<lambda>(lc, r).
        and_then
          (if ar_need_value q \<or> ar_need_check_existence q \<or> conflict
           then value_of_write (need_load_value q \<or> conflict) r key commit_ts w
           else Ok (None, r)) (\<lambda>(v, r).
        Ok (ci, lc, v, r))))))"

definition acquire_new ::
  "prewrite_env \<Rightarrow> mvcc_txn \<Rightarrow> snapshot_reader \<Rightarrow> acquire_request \<Rightarrow> (pessimistic_lock_key_result \<times> old_value) action" where
  "acquire_new env txn r q =
     (let key = ar_key q; start_ts = sr_start_ts r in
      and_then (sr_seek_write r key ts_max) (\<lambda>(newest, r).
      and_then
        (case newest of
           Some (commit_ts, w) \<Rightarrow> acquire_check_write (t_start_ts txn) r q commit_ts w
         | None \<Rightarrow> Ok (None, LcNotExist, None, r)) (\<lambda>(ci, lc, v, r).
      let lc = (if pe_last_change env then lc else LcUnknown);
          for_update_ts = (case ci of Some ci \<Rightarrow> ci_commit_ts ci | None \<Rightarrow> ar_for_update_ts q);
          prev_write = (if ar_need_old_value q then map_option snd newest else None) in
      and_then (load_old_value (ar_need_old_value q) (need_load_value q \<or> ci \<noteq> None) v r key for_update_ts True prev_write)
        (\<lambda>(old_value, r).
      and_then
        (if \<not> ar_lock_only_if_exists q \<or> v \<noteq> None
         then put_pessimistic_lock txn key (lock_of_request q start_ts for_update_ts lc (ci \<noteq> None)) True
         else
           (case ci of
              Some ci \<Rightarrow> and_then (raw_key key) (\<lambda>raw. Err (into_write_conflict_error ci start_ts (ar_primary q) raw))
            | None \<Rightarrow> Ok txn)) (\<lambda>txn.
      Ok ((new_success (ar_need_value q) (ar_need_check_existence q) (map_option ci_commit_ts ci) v, old_value), txn, r))))))"

subsection \<open>The action\<close>

definition acquire_pessimistic_lock ::
  "prewrite_env \<Rightarrow> mvcc_txn \<Rightarrow> concurrency_manager \<Rightarrow> snapshot_reader \<Rightarrow> acquire_request \<Rightarrow>
     (pessimistic_lock_key_result \<times> old_value) action \<times> concurrency_manager" where
  "acquire_pessimistic_lock env txn cm r q =
     (if ar_lock_only_if_exists q \<and> \<not> ar_need_value q
      then (and_then (raw_key (ar_key q)) (\<lambda>raw. Err (MvLockIfExistsFailed (sr_start_ts r) raw)), cm)
      else
        let (now, now', tso) = pe_clock env 0;
            (res, cm) =
              (if ar_should_not_exist q \<or> ar_need_value q \<or> ar_need_check_existence q
               then update_max_ts cm now now' tso (ar_for_update_ts q) else (Ok (), cm)) in
        (and_then (map_err (\<lambda>_. MvInvalidMaxTsUpdate) res) (\<lambda>_.
         and_then (sr_load_lock r (ar_key q)) (\<lambda>(lo, r).
         case lo of Some l \<Rightarrow> acquire_locked txn r q l | None \<Rightarrow> acquire_new env txn r q)), cm))"

subsection \<open>What a granted lock says\<close>

lemma newest_record:
  assumes "store_ok e" "latest (versions e key) ts_max = Some (c, w)"
  shows "records e key c = Some w" "\<And>c' w'. records e key c' = Some w' \<Longrightarrow> c' \<le> c"
proof -
  have l: "(c, w) \<in> set (versions e key)" "\<forall>x\<in>set (versions e key). fst x \<le> c"
    using assms(2) unfolding latest_Some [OF newest_first_store [OF assms(1)]] by (auto simp: ts_max_minus_1)
  show "records e key c = Some w" using l(1) in_versions [OF assms(1)] by blast
  show "c' \<le> c" if "records e key c' = Some w'" for c' w'
    using bspec [OF l(2), of "(c', w')"] that in_versions [OF assms(1)] by simp
qed

lemma check_rolled_back_Ok:
  assumes "reader_on e s r" "check_rolled_back r (from_raw raw) c w = Ok r'"
    "latest (versions e (from_raw raw)) ts_max = Some (c, w)"
  shows "\<forall>x. records e (from_raw raw) s = Some x \<longrightarrow> w_write_type x \<noteq> WtRollback \<and> \<not> w_has_overlapped_rollback x"
proof (intro allI impI)
  fix x assume x: "records e (from_raw raw) s = Some x"
  let ?vs = "versions e (from_raw raw)"
  note se = reader_onD(1) [OF assms(1)] and st = reader_onD(4) [OF assms(1)]
  have nf: "newest_first ?vs" using newest_first_store [OF se] .
  note cw = newest_record [OF se assms(3)]
  have "s \<le> c" using cw(2) x by blast
  have own: "\<not> is_own_rollback s c w" using assms(2) st by (auto simp: check_rolled_back_def Let_def result_simps assert_then_eq_Ok)
  show "w_write_type x \<noteq> WtRollback \<and> \<not> w_has_overlapped_rollback x"
  proof (cases "c = s")
    case True
    then show ?thesis using own cw(1) x by (auto simp: is_own_rollback_def)
  next
    case False
    then have gt: "c > s" using \<open>s \<le> c\<close> by simp
    have "latest ?vs s = Some (s, x)"
      unfolding latest_Some [OF nf] using x in_versions [OF se] by auto
    then obtain r1 where "sr_seek_write r (from_raw raw) s = Ok (Some (s, x), r1)"
      using sr_seek_write_eq [OF assms(1), of raw s] by auto
    then show ?thesis
      using assms(2) own gt st by (auto simp: check_rolled_back_def Let_def result_simps is_own_rollback_def split: if_splits)
  qed
qed

lemma acquire_check_write_Ok:
  assumes "reader_on e s r" "acquire_check_write t r q c w = Ok (ci, lc, v, r')" "ar_key q = from_raw raw"
    "latest (versions e (from_raw raw)) ts_max = Some (c, w)"
  shows "ar_for_update_ts q \<le> (case ci of Some ci \<Rightarrow> ci_commit_ts ci | None \<Rightarrow> ar_for_update_ts q)"
    "c \<le> (case ci of Some ci \<Rightarrow> ci_commit_ts ci | None \<Rightarrow> ar_for_update_ts q)" "last_change_wf lc"
    "\<forall>x. records e (from_raw raw) s = Some x \<longrightarrow> w_write_type x \<noteq> WtRollback \<and> \<not> w_has_overlapped_rollback x"
proof -
  obtain r1 r2 r3 where o: "check_rolled_back r (from_raw raw) c w = Ok r1" "next_last_change_info (from_raw raw) w t r2 c = Ok (lc, r3)"
    "ci = (if c > ar_for_update_ts q then Some \<lparr>ci_start_ts = w_start_ts w, ci_commit_ts = c\<rparr> else None)"
    using assms(2,3) by (auto simp: acquire_check_write_def Let_def result_simps split: if_splits)
  show "ar_for_update_ts q \<le> (case ci of Some ci \<Rightarrow> ci_commit_ts ci | None \<Rightarrow> ar_for_update_ts q)"
    "c \<le> (case ci of Some ci \<Rightarrow> ci_commit_ts ci | None \<Rightarrow> ar_for_update_ts q)"
    using o(3) by auto
  show "last_change_wf lc" using next_last_change_wf [OF o(2)] .
  show "\<forall>x. records e (from_raw raw) s = Some x \<longrightarrow> w_write_type x \<noteq> WtRollback \<and> \<not> w_has_overlapped_rollback x"
    by (rule check_rolled_back_Ok [OF assms(1) o(1) assms(4)])
qed

lemma latest_None_records: "store_ok e \<Longrightarrow> latest (versions e key) ts_max = None \<Longrightarrow> records e key c = None"
  by (auto simp: records_def latest_def find_None_iff ts_max_minus_1 map_of_eq_None_iff)

text \<open>The lock of a request on an unlocked key.\<close>

definition covers :: "btree_engine \<Rightarrow> key \<Rightarrow> acquire_request \<Rightarrow> timestamp \<Rightarrow> pessimistic_lock \<Rightarrow> bool" where
  "covers e key q s l \<longleftrightarrow> p_start_ts l = s \<and> p_primary l = ar_primary q \<and> last_change_wf (p_last_change l) \<and>
     ar_for_update_ts q \<le> p_for_update_ts l \<and> (\<forall>c w. records e key c = Some w \<longrightarrow> c \<le> p_for_update_ts l) \<and>
     (\<forall>w. records e key s = Some w \<longrightarrow> w_write_type w \<noteq> WtRollback \<and> \<not> w_has_overlapped_rollback w)"

lemma acquire_new_Ok:
  assumes "reader_on e s r" "acquire_new env txn r q = Ok (out, txn', r')" "ar_key q = from_raw raw" "\<not> ar_lock_only_if_exists q"
  shows "\<exists>l. t_modifies txn' = t_modifies txn @ [ModPessimisticLock (from_raw raw) l] \<and> covers e (from_raw raw) q s l"
proof -
  let ?key = "from_raw raw" and ?newest = "latest (versions e (from_raw raw)) ts_max"
  note se = reader_onD(1) [OF assms(1)]
  obtain r1 where r1: "sr_seek_write r ?key ts_max = Ok (?newest, r1)" "reader_on e s r1"
    using sr_seek_write_eq [OF assms(1)] by blast
  let ?checked = "case ?newest of Some (c, w) \<Rightarrow> acquire_check_write (t_start_ts txn) r1 q c w | None \<Rightarrow> Ok (None, LcNotExist, None, r1)"
  obtain ci lc v r2 where c: "?checked = Ok (ci, lc, v, r2)"
    using assms(2,3) r1(1) by (cases ?checked) (auto simp: acquire_new_def Let_def split: prod.splits)
  let ?f = "case ci of Some ci \<Rightarrow> ci_commit_ts ci | None \<Rightarrow> ar_for_update_ts q"
  let ?l = "lock_of_request q s ?f (if pe_last_change env then lc else LcUnknown) (ci \<noteq> None)"
  have "put_pessimistic_lock txn ?key ?l True = Ok txn'"
    using assms(2-4) r1(1) c reader_onD(4) [OF assms(1)] by (auto simp: acquire_new_def Let_def result_simps)
  then have m: "t_modifies txn' = t_modifies txn @ [ModPessimisticLock ?key ?l]"
    by (auto simp: put_pessimistic_lock_def push_new_lock_def result_simps)
  have "covers e ?key q s ?l"
  proof (cases ?newest)
    case None
    then show ?thesis
      using c latest_None_records [OF se] by (auto simp: covers_def lock_of_request_def)
  next
    case (Some p)
    obtain cts w where p: "p = (cts, w)" by (cases p)
    have "acquire_check_write (t_start_ts txn) r1 q cts w = Ok (ci, lc, v, r2)" using c Some p by simp
    note a = acquire_check_write_Ok [OF r1(2) this assms(3) Some [unfolded p]]
    have "c \<le> ?f" if "records e ?key c = Some x" for c x
      using newest_record(2) [OF se Some [unfolded p] that] a(2) by simp
    then show ?thesis using a(1,3,4) by (auto simp: covers_def lock_of_request_def)
  qed
  then show ?thesis using m by blast
qed

lemma acquire_other_locked:
  assumes "reader_on e s r" "stored_lock e (from_raw raw) = Some l" "l_ts l \<noteq> s" "ar_key q = from_raw raw"
  shows "fst (acquire_pessimistic_lock env txn cm r q) \<noteq> Ok out"
proof -
  obtain r1 where r1: "sr_load_lock r (from_raw raw) = Ok (Some l, r1)" "reader_on e s r1"
    using sr_load_lock_eq [OF assms(1), of "from_raw raw"] assms(2) by auto
  have "acquire_locked txn r1 q l = Err (MvKeyIsLocked (into_lock_info l raw))"
    using assms(3,4) reader_onD(4) [OF r1(2)] by (simp add: acquire_locked_def Let_def)
  then show ?thesis
    using r1(1) assms(4) by (auto simp: acquire_pessimistic_lock_def Let_def result_simps split: prod.splits)
qed

lemma st_bind_OkD: "fst (st_bind m f s) = Ok x \<Longrightarrow> \<exists>y s'. m s = (Ok y, s') \<and> fst (f y s') = Ok x"
  by (auto simp: st_bind_def split: prod.splits result.splits)

lemma prewrite_other_locked:
  assumes "reader_on e s r" "stored_lock e (from_raw raw) = Some l" "l_ts l \<noteq> tp_start_ts p" "fst (into_key_value mut) = from_raw raw"
  shows "fst (prewrite_with_generation env txn cm r p mut sec action expected gen) \<noteq> Ok out"
proof (cases "from_mutation mut sec action p")
  case (Ok m)
  have m: "pm_key m = from_raw raw" "pm_props m = p" using Ok assms(4) by (auto simp: from_mutation_def split: if_splits prod.splits)
  obtain r1 where r1: "sr_load_lock r (from_raw raw) = Ok (Some l, r1)"
    using sr_load_lock_eq [OF assms(1), of "from_raw raw"] assms(2) by auto
  have chk: "fst (check_lock l action expected gen s') \<noteq> Ok x" if "pm_props (ps_mut s') = p" for s' x
    using that assms(3) by (auto simp: check_lock_def Let_def pm_lock_info_def result_simps)
  let ?s = "\<lparr>ps_txn = txn, ps_cm = cm, ps_reader = r, ps_mut = m\<rparr>"
  show ?thesis
  proof
    assume "fst (prewrite_with_generation env txn cm r p mut sec action expected gen) = Ok out"
    then have "fst (prewrite_checked env action expected gen ?s) = Ok out"
      using Ok by (auto simp: prewrite_with_generation_def split: prod.splits)
    note b = this [unfolded prewrite_checked_def Let_def pw_state.select_convs m(2)]
    obtain y s1 where s1: "(if pm_should_not_exist m then st_update_max_ts env 0 (tp_start_ts p) else st_return ()) ?s = (Ok y, s1)"
      "fst (st_bind (\<lambda>s. st_read (\<lambda>r. sr_load_lock r (pm_key (ps_mut s))) s) (\<lambda>lo.
         st_bind (prewrite_lock_status action expected gen lo)
           (\<lambda>(status, amended). prewrite_with_status env action gen (tp_start_ts p) status amended)) s1) = Ok out"
      using st_bind_OkD [OF b] by blast
    have "ps_reader s1 = r" "ps_mut s1 = m"
      using s1(1) by (auto simp: st_update_max_ts_def split: if_splits prod.splits)
    then have ld: "st_read (\<lambda>r. sr_load_lock r (pm_key (ps_mut s1))) s1 = (Ok (Some l), s1\<lparr>ps_reader := r1\<rparr>)"
      using m(1) r1 by simp
    obtain lo s1' where lo: "st_read (\<lambda>r. sr_load_lock r (pm_key (ps_mut s1))) s1 = (Ok lo, s1')"
      "fst (st_bind (prewrite_lock_status action expected gen lo)
         (\<lambda>(status, amended). prewrite_with_status env action gen (tp_start_ts p) status amended) s1') = Ok out"
      using st_bind_OkD [OF s1(2)] by blast
    obtain st s2 where "prewrite_lock_status action expected gen lo s1' = (Ok st, s2)" using st_bind_OkD [OF lo(2)] by blast
    moreover have "lo = Some l" "s1' = s1\<lparr>ps_reader := r1\<rparr>" using ld lo(1) by simp_all
    ultimately obtain x where "fst (check_lock l action expected gen (s1\<lparr>ps_reader := r1\<rparr>)) = Ok x"
      by (auto simp: prewrite_lock_status_def st_bind_def split: prod.splits result.splits)
    then show False using chk \<open>ps_mut s1 = m\<close> m(2) by simp
  qed
qed (simp_all add: prewrite_with_generation_def)

subsection \<open>Property\<close>

text \<open>
  C4: A granted pessimistic lock excludes every other transaction and covers the newest version. When a request, other than one that locks only
  if the key exists, is granted on an unlocked key, its batch is the lock alone and applies; the stored lock is the transaction's, its for-update timestamp is at
  least the requested one and at least the commit timestamp of every version of the key, and the transaction has no rollback on the key. After
  that neither a lock request nor a prewrite of another transaction succeeds on the key.
\<close>

theorem pessimistic_lock_excludes:
  assumes "reader_on e s r" "stored_lock e (from_raw raw) = None" "ar_key q = from_raw raw" "\<not> ar_lock_only_if_exists q"
    "length (ar_primary q) < 2 ^ 63" "t_modifies txn = []"
    "acquire_pessimistic_lock env txn cm r q = (Ok (out, txn', r'), cm')"
    "s2 \<noteq> s" "ar_key q2 = from_raw raw" "tp_start_ts p2 = s2" "fst (into_key_value mut) = from_raw raw"
  shows "\<exists>l e'. t_modifies txn' = [ModPessimisticLock (from_raw raw) l] \<and> covers e (from_raw raw) q s l \<and>
    write_modifies e (t_modifies txn') = Ok e' \<and> store_ok e' \<and> stored_lock e' (from_raw raw) = Some (into_lock l) \<and>
    fst (acquire_pessimistic_lock env2 txn2 cm2 (fresh_reader e' s2) q2) \<noteq> Ok out2 \<and>
    fst (prewrite_with_generation env2 txn2 cm2 (fresh_reader e' s2) p2 mut sec action expected gen) \<noteq> Ok out3"
proof -
  let ?key = "from_raw raw"
  note se = reader_onD(1) [OF assms(1)]
  obtain r1 where r1: "sr_load_lock r ?key = Ok (None, r1)" "reader_on e s r1"
    using sr_load_lock_eq [OF assms(1), of ?key] assms(2) by auto
  have "acquire_new env txn r1 q = Ok (out, txn', r')"
    using assms(3,4,7) r1(1) by (auto simp: acquire_pessimistic_lock_def Let_def result_simps split: prod.splits if_splits)
  from acquire_new_Ok [OF r1(2) this assms(3,4)] obtain l where
    l: "t_modifies txn' = [ModPessimisticLock ?key l]" "covers e ?key q s l" using assms(6) by auto
  have wf: "lock_wf (into_lock l)" "l_ts (into_lock l) = s"
    using l(2) assms(5) by (simp_all add: covers_def into_lock_def lock_new_def lock_set_last_change_def lock_wf_def)
  have "list_all store_modify_ok (t_modifies txn')" using l(1) wf(1) by (simp add: store_modify_ok_def)
  from store_write [OF se this] obtain e' where e': "write_modifies e (t_modifies txn') = Ok e'" "store_ok e'"
    "engine_map e' = fold apply_modify (t_modifies txn') (engine_map e)" by blast
  have "engine_map e' CF_LOCK ?key = Some (lock_to_bytes (into_lock l))" using e'(3) l(1) by (simp add: apply_modify_def)
  then have sl: "stored_lock e' ?key = Some (into_lock l)" using stored_lock_put e'(2) wf(1) by blast
  note r2 = reader_on_new [OF e'(2), of s2]
  have n: "l_ts (into_lock l) \<noteq> s2" "l_ts (into_lock l) \<noteq> tp_start_ts p2" using wf(2) assms(8,10) by simp_all
  show ?thesis
    by (intro exI [of _ l] exI [of _ e'] conjI l e'(1,2) sl acquire_other_locked [OF r2 sl n(1) assms(9)]
        prewrite_other_locked [OF r2 sl n(2) assms(11)])
qed

definition example_request :: acquire_request where
  "example_request =
     \<lparr>ar_key = from_raw [1], ar_primary = [1], ar_should_not_exist = False, ar_lock_ttl = 3, ar_for_update_ts = 40,
      ar_need_value = False, ar_need_check_existence = False, ar_min_commit_ts = 0, ar_need_old_value = False,
      ar_lock_only_if_exists = False, ar_allow_lock_with_conflict = False\<rparr>"

lemma example_acquire:
  "\<exists>out txn' r'. acquire_pessimistic_lock example_env (mvcc_txn_new 40) example_manager
      (fresh_reader (one_key_engine [1] example_versions) 40) example_request = (Ok (out, txn', r'), example_manager)"
proof -
  let ?e = "one_key_engine [1] example_versions" and ?w = "write_new WtDelete 25 None"
  let ?r = "fresh_reader ?e 40"
  note r = reader_on_new [OF example_unlocked(1), of 40]
  have q: "ar_key example_request = from_raw [1]" by (simp add: example_request_def)
  obtain r1 where r1: "sr_load_lock ?r (from_raw [1]) = Ok (None, r1)" "reader_on ?e 40 r1"
    using sr_load_lock_eq [OF r, of "from_raw [1]"] example_unlocked(2) by auto
  have newest: "latest (versions ?e (from_raw [1])) ts_max = Some (30, ?w)"
    unfolding example_reader_versions by (simp add: latest_def example_versions_def ts_max_def)
  obtain r2 where r2: "sr_seek_write r1 (from_raw [1]) ts_max = Ok (Some (30, ?w), r2)" "reader_on ?e 40 r2"
    using sr_seek_write_eq [OF r1(2), of "[1]" ts_max] newest by auto
  have "acquire_check_write 40 r2 example_request 30 ?w = Ok (None, LcExist 30 1, None, r2)"
    using reader_onD(4) [OF r2(2)]
    by (simp add: acquire_check_write_def example_request_def Let_def check_rolled_back_def is_own_rollback_def
        constraint_or_conflict_def check_data_constraint_def next_last_change_info_def make_exist_Ok write_new_def)
  then have "\<exists>out txn'. acquire_new example_env (mvcc_txn_new 40) r1 example_request = Ok (out, txn', r2)"
    using r2(1) q
    by (simp add: acquire_new_def Let_def example_env_def load_old_value_def put_pessimistic_lock_def push_new_lock_def)
      (simp add: example_request_def)
  then show ?thesis
    using r1(1) q by (auto simp: acquire_pessimistic_lock_def Let_def example_env_def) (auto simp: example_request_def)
qed

theorem pessimistic_lock_excludes_witness:
  "\<exists>out txn' r' cm' l e'. acquire_pessimistic_lock example_env (mvcc_txn_new 40) example_manager
      (fresh_reader (one_key_engine [1] example_versions) 40) example_request = (Ok (out, txn', r'), cm') \<and>
    t_modifies txn' = [ModPessimisticLock (from_raw [1]) l] \<and>
    write_modifies (one_key_engine [1] example_versions) (t_modifies txn') = Ok e' \<and>
    stored_lock e' (from_raw [1]) = Some (into_lock l) \<and>
    fst (acquire_pessimistic_lock example_env (mvcc_txn_new 50) example_manager (fresh_reader e' 50) example_request) \<noteq>
      Ok (out, txn', r')"
proof -
  obtain out txn' r' where a: "acquire_pessimistic_lock example_env (mvcc_txn_new 40) example_manager
      (fresh_reader (one_key_engine [1] example_versions) 40) example_request = (Ok (out, txn', r'), example_manager)"
    using example_acquire by blast
  have q: "ar_key example_request = from_raw [1]" "\<not> ar_lock_only_if_exists example_request"
    "length (ar_primary example_request) < 2 ^ 63" "fst (into_key_value (make_put (from_raw [1]) [])) = from_raw [1]"
    "tp_start_ts (example_props 50) = 50" "(50 :: timestamp) \<noteq> 40"
    by (simp_all add: example_request_def make_put_def example_props_def)
  from pessimistic_lock_excludes [OF reader_on_new [OF example_unlocked(1)] example_unlocked(2) q(1-3) mvcc_txn_new_sel(1) a q(6,1,5,4),
      of example_env "mvcc_txn_new 50" example_manager "(out, txn', r')"]
  show ?thesis using a by blast
qed

end
