(* ===== verification/Commands.thy ===== *)
theory Commands
  imports Prewrite
begin

text \<open>
  Write commands of the scheduler (\<^verbatim>\<open>src/storage/txn/commands\<close>): committing and rolling back the keys of a
  transaction, cleaning up one key, resolving locks by the known status of a transaction, and the heart beat of a primary lock. A
  command reads one snapshot, runs its actions on one batch, and gives a result whose modifications are
  written at once; if an action fails the command fails and nothing is written. The context of the request, the flag for
  full disks, and the fields that are empty or constant in these commands (lock waits, lock guards, response
  policy) are left out.
\<close>

subsection \<open>Results\<close>

text \<open>The errors and the results these commands can give.\<close>

datatype txn_error = TeMvcc mvcc_error | TeInvalidTxnTso timestamp timestamp | TeInvalidMaxTsUpdate timestamp timestamp

datatype process_result = PrRes | PrTxnStatus txn_status

record write_result =
  wr_to_be_write :: "modify list"
  wr_rows :: nat
  wr_pr :: process_result
  wr_released_locks :: "released_lock list"
  wr_new_acquired_locks :: "lock_info list"
  wr_known_txn_status :: "(timestamp \<times> timestamp) list"

definition released_push :: "released_lock list \<Rightarrow> released_lock option \<Rightarrow> released_lock list" where
  "released_push ls l = (case l of Some l \<Rightarrow> ls @ [l] | None \<Rightarrow> ls)"

text \<open>The loop over the keys of a command, with the action it runs on each of them.\<close>

primrec run_keys ::
  "(mvcc_txn \<Rightarrow> snapshot_reader \<Rightarrow> key \<Rightarrow> released_lock option action) \<Rightarrow> key list \<Rightarrow> released_lock list \<Rightarrow>
     mvcc_txn \<Rightarrow> snapshot_reader \<Rightarrow> (released_lock list \<times> mvcc_txn, txn_error) result" where
  "run_keys act [] released txn r = Ok (released, txn)"
| "run_keys act (k # ks) released txn r =
     and_then (map_err TeMvcc (act txn r k)) (\<lambda>(l, txn, r).
     run_keys act ks (released_push released l) txn r)"

definition finish_command ::
  "nat \<Rightarrow> process_result \<Rightarrow> (timestamp \<times> timestamp) list \<Rightarrow> released_lock list \<Rightarrow> mvcc_txn \<Rightarrow> (write_result, 'e) result" where
  "finish_command rows pr known released txn =
     (let (new_acquired_locks, txn) = take_new_locks txn in
      map_ok (\<lambda>ms.
        \<lparr>wr_to_be_write = ms, wr_rows = rows, wr_pr = pr, wr_released_locks = released,
         wr_new_acquired_locks = new_acquired_locks, wr_known_txn_status = known\<rparr>) (into_modifies txn))"

subsection \<open>Commands\<close>

text \<open>The term and the version of the request context go into the reader.\<close>

type_synonym request_ctx = "u64 \<times> u64"

definition command_reader :: "request_ctx \<Rightarrow> snapshot \<Rightarrow> timestamp \<Rightarrow> snapshot_reader" where
  "command_reader ctx snapshot start_ts = snapshot_reader_new_with_ctx start_ts snapshot (fst ctx) (snd ctx)"

definition process_commit ::
  "request_ctx \<Rightarrow> snapshot \<Rightarrow> key list \<Rightarrow> timestamp \<Rightarrow> timestamp \<Rightarrow> (write_result, txn_error) result" where
  "process_commit ctx snapshot keys lock_ts commit_ts =
     (if commit_ts \<le> lock_ts then Err (TeInvalidTxnTso lock_ts commit_ts)
      else
        and_then
          (run_keys (\<lambda>txn r k. commit txn r k commit_ts) keys [] (mvcc_txn_new lock_ts) (command_reader ctx snapshot lock_ts))
          (\<lambda>(released, txn).
        finish_command (length keys) (PrTxnStatus (TsCommitted commit_ts)) [(lock_ts, commit_ts)] released txn))"

definition process_rollback ::
  "request_ctx \<Rightarrow> snapshot \<Rightarrow> key list \<Rightarrow> timestamp \<Rightarrow> (write_result, txn_error) result" where
  "process_rollback ctx snapshot keys start_ts =
     and_then
       (run_keys (\<lambda>txn r k. cleanup txn r k ts_zero False) keys [] (mvcc_txn_new start_ts) (command_reader ctx snapshot start_ts))
       (\<lambda>(released, txn). finish_command (length keys) PrRes [] released txn)"

definition process_cleanup ::
  "request_ctx \<Rightarrow> snapshot \<Rightarrow> key \<Rightarrow> timestamp \<Rightarrow> timestamp \<Rightarrow> instant \<times> instant \<times> timestamp option \<Rightarrow> concurrency_manager \<Rightarrow>
     (write_result, txn_error) result \<times> concurrency_manager" where
  "process_cleanup ctx snapshot key start_ts current_ts clock cm =
     (let (now, now', tso) = clock; (res, cm) = update_max_ts cm now now' tso start_ts in
      (and_then (map_err (\<lambda>(ts, limit). TeInvalidMaxTsUpdate ts limit) res) (\<lambda>_.
       and_then
         (run_keys (\<lambda>txn r k. cleanup txn r k current_ts True) [key] [] (mvcc_txn_new start_ts) (command_reader ctx snapshot start_ts))
         (\<lambda>(released, txn). finish_command 1 PrRes [] released txn)), cm))"

definition process_resolve_lock_lite ::
  "request_ctx \<Rightarrow> snapshot \<Rightarrow> key list \<Rightarrow> timestamp \<Rightarrow> timestamp \<Rightarrow> (write_result, txn_error) result" where
  "process_resolve_lock_lite ctx snapshot resolve_keys start_ts commit_ts =
     and_then
       (run_keys (\<lambda>txn r k. if \<not> ts_is_zero commit_ts then commit txn r k commit_ts else cleanup txn r k ts_zero False)
         resolve_keys [] (mvcc_txn_new start_ts) (command_reader ctx snapshot start_ts))
       (\<lambda>(released, txn).
     finish_command (length resolve_keys) PrRes
       (if \<not> ts_is_zero commit_ts then [(start_ts, commit_ts)] else []) released txn)"

definition process_txn_heart_beat ::
  "request_ctx \<Rightarrow> snapshot \<Rightarrow> key \<Rightarrow> timestamp \<Rightarrow> u64 \<Rightarrow> u64 \<Rightarrow> (write_result, txn_error) result" where
  "process_txn_heart_beat ctx snapshot primary_key start_ts advise_ttl min_commit_ts =
     map_err TeMvcc
       (and_then (sr_load_lock (command_reader ctx snapshot start_ts) primary_key) (\<lambda>(lo, r).
        let missing = and_then (raw_key primary_key) (\<lambda>raw. Err (MvTxnNotFound start_ts raw)) in
        case lo of
          None \<Rightarrow> missing
        | Some l \<Rightarrow>
            if l_ts l \<noteq> start_ts then missing
            else
              let ttl_updated = l_ttl l < advise_ttl;
                  l = (if ttl_updated then l\<lparr>l_ttl := advise_ttl\<rparr> else l);
                  ts_updated = (\<not> l_use_async_commit l \<and> l_generation l > 0 \<and> min_commit_ts > 0 \<and>
                    l_min_commit_ts l < min_commit_ts);
                  l = (if ts_updated then l\<lparr>l_min_commit_ts := min_commit_ts\<rparr> else l) in
              and_then
                (if ttl_updated \<or> ts_updated then put_lock (mvcc_txn_new start_ts) primary_key l False
                 else Ok (mvcc_txn_new start_ts))
                (finish_command 1 (PrTxnStatus (TsUncommitted l False)) [] [])))"

subsection \<open>Committing several keys\<close>

abbreviation store_snapshot :: "btree_engine \<Rightarrow> snapshot" where
  "store_snapshot e \<equiv> \<lparr>sn_engine = e, sn_txn_ext = None\<rparr>"

lemma reader_on_command: "store_ok e \<Longrightarrow> reader_on e s (command_reader ctx (store_snapshot e) s)"
  using reader_on_new [of e s]
  by (auto simp: command_reader_def snapshot_reader_new_with_ctx_def snapshot_reader_new_def mvcc_reader_new_with_ctx_def
      reader_on_def reader_ok_def Let_def)

lemma commit_keeps_1pc:
  assumes "commit txn r key cts = Ok (x, txn', r')"
  shows "t_locks_for_1pc txn' = t_locks_for_1pc txn"
proof -
  obtain lo r1 where lo: "sr_load_lock r key = Ok (lo, r1)"
    using assms by (cases "sr_load_lock r key") (auto simp: commit_def)
  have missing: "txn' = txn" if "and_then (sr_get_txn_commit_record r1 key) (\<lambda>(rec, r).
      case record_info rec of
        Some (_, ty) \<Rightarrow> if ty = WtRollback then and_then (raw_key key) (\<lambda>raw. Err (MvTxnLockNotFound (sr_start_ts r) cts raw)) else Ok (None, txn, r)
      | None \<Rightarrow> and_then (raw_key key) (\<lambda>raw. Err (MvTxnLockNotFound (sr_start_ts r) cts raw))) = Ok (x, txn', r')"
    using that by (cases "sr_get_txn_commit_record r1 key") (auto simp: result_simps split: option.splits if_splits)
  have kept: "t_locks_for_1pc (push_delete (put_write txn key cts v) CF_LOCK key) = t_locks_for_1pc txn"
    "t_locks_for_1pc (push_delete txn CF_LOCK key) = t_locks_for_1pc txn" for v
    by (simp_all add: put_write_def push_put_def push_delete_def)
  show ?thesis
  proof (cases lo)
    case None
    then show ?thesis using assms lo missing by (auto simp: commit_def Let_def)
  next
    case (Some l)
    then show ?thesis
      using assms lo missing kept by (auto simp: commit_def Let_def result_simps unlock_eq split: if_splits)
  qed
qed

text \<open>The transaction can commit the key, or it has lost it: neither a lock nor a commit record is left.\<close>

definition committable :: "btree_engine \<Rightarrow> timestamp \<Rightarrow> timestamp \<Rightarrow> key \<Rightarrow> bool" where
  "committable e s cts key \<longleftrightarrow>
     (\<exists>l. own_lock e key s = Some l \<and> \<not> is_pessimistic_lock l \<and> l_min_commit_ts l \<le> cts)"

definition lost :: "btree_engine \<Rightarrow> timestamp \<Rightarrow> key \<Rightarrow> bool" where
  "lost e s key \<longleftrightarrow> own_lock e key s = None \<and> (\<forall>c. determined (txn_record e key s) \<noteq> Some (TsCommitted c))"

definition commit_record :: "btree_engine \<Rightarrow> timestamp \<Rightarrow> timestamp \<Rightarrow> key \<Rightarrow> write_record" where
  "commit_record e s cts key = committed_write (the (own_lock e key s)) s cts"

definition commit_modifies :: "btree_engine \<Rightarrow> timestamp \<Rightarrow> timestamp \<Rightarrow> key \<Rightarrow> modify list" where
  "commit_modifies e s cts key =
     [ModPut CF_WRITE (append_ts key cts) (write_to_bytes (commit_record e s cts key)), ModDelete CF_LOCK key]"

lemma run_commit:
  assumes "list_all (\<lambda>raw. committable e s cts (from_raw raw)) raws" "reader_on e s r"
  shows "\<exists>released' txn'. run_keys (\<lambda>txn r k. commit txn r k cts) (map from_raw raws) released txn r = Ok (released', txn') \<and>
    t_modifies txn' = t_modifies txn @ concat (map (\<lambda>raw. commit_modifies e s cts (from_raw raw)) raws) \<and>
    t_locks_for_1pc txn' = t_locks_for_1pc txn"
  using assms
proof (induction raws arbitrary: released txn r)
  case (Cons raw raws)
  obtain l where l: "own_lock e (from_raw raw) s = Some l" "\<not> is_pessimistic_lock l" "l_min_commit_ts l \<le> cts"
    using Cons.prems(1) by (auto simp: committable_def)
  obtain rl txn1 r1 where c: "commit txn r (from_raw raw) cts = Ok (Some rl, txn1, r1)" "reader_on e s r1"
    "t_modifies txn1 = t_modifies txn @ commit_modifies e s cts (from_raw raw)"
    using commit_own [OF Cons.prems(2) l(1), of cts txn] l(1,2) leD [OF l(3)] by (auto simp: commit_modifies_def commit_record_def)
  obtain released' txn' where "run_keys (\<lambda>txn r k. commit txn r k cts) (map from_raw raws) (released_push released (Some rl)) txn1 r1 =
      Ok (released', txn')" "t_modifies txn' = t_modifies txn1 @ concat (map (\<lambda>raw. commit_modifies e s cts (from_raw raw)) raws)"
    "t_locks_for_1pc txn' = t_locks_for_1pc txn1"
    using Cons.IH [of r1 "released_push released (Some rl)" txn1] Cons.prems(1) c(2) by auto
  then show ?case using c(1,3) commit_keeps_1pc [OF c(1)] by auto
qed simp

lemma run_commit_lost:
  assumes "list_all (\<lambda>raw. history_ok e (from_raw raw)) raws" "reader_on e s r" "raw \<in> set raws" "lost e s (from_raw raw)"
  shows "\<exists>err. run_keys (\<lambda>txn r k. commit txn r k cts) (map from_raw raws) released txn r = Err err"
  using assms(1-3)
proof (induction raws arbitrary: released txn r)
  case (Cons a raws)
  have h: "history_ok e (from_raw a)" using Cons.prems(1) by simp
  have "(\<exists>err. commit txn r (from_raw a) cts = Err err) \<or>
      a \<noteq> raw \<and> (\<exists>x txn1 r1. commit txn r (from_raw a) cts = Ok (x, txn1, r1) \<and> reader_on e s r1)"
  proof (cases "own_lock e (from_raw a) s")
    case None
    then show ?thesis
      using commit_other [OF Cons.prems(2) h None, of txn cts] assms(4)
      by (auto simp: lost_def split: option.splits txn_status.splits)
  next
    case (Some l)
    then have "a \<noteq> raw" using assms(4) by (auto simp: lost_def)
    then show ?thesis using commit_own [OF Cons.prems(2) Some, of cts txn] by (auto split: if_splits)
  qed
  then show ?case
  proof (elim disjE exE conjE)
    fix x txn1 r1 assume c: "a \<noteq> raw" "commit txn r (from_raw a) cts = Ok (x, txn1, r1)" "reader_on e s r1"
    show ?thesis
      using Cons.IH [of r1 "released_push released x" txn1] Cons.prems(1,3) c by auto
  qed auto
qed simp

lemma commit_batch_map:
  assumes "distinct raws" and "mp' = fold apply_modify (concat (map (\<lambda>raw. commit_modifies e s cts (from_raw raw)) raws)) mp"
  shows "mp' CF_LOCK k = (if k \<in> from_raw ` set raws then None else mp CF_LOCK k)"
    "mp' CF_WRITE k' = (case find (\<lambda>raw. k' = append_ts (from_raw raw) cts) raws of
        Some raw \<Rightarrow> Some (write_to_bytes (commit_record e s cts (from_raw raw))) | None \<Rightarrow> mp CF_WRITE k')"
  using assms
proof (induction raws arbitrary: mp)
  case (Cons raw raws)
  { case 1
    then show ?case using Cons.IH(1) by (auto simp: commit_modifies_def apply_modify_def) }
  { case 2
    have "find (\<lambda>x. k' = append_ts (from_raw x) cts) raws = None" if "k' = append_ts (from_raw raw) cts"
      using 2 that by (auto simp: find_None_iff)
    then show ?case using Cons.IH(2) 2 by (auto simp: commit_modifies_def apply_modify_def split: option.splits) }
qed simp_all

subsection \<open>Property\<close>

text \<open>
  C5: A commit command is all or nothing. If the transaction holds a prewritten lock on every key, the command
  succeeds, its one batch applies, and afterwards every key has its commit record at the commit timestamp, next to the
  versions it had, and no lock. If the transaction has lost one of its keys, the command fails, so nothing is written for any of them.
\<close>

theorem commit_command_all_or_nothing:
  assumes "store_ok e" "distinct raws" "s < cts" "\<forall>raw\<in>set raws. history_ok e (from_raw raw)"
  shows "((\<forall>raw\<in>set raws. committable e s cts (from_raw raw)) \<longrightarrow>
      (\<exists>wr e'. process_commit ctx (store_snapshot e) (map from_raw raws) s cts = Ok wr \<and>
         write_modifies e (wr_to_be_write wr) = Ok e' \<and> store_ok e' \<and> wr_known_txn_status wr = [(s, cts)] \<and>
         (\<forall>raw\<in>set raws. stored_lock e' (from_raw raw) = None \<and>
            records e' (from_raw raw) = (records e (from_raw raw))(cts \<mapsto> commit_record e s cts (from_raw raw))))) \<and>
    ((\<exists>raw\<in>set raws. lost e s (from_raw raw)) \<longrightarrow>
      (\<exists>err. process_commit ctx (store_snapshot e) (map from_raw raws) s cts = Err err))"
proof (intro conjI impI)
  let ?r = "command_reader ctx (store_snapshot e) s"
  note r = reader_on_command [OF assms(1), of s ctx]
  assume c: "\<forall>raw\<in>set raws. committable e s cts (from_raw raw)"
  let ?ms = "concat (map (\<lambda>raw. commit_modifies e s cts (from_raw raw)) raws)"
  obtain released txn where run: "run_keys (\<lambda>txn r k. commit txn r k cts) (map from_raw raws) [] (mvcc_txn_new s) ?r = Ok (released, txn)"
    "t_modifies txn = ?ms" "t_locks_for_1pc txn = []"
    using run_commit [OF _ r, of cts raws "[]" "mvcc_txn_new s"] c by (auto simp: list_all_iff mvcc_txn_new_def)
  obtain wr where wr: "process_commit ctx (store_snapshot e) (map from_raw raws) s cts = Ok wr" "wr_to_be_write wr = ?ms"
    "wr_known_txn_status wr = [(s, cts)]"
    using run assms(3)
    by (simp add: process_commit_def finish_command_def take_new_locks_def into_modifies_def assert_then_def flip: not_less)
  have wf: "write_wf (commit_record e s cts (from_raw raw))" if "raw \<in> set raws" for raw
    using c that committed_write_wf stored_lock_wf [OF assms(1)]
    by (fastforce simp: committable_def commit_record_def own_lock_def split: option.splits if_splits)
  then have "list_all store_modify_ok ?ms" by (auto simp: list_all_iff commit_modifies_def)
  from store_write [OF assms(1) this] obtain e' where e': "write_modifies e ?ms = Ok e'" "store_ok e'"
    "engine_map e' = fold apply_modify ?ms (engine_map e)" by blast
  note m = commit_batch_map [OF assms(2) e'(3)]
  have "stored_lock e' (from_raw raw) = None \<and>
      records e' (from_raw raw) = (records e (from_raw raw))(cts \<mapsto> commit_record e s cts (from_raw raw))" if raw: "raw \<in> set raws" for raw
  proof
    show "stored_lock e' (from_raw raw) = None" using m(1) raw by (simp add: stored_lock_def)
    have f: "find (\<lambda>x. append_ts (from_raw raw) t = append_ts (from_raw x) cts) raws = (if t = cts then Some raw else None)" for t
      using raw by (induction raws) (auto simp: find_None_iff)
    have "engine_map e' CF_WRITE (append_ts (from_raw raw) t) =
        (if t = cts then Some (write_to_bytes (commit_record e s cts (from_raw raw))) else engine_map e CF_WRITE (append_ts (from_raw raw) t))" for t
      unfolding m(2) f by simp
    then show "records e' (from_raw raw) = (records e (from_raw raw))(cts \<mapsto> commit_record e s cts (from_raw raw))"
      using wf [OF raw] by (auto simp: fun_eq_iff records_eq [OF assms(1)] records_eq [OF e'(2)] write_parse_to_bytes)
  qed
  then show "\<exists>wr e'. process_commit ctx (store_snapshot e) (map from_raw raws) s cts = Ok wr \<and>
         write_modifies e (wr_to_be_write wr) = Ok e' \<and> store_ok e' \<and> wr_known_txn_status wr = [(s, cts)] \<and>
         (\<forall>raw\<in>set raws. stored_lock e' (from_raw raw) = None \<and>
            records e' (from_raw raw) = (records e (from_raw raw))(cts \<mapsto> commit_record e s cts (from_raw raw)))"
    using wr e'(1,2) by metis
next
  assume "\<exists>raw\<in>set raws. lost e s (from_raw raw)"
  then obtain raw where raw: "raw \<in> set raws" "lost e s (from_raw raw)" by blast
  have "list_all (\<lambda>raw. history_ok e (from_raw raw)) raws" using assms(4) by (simp add: list_all_iff)
  from run_commit_lost [OF this reader_on_command [OF assms(1)] raw] obtain err where
    "run_keys (\<lambda>txn r k. commit txn r k cts) (map from_raw raws) [] (mvcc_txn_new s)
      (command_reader ctx (store_snapshot e) s) = Err err" by blast
  then show "\<exists>err. process_commit ctx (store_snapshot e) (map from_raw raws) s cts = Err err"
    using assms(3) by (auto simp: process_commit_def)
qed

theorem commit_command_all_or_nothing_witness:
  "(\<exists>wr e'. process_commit (0, 0) (store_snapshot example_store) [from_raw [1]] 40 50 = Ok wr \<and>
     write_modifies example_store (wr_to_be_write wr) = Ok e' \<and> stored_lock e' (from_raw [1]) = None) \<and>
   (\<exists>err. process_commit (0, 0) (store_snapshot example_store) [from_raw [1]] 41 50 = Err err)"
proof
  have l: "l_min_commit_ts example_lock \<le> 50" by (simp add: example_lock_def lock_new_def)
  have "committable example_store 40 50 (from_raw [1])" using example_store_history(3,5) l by (auto simp: committable_def)
  then show "\<exists>wr e'. process_commit (0, 0) (store_snapshot example_store) [from_raw [1]] 40 50 = Ok wr \<and>
      write_modifies example_store (wr_to_be_write wr) = Ok e' \<and> stored_lock e' (from_raw [1]) = None"
    using commit_command_all_or_nothing [OF example_store(1), of "[[1]]" 40 50 "(0, 0)"] example_store_history(1) by auto
  have n: "no_record example_store (from_raw [1]) 41"
    by (auto simp: no_record_def records_def example_store example_versions_def write_new_def write_set_last_change_def split: if_splits)
  have "determined (txn_record example_store (from_raw [1]) 41) \<noteq> Some (TsCommitted c)" for c
    using txn_record_cases [OF example_store(1), of "from_raw [1]" 41] n
    by (auto simp: determined_def split: option.splits if_splits txn_commit_record.splits)
  moreover have "own_lock example_store (from_raw [1]) 41 = None"
    using example_store(2) by (simp add: own_lock_def example_lock_def lock_new_def)
  ultimately have "lost example_store 41 (from_raw [1])" by (simp add: lost_def)
  then show "\<exists>err. process_commit (0, 0) (store_snapshot example_store) [from_raw [1]] 41 50 = Err err"
    using commit_command_all_or_nothing [OF example_store(1), of "[[1]]" 41 50 "(0, 0)"] example_store_history(1) by auto
qed

end
