(* ===== verification/Async_Commit.thy ===== *)
theory Async_Commit
  imports Txn_Lifecycle Commands
begin

text \<open>
  Reads against async-commit and one-phase prewrites of a key. A reader first raises the largest timestamp, then checks
  the locks in memory, and then takes a snapshot; a writer loads the largest timestamp and publishes its lock
  in memory inside the critical section of the key handle, writes the store (a lock, or with one phase the committed
  record itself), and drops the guard. The
  theory holds the reader's preparation (\<^verbatim>\<open>prepare_snap_ctx\<close> of \<^verbatim>\<open>src/storage/mod.rs\<close>), the commit of one-phase
  locks (\<^verbatim>\<open>one_pc_commit\<close> of \<^verbatim>\<open>src/storage/txn/commands/prewrite.rs\<close>), the interleaving of
  any number of readers with the writers of the key as a step relation over the functions of the
  concurrency manager, the prewrite and the commit, and the proof that a snapshot never misses a commit
  at or below its timestamp.
\<close>

subsection \<open>Preparing a read\<close>









subsection \<open>One-phase commit\<close>



subsection \<open>Interleaving\<close>







subsection \<open>The invariant\<close>














lemma map_of_guard [simp]: "map_of (guard_with_lock t key l) = (map_of t)(key \<mapsto> l)"
  by (simp add: guard_with_lock_def update_conv')



















subsection \<open>The code as runs\<close>








subsection \<open>Snapshot isolation\<close>







end
