(* ===== verification/Spec2Isabelle.thy ===== *)
theory Spec2Isabelle
  imports Codec_Number Codec_Crate Codec_Bytes Timestamp Txn_Types Lock_Record Write_Record Engine Cursor
    Pessimistic_Table Mvcc_Txn Mvcc_Reader Snapshot_Reader Mvcc_Store Txn_Status Latch Latch_Scheduler Deadlock
    Deadlock_Detector Gc Concurrency_Manager Prewrite Txn_Lifecycle Prewrite_Batch Acquire_Lock
    Async_Commit Commands
begin

text \<open>
  A verification library for the transaction layer of TiKV, as it is in the repository of the TiFlash proxy. Paths are
  those of the repository.

  \<^bold>\<open>The program.\<close> Clients run transactions on a multi-version store. A write request becomes a command; the
  scheduler takes the latches of its keys, takes a snapshot, and runs the actions of the command, which read through
  an MVCC reader and collect modifications in an \<^verbatim>\<open>MvccTxn\<close>; the modifications go to the engine in one batch. A
  prewrite puts locks and values, a commit turns a lock into a write record, a rollback removes the lock
  and leaves a rollback record. A read raises the largest timestamp in the concurrency manager, checks the locks that are only in
  memory, takes a snapshot, and searches the write records of the key below its timestamp. Waiting pessimistic
  transactions are reported to a deadlock detector, and old versions are removed below a safe point.

  \<^bold>\<open>Conventions\<close> (theory \<open>Prelude\<close>). The outcome of a call is a \<open>result\<close>: a value, an error value, or a
  panic. Machine integers are words and wrap. A stateful operation takes its state and returns it. Clocks, the
  timestamp oracle, the placement driver, hash functions and the iteration order of hash maps are arguments.

  \<^bold>\<open>Formats.\<close>
  \<^item> \<open>Codec_Number\<close>: \<^verbatim>\<open>components/tikv_util/src/codec/number.rs\<close>. Fixed and variable-length numbers; round trips,
    byte order against numeric order, and memory safety of the unrolled decoder. The locales \<open>codec\<close> and
    \<open>ordered_codec\<close> of the prelude are interpreted on its encoders and decoders.
  \<^item> \<open>Codec_Crate\<close>: \<^verbatim>\<open>components/codec/src/number.rs\<close>. The second implementation of variable-length numbers, and its agreement
    with the first.
  \<^item> \<open>Codec_Bytes\<close>: \<^verbatim>\<open>components/tikv_util/src/codec/{bytes,mod}.rs\<close>. The memory-comparable encoding: order, canonical
    decoding, agreement of the in-place decoder, lengths, prefix ranges, and the compact encoding.
  \<^item> \<open>Timestamp\<close>, \<open>Txn_Types\<close>, \<open>Lock_Record\<close>, \<open>Write_Record\<close>: \<^verbatim>\<open>components/txn_types/src\<close>. Timestamps, keys with their version
    order, mutations, and the stored forms of locks and write records with their round trips.

  \<^bold>\<open>Storage.\<close>
  \<^item> \<open>Engine\<close>: \<^verbatim>\<open>components/tikv_kv/src/{lib,btree_engine}.rs\<close>, \<^verbatim>\<open>components/engine_traits/src/cf_defs.rs\<close>. Batches refine
    updates of one map per column family (locale \<open>ordered_map\<close>).
  \<^item> \<open>Cursor\<close>: \<^verbatim>\<open>components/tikv_kv/src/{cursor,stats,btree_engine}.rs\<close>. Seeks and near seeks find the same
    entry (locale \<open>seekable\<close>, interpreted for the four of them).
  \<^item> \<open>Pessimistic_Table\<close>: \<^verbatim>\<open>components/raftstore/src/store/txn_ext.rs\<close>. The in-memory locks of a leader: memory
    accounting, splitting and scanning.

  \<^bold>\<open>Reading and writing versions.\<close>
  \<^item> \<open>Mvcc_Txn\<close>, \<open>Mvcc_Reader\<close>, \<open>Snapshot_Reader\<close>: \<^verbatim>\<open>src/storage/mvcc/{mod,txn}.rs\<close>, \<^verbatim>\<open>src/storage/mvcc/reader/{mod,reader}.rs\<close>, and the helpers of
    \<^verbatim>\<open>src/storage/txn/actions/common.rs\<close>. A version list (\<open>versions\<close>) is the abstract state of a key; reads,
    searches for the commit record of a transaction and data loads compute functions of it.
  \<^item> \<open>Mvcc_Store\<close>: no code of its own. Well-formed stores (\<open>store_ok\<close>), their locks and records, and how a batch changes
    them; the theories below rest on it.

  \<^bold>\<open>Transactions.\<close>
  \<^item> \<open>Txn_Status\<close>: \<^verbatim>\<open>src/storage/txn/actions/{commit,cleanup,check_txn_status}.rs\<close>. Commit and cleanup exclude each other, and
    a committed value is read.
  \<^item> \<open>Prewrite\<close>, \<open>Prewrite_Batch\<close>: \<^verbatim>\<open>src/storage/txn/actions/prewrite.rs\<close>. The steps as state transformers, and a
    Hoare logic by which the batch is well typed on every path.
  \<^item> \<open>Acquire_Lock\<close>: \<^verbatim>\<open>src/storage/txn/actions/acquire_pessimistic_lock.rs\<close>. A granted lock excludes the other transactions.
  \<^item> \<open>Txn_Lifecycle\<close>: prewrite, commit and read in sequence, and that no update is lost.
  \<^item> \<open>Gc\<close>: \<^verbatim>\<open>src/storage/txn/actions/gc.rs\<close>. Reads at or above the safe point do not change.
  \<^item> \<open>Commands\<close>: \<^verbatim>\<open>src/storage/txn/commands/{mod,commit,rollback,cleanup,resolve_lock_lite,txn_heart_beat}.rs\<close>. A commit
    command commits all its keys or none.

  \<^bold>\<open>Concurrency.\<close>
  \<^item> \<open>Latch\<close>, \<open>Latch_Scheduler\<close>: \<^verbatim>\<open>src/storage/txn/latch.rs\<close> and its callers in \<^verbatim>\<open>src/storage/txn/scheduler.rs\<close>. A slot is a queue per
    hash (locale \<open>keyed_queue\<close>); the step relation has mutual exclusion and no lost wake-up, no assertion fails, hand-overs
    included, and every command ends; \<^verbatim>\<open>acquire\<close> and \<^verbatim>\<open>release\<close> always return and are runs of it.
  \<^item> \<open>Concurrency_Manager\<close>: \<^verbatim>\<open>components/concurrency_manager/src\<close>. The largest timestamp and the locks in memory.
  \<^item> \<open>Async_Commit\<close>: the read preparation of \<^verbatim>\<open>src/storage/mod.rs\<close>, the one-phase commit of
    \<^verbatim>\<open>src/storage/txn/commands/prewrite.rs\<close>, and the interleaving of readers with the async-commit and one-phase writers of a
    key as a step relation over the functions above: a snapshot misses no commit at or below its timestamp.
  \<^item> \<open>Deadlock\<close>, \<open>Deadlock_Detector\<close>: \<^verbatim>\<open>src/server/lock_manager/deadlock.rs\<close>. The search is exact and the graph stays acyclic; a request to
    the leader has the effect of a local one.

  \<^bold>\<open>Bounds.\<close> Loops over bytes and over the wait-for graph are total functions with a termination proof. Loops that move a
  reader over the versions of a key take \<open>write_fuel\<close>, the size of the write column family and three, as fuel, and running
  out is a panic: reads, searches for a commit record and garbage collection are proved to return a value, and for the search
  for a newer version in a prewrite more fuel gives the same result (\<open>check_for_newer_version_fuel\<close>). A wait chain is rebuilt
  with one round per recorded predecessor, and detection is proved to return. Lengths are below \<open>2 ^ 63\<close> or \<open>2 ^ 64\<close> where a
  statement says so, which every allocation meets.

  \<^bold>\<open>Limits of the theorems.\<close> Theorems about stores are over well-formed stores of the in-memory engine. The
  lifecycle theorem is about optimistic two-phase puts; the interleaving is that of one key, with the atomics
  of the code read and written in one step each. Locks that fell back from async commit to two phases are not part of the
  interleaving: that they commit above earlier reads is a promise of the timestamp oracle. Theorems about reads
  assume right last-change pointers and no lock or rollback record that a GC fence hides (\<open>pointers_ok\<close>). A snapshot is
  isolated from later writes, as the engine trait promises; the snapshots of the in-memory engine in the repository are not,
  as its comments say.

  \<^bold>\<open>Not modelled.\<close>
  \<^item> The commands other than the five above (batches of prewrites and pessimistic locks, secondary-lock checks,
    flashback, flush, raw writes), the range scanners, the queues of waiting locks, and the dispatch of the scheduler on thread
    pools. They are built from the actions and readers that are modelled.
  \<^item> Replication (\<^verbatim>\<open>components/raftstore\<close>, \<^verbatim>\<open>components/raftstore-v2\<close>, \<^verbatim>\<open>components/batch-system\<close>), which rests on an external raft library;
    the engines that wrap external stores (\<^verbatim>\<open>components/engine_rocks\<close>, \<^verbatim>\<open>components/raft_log_engine\<close>); and the
    bridge to TiFlash (\<^verbatim>\<open>proxy_components\<close>), whose behaviour is defined by the C++ side.
  \<^item> The coprocessor and expression evaluation, change data capture, resolved timestamps, backup, import, encryption and the
    in-memory engine: subsystems of their own above or beside the transaction layer.
  \<^item> The servers, the clients of external services, configuration, metrics and logging: input and output.
\<close>

end
